(* ===== verification/Prelude.thy ===== *)
theory Prelude
  imports Main "HOL-Library.Word" "HOL-Library.Multiset"
begin

text \<open>
  What the components of the model share: the machine integer types, panics as values,
  the \<open>Poll\<close> type of Rust futures, the \<open>Vec\<close> operations of the standard library the
  runtime uses, and machines (a step function on states, its runs and its reachable
  states) with the interface that turns an inductive invariant into panic freedom.
\<close>

unbundle bit_operations_syntax

named_theorems res_simps \<open>evaluation of panicking computations\<close>
named_theorems mach_defs \<open>the step functions of the interleaving machines\<close>

subsection \<open>Machine integers\<close>

text \<open>The runtime is modelled for a 64-bit target: \<open>usize\<close> is 64 bits wide.\<close>

type_synonym u8 = "8 word"
type_synonym u16 = "16 word"
type_synonym u32 = "32 word"
type_synonym u64 = "64 word"
type_synonym usize = "64 word"

lemma unat_of_nat64: "n < 2 ^ 64 \<Longrightarrow> unat (of_nat n :: 64 word) = n"
  by (simp add: unat_of_nat)

lemma unat_of_nat16: "n < 2 ^ 16 \<Longrightarrow> unat (of_nat n :: 16 word) = n"
  by (simp add: unat_of_nat)

lemma unat_add16: "unat a + unat b < 2 ^ 16 \<Longrightarrow> unat (a + b :: 16 word) = unat a + unat b"
  by (simp add: unat_word_ariths)

lemma unat_add64: "unat a + unat b < 2 ^ 64 \<Longrightarrow> unat (a + b :: 64 word) = unat a + unat b"
  by (simp add: unat_word_ariths)

subsection \<open>Panics as values\<close>

text \<open>
  Every \<open>unwrap\<close>, \<open>expect\<close>, \<open>assert!\<close>, \<open>unreachable!\<close>, index and checked arithmetic
  operation that can panic is a branch into one of these.
\<close>

datatype panic =
    Unwrap_None
  | Expect_Failed
  | Assert_Failed
  | Unreachable
  | Index_Out_Of_Bounds
  | Arithmetic_Overflow
  | Division_By_Zero

type_synonym 'a res = "panic + 'a"

definition rbind :: "'a res \<Rightarrow> ('a \<Rightarrow> 'b res) \<Rightarrow> 'b res" where
  "rbind m f = (case m of Inl p \<Rightarrow> Inl p | Inr x \<Rightarrow> f x)"

lemma rbind_Inl [simp, res_simps]: "rbind (Inl p) f = Inl p"
  by (simp add: rbind_def)

lemma rbind_Inr [simp, res_simps]: "rbind (Inr x) f = f x"
  by (simp add: rbind_def)

lemma rbind_eq_Inr [simp]: "rbind m f = Inr y \<longleftrightarrow> (\<exists>x. m = Inr x \<and> f x = Inr y)"
  by (cases m) auto

lemma rbind_eq_Inl: "rbind m f = Inl p \<longleftrightarrow> m = Inl p \<or> (\<exists>x. m = Inr x \<and> f x = Inl p)"
  by (cases m) auto

lemma rbind_assoc: "rbind (rbind m f) g = rbind m (\<lambda>x. rbind (f x) g)"
  by (cases m) auto

lemma rbind_cong [fundef_cong]:
  "m = m' \<Longrightarrow> (\<And>x. m' = Inr x \<Longrightarrow> f x = g x) \<Longrightarrow> rbind m f = rbind m' g"
  by (cases m') auto

definition rassert :: "bool \<Rightarrow> unit res" where
  "rassert b = (if b then Inr () else Inl Assert_Failed)"

lemma rassert_True [simp, res_simps]: "rassert True = Inr ()"
  by (simp add: rassert_def)

lemma rassert_False [simp, res_simps]: "rassert False = Inl Assert_Failed"
  by (simp add: rassert_def)

lemma rassert_eq_Inr [simp]: "rassert b = Inr u \<longleftrightarrow> b"
  by (simp add: rassert_def)

lemma rassert_eq_Inl [simp]: "rassert b = Inl p \<longleftrightarrow> \<not> b \<and> p = Assert_Failed"
  by (auto simp: rassert_def)

definition unwrap :: "'a option \<Rightarrow> 'a res" where
  "unwrap x = (case x of None \<Rightarrow> Inl Unwrap_None | Some v \<Rightarrow> Inr v)"

lemma unwrap_Some [simp, res_simps]: "unwrap (Some v) = Inr v"
  by (simp add: unwrap_def)

lemma unwrap_None [simp, res_simps]: "unwrap None = Inl Unwrap_None"
  by (simp add: unwrap_def)

lemma unwrap_eq_Inr [simp]: "unwrap x = Inr v \<longleftrightarrow> x = Some v"
  by (cases x) auto

lemma unwrap_eq_Inl [simp]: "unwrap x = Inl p \<longleftrightarrow> x = None \<and> p = Unwrap_None"
  by (cases x) auto

definition index :: "'a list \<Rightarrow> nat \<Rightarrow> 'a res" where
  "index xs i = (if i < length xs then Inr (xs ! i) else Inl Index_Out_Of_Bounds)"

lemma index_ok [simp]: "i < length xs \<Longrightarrow> index xs i = Inr (xs ! i)"
  by (simp add: index_def)

lemma index_eq_Inr: "index xs i = Inr x \<longleftrightarrow> i < length xs \<and> x = xs ! i"
  by (auto simp: index_def)

subsection \<open>\<open>Poll\<close>\<close>

datatype 'a poll = Ready 'a | Pending

fun is_ready :: "'a poll \<Rightarrow> bool" where
  "is_ready (Ready _) = True"
| "is_ready Pending = False"

lemma is_ready_iff: "is_ready r \<longleftrightarrow> r \<noteq> Pending"
  by (cases r) auto

lemma poll_unit_neq [simp]: "r \<noteq> Ready () \<longleftrightarrow> r = Pending"
  by (cases r) auto

subsection \<open>Input and output\<close>

text \<open>\<open>io::Result\<close>, with the error reduced to its kind.\<close>

datatype io_error_kind = TimedOut | Interrupted | WouldBlock | OutOfMemory | Other_Kind nat

type_synonym 'a io_result = "io_error_kind + 'a"

subsection \<open>Vectors\<close>

text \<open>
  \<open>Vec::swap_remove\<close>: the element at the index is returned and the last element moves
  into its place; an index out of range panics. \<open>checked_pop\<close> is the idiom
  \<open>len().checked_sub(1)\<close> followed by \<open>swap_remove\<close>, which takes the last element.
\<close>

definition swap_remove :: "'a list \<Rightarrow> nat \<Rightarrow> ('a \<times> 'a list) res" where
  "swap_remove xs i =
     (if i < length xs then Inr (xs ! i, butlast (xs[i := last xs]))
      else Inl Index_Out_Of_Bounds)"

lemma swap_remove_last:
  "xs \<noteq> [] \<Longrightarrow> swap_remove xs (length xs - 1) = Inr (last xs, butlast xs)"
  by (cases xs rule: rev_cases) (auto simp: swap_remove_def)

lemma butlast_swap_mset:
  assumes "i < length xs"
  shows "add_mset (xs ! i) (mset (butlast (xs[i := last xs]))) = mset xs"
proof (cases "i = length xs - 1")
  case True
  with assms show ?thesis
    by (cases xs rule: rev_cases) auto
next
  case False
  with assms obtain ys z where xs: "xs = ys @ [z]" and i: "i < length ys"
    by (cases xs rule: rev_cases) auto
  have "mset (ys[i := z]) = add_mset z (mset ys - {# ys ! i #})"
    using i by (simp add: mset_update)
  moreover have "ys ! i \<in># mset ys" using i by simp
  ultimately show ?thesis
    using xs i by (simp add: list_update_append nth_append)
qed

lemma swap_remove_mset:
  "swap_remove xs i = Inr (x, ys) \<Longrightarrow> mset xs = add_mset x (mset ys)"
  using butlast_swap_mset [of i xs] by (auto simp: swap_remove_def split: if_splits)

lemma swap_remove_index:
  "swap_remove xs i = Inr (x, ys) \<Longrightarrow> i < length xs \<and> x = xs ! i \<and> length ys = length xs - 1"
  by (auto simp: swap_remove_def split: if_splits)

lemma swap_remove_ok: "i < length xs \<Longrightarrow> \<exists>ys. swap_remove xs i = Inr (xs ! i, ys)"
  by (simp add: swap_remove_def)

text \<open>
  The loop \<open>for index in 0..v.len()\<close> that removes the first element equal to \<open>x\<close> with
  \<open>swap_remove\<close> and leaves the loop.
\<close>

fun find_index_from :: "'a \<Rightarrow> nat \<Rightarrow> 'a list \<Rightarrow> nat option" where
  "find_index_from x i [] = None"
| "find_index_from x i (y # ys) = (if y = x then Some i else find_index_from x (Suc i) ys)"

definition swap_remove_first :: "'a \<Rightarrow> 'a list \<Rightarrow> 'a list" where
  "swap_remove_first x xs =
     (case find_index_from x 0 xs of
        None \<Rightarrow> xs
      | Some i \<Rightarrow> butlast (xs[i := last xs]))"

lemma find_index_from_Some:
  "find_index_from x i xs = Some j \<Longrightarrow> i \<le> j \<and> j - i < length xs \<and> xs ! (j - i) = x"
proof (induction xs arbitrary: i)
  case Nil
  then show ?case by simp
next
  case (Cons y ys)
  show ?case
  proof (cases "y = x")
    case True
    with Cons.prems show ?thesis by auto
  next
    case False
    with Cons.prems have "find_index_from x (Suc i) ys = Some j" by simp
    from Cons.IH [OF this] show ?thesis
      by (auto simp: nth_Cons' Suc_diff_le)
  qed
qed

lemma find_index_from_None: "find_index_from x i xs = None \<longleftrightarrow> x \<notin> set xs"
  by (induction xs arbitrary: i) auto

lemma swap_remove_first_mset:
  assumes "x \<in> set xs"
  shows "mset xs = add_mset x (mset (swap_remove_first x xs))"
proof -
  from assms obtain i where i: "find_index_from x 0 xs = Some i"
    by (metis find_index_from_None not_None_eq)
  then have "i < length xs" and "xs ! i = x"
    using find_index_from_Some [of x 0 xs i] by auto
  with i show ?thesis
    using butlast_swap_mset [of i xs] by (simp add: swap_remove_first_def)
qed

lemma swap_remove_first_notin: "x \<notin> set xs \<Longrightarrow> swap_remove_first x xs = xs"
  by (simp add: swap_remove_first_def find_index_from_None [THEN iffD2])

lemma swap_remove_first_distinct:
  assumes "x \<in> set xs" "distinct xs"
  shows "distinct (swap_remove_first x xs)"
    and "set (swap_remove_first x xs) = set xs - {x}"
proof -
  note m = swap_remove_first_mset [OF assms(1)]
  from m have "mset (x # swap_remove_first x xs) = mset xs" by simp
  then have d: "distinct (x # swap_remove_first x xs)"
    using assms(2) by (metis mset_eq_imp_distinct_iff)
  then show "distinct (swap_remove_first x xs)" by simp
  from m have "set xs = insert x (set (swap_remove_first x xs))"
    by (metis set_mset_add_mset_insert set_mset_mset)
  with d show "set (swap_remove_first x xs) = set xs - {x}" by auto
qed

text \<open>A sum over the elements of a list, of which one changes or one is added.\<close>

definition tally :: "('a \<Rightarrow> 'b::comm_monoid_add) \<Rightarrow> 'a list \<Rightarrow> 'b" where
  "tally f xs = sum_list (map f xs)"

lemma tally_simps [simp]:
  "tally f [] = 0" "tally f (x # xs) = f x + tally f xs" "tally f (xs @ ys) = tally f xs + tally f ys"
  by (simp_all add: tally_def)

lemma tally_update:
  "n < length xs \<Longrightarrow> tally f (xs[n := x]) + f (xs ! n) = tally f xs + f x"
proof (induction xs arbitrary: n)
  case (Cons a xs)
  show ?case
  proof (cases n)
    case 0
    then show ?thesis by (simp add: ac_simps)
  next
    case (Suc m)
    then have "tally f (xs[m := x]) + f (xs ! m) = tally f xs + f x" using Cons by simp
    then have "f a + (tally f (xs[m := x]) + f (xs ! m)) = f a + (tally f xs + f x)"
      by (rule arg_cong)
    then show ?thesis using Suc by (simp add: ac_simps)
  qed
qed simp

lemma tally_add: "tally (\<lambda>x. f x + g x) xs = tally f xs + tally g xs"
  by (induction xs) (simp_all add: ac_simps)

lemma tally_member_mset: "x \<in> set xs \<Longrightarrow> f x \<subseteq># tally f xs"
  by (induction xs) (auto intro: subset_mset.order_trans)

subsection \<open>Machines\<close>

text \<open>
  An interleaving machine is a partial step function: given an action and a state it is
  not enabled (\<open>None\<close>), it panics (\<open>Some (Inl p)\<close>) or it moves to a new state. An action
  names the thread that moves, so a list of actions is a schedule.
\<close>

fun run :: "('a \<Rightarrow> 's \<Rightarrow> 's res option) \<Rightarrow> 's \<Rightarrow> 'a list \<Rightarrow> 's res option" where
  "run step s [] = Some (Inr s)"
| "run step s (a # as) =
     (case step a s of
        None \<Rightarrow> None
      | Some (Inl p) \<Rightarrow> Some (Inl p)
      | Some (Inr s') \<Rightarrow> run step s' as)"

inductive reach :: "('a \<Rightarrow> 's \<Rightarrow> 's res option) \<Rightarrow> 's \<Rightarrow> 's \<Rightarrow> bool"
  for step :: "'a \<Rightarrow> 's \<Rightarrow> 's res option" and s0 :: 's where
  reach_start: "reach step s0 s0"
| reach_step: "reach step s0 s \<Longrightarrow> step a s = Some (Inr s') \<Longrightarrow> reach step s0 s'"

lemma reach_run_from:
  "reach step s0 s \<Longrightarrow> run step s as = Some (Inr s') \<Longrightarrow> reach step s0 s'"
proof (induction as arbitrary: s)
  case Nil
  then show ?case by simp
next
  case (Cons a as)
  from Cons.prems(2) obtain t where "step a s = Some (Inr t)" "run step t as = Some (Inr s')"
    by (auto split: option.splits sum.splits)
  with Cons show ?case by (meson reach_step)
qed

lemma run_reach: "run step s0 as = Some (Inr s) \<Longrightarrow> reach step s0 s"
  using reach_run_from reach_start by metis

lemma run_append:
  "run step s (as @ bs) =
     (case run step s as of
        None \<Rightarrow> None
      | Some (Inl p) \<Rightarrow> Some (Inl p)
      | Some (Inr s') \<Rightarrow> run step s' bs)"
  by (induction as arbitrary: s) (auto split: option.splits sum.splits)

text \<open>
  The interface between a machine and its invariant: the invariant holds at the start and
  every step keeps it. A safe machine moreover never panics in a state that satisfies the
  invariant. The client's facts (the invariant in every reachable state, no panic on any
  schedule) are proved once, here.
\<close>

locale invariant_machine =
  fixes step :: "'a \<Rightarrow> 's \<Rightarrow> 's res option"
    and start :: 's
    and inv :: "'s \<Rightarrow> bool"
  assumes inv_start: "inv start"
    and inv_step: "inv s \<Longrightarrow> step a s = Some (Inr s') \<Longrightarrow> inv s'"
begin

lemma reach_inv: "reach step start s \<Longrightarrow> inv s"
  by (induction rule: reach.induct) (auto intro: inv_start inv_step)

lemma run_inv: "run step start as = Some (Inr s) \<Longrightarrow> inv s"
  by (rule reach_inv) (rule run_reach)

end

locale safe_machine = invariant_machine +
  assumes inv_no_panic: "inv s \<Longrightarrow> step a s \<noteq> Some (Inl p)"
begin

lemma reach_no_panic: "reach step start s \<Longrightarrow> step a s \<noteq> Some (Inl p)"
  by (simp add: reach_inv inv_no_panic)

lemma run_no_panic_from: "inv s \<Longrightarrow> run step s as \<noteq> Some (Inl p)"
proof (induction as arbitrary: s)
  case Nil
  then show ?case by simp
next
  case (Cons a as)
  show ?case
  proof (cases "step a s")
    case None
    then show ?thesis by simp
  next
    case (Some r)
    with Cons.prems show ?thesis
      by (cases r) (use Cons.IH inv_step inv_no_panic in auto)
  qed
qed

lemma run_no_panic: "run step start as \<noteq> Some (Inl p)"
  by (rule run_no_panic_from) (rule inv_start)

end

end
