(* ===== verification/Atomic_Waker.thy ===== *)
theory Atomic_Waker
  imports Prelude
begin

text \<open>
  \<open>src/src/sync/internal/waker.rs\<close>: the \<open>AtomicWaker\<close>, a one-slot notification cell with
  one polling thread and any number of waking threads. First the operations run without
  interference (as the components above call them), then the same operations as an
  interleaving machine whose steps are the individual atomic accesses and lock operations.
\<close>

subsection \<open>State\<close>

definition EMPTY :: u8 where "EMPTY = 0"
definition UPDATING :: u8 where "UPDATING = 1"
definition WAITING :: u8 where "WAITING = 2"
definition NOTIFIED :: u8 where "NOTIFIED = 3"

lemmas waker_consts = EMPTY_def UPDATING_def WAITING_def NOTIFIED_def

text \<open>A task waker is named by a value of type \<open>'w\<close>; \<open>will_wake\<close> is equality of names.\<close>

record 'w atomic_waker =
  aw_state :: u8
  aw_notified :: bool
  aw_waker :: "'w option"

definition aw_new :: "'w atomic_waker" where
  "aw_new = \<lparr>aw_state = EMPTY, aw_notified = False, aw_waker = None\<rparr>"

subsection \<open>The pieces of the operations\<close>

text \<open>The test of the loaded state in \<open>poll\<close>: ready, go on, or panic.\<close>

definition aw_check :: "u8 \<Rightarrow> bool res" where
  "aw_check st =
     (if st = EMPTY \<or> st = WAITING then Inr False
      else if st = NOTIFIED then Inr True
      else Inl Unreachable)"

text \<open>\<open>compare_exchange\<close>: the new cell and the value seen on failure.\<close>

definition aw_cas :: "u8 \<Rightarrow> u8 \<Rightarrow> 'w atomic_waker \<Rightarrow> u8 + 'w atomic_waker" where
  "aw_cas old new w =
     (if aw_state w = old then Inr (w\<lparr>aw_state := new\<rparr>) else Inl (aw_state w))"

text \<open>The critical section of \<open>poll\<close>: keep a waker that wakes the same task.\<close>

definition aw_register :: "'w \<Rightarrow> 'w atomic_waker \<Rightarrow> 'w atomic_waker" where
  "aw_register c w =
     (let will_wake = (case aw_waker w of None \<Rightarrow> False | Some old \<Rightarrow> c = old)
      in if \<not> will_wake then w\<lparr>aw_waker := Some c\<rparr> else w)"

text \<open>The \<open>fetch_update\<close> of \<open>wake\<close>: the previous value, if it was updated.\<close>

definition aw_fetch_notify :: "'w atomic_waker \<Rightarrow> (u8 option \<times> 'w atomic_waker) res" where
  "aw_fetch_notify w =
     (if aw_state w = NOTIFIED then Inr (None, w)
      else if aw_state w = EMPTY \<or> aw_state w = UPDATING \<or> aw_state w = WAITING
      then Inr (Some (aw_state w), w\<lparr>aw_state := NOTIFIED\<rparr>)
      else Inl Unreachable)"

subsection \<open>The operations without interference\<close>

definition aw_poll :: "'w option \<Rightarrow> 'w atomic_waker \<Rightarrow> (unit poll \<times> 'w atomic_waker) res" where
  "aw_poll ctx w =
     (if aw_notified w then Inr (Ready (), w)
      else rbind (aw_check (aw_state w)) (\<lambda>ready.
        rbind
          (if ready then Inr (Ready (), w)
           else case ctx of
             None \<Rightarrow> Inr (Pending, w)
           | Some c \<Rightarrow>
               (case aw_cas (aw_state w) UPDATING w of
                  Inl st \<Rightarrow> rbind (rassert (st = NOTIFIED)) (\<lambda>_. Inr (Ready (), w))
                | Inr w1 \<Rightarrow>
                    let w2 = aw_register c w1
                    in case aw_cas UPDATING WAITING w2 of
                         Inl st \<Rightarrow> rbind (rassert (st = NOTIFIED)) (\<lambda>_. Inr (Ready (), w2))
                       | Inr w3 \<Rightarrow> Inr (Pending, w3)))
          (\<lambda>(r, w'). Inr (r, if is_ready r
                             then w'\<lparr>aw_notified := True, aw_state := EMPTY\<rparr> else w'))))"

definition aw_wake :: "'w atomic_waker \<Rightarrow> ('w option \<times> 'w atomic_waker) res" where
  "aw_wake w =
     rbind (aw_fetch_notify w) (\<lambda>(old, w').
       if old = Some WAITING then Inr (aw_waker w', w'\<lparr>aw_waker := None\<rparr>)
       else Inr (None, w'))"

definition aw_reset :: "'w atomic_waker \<Rightarrow> 'w atomic_waker res" where
  "aw_reset w = rbind (rassert (aw_notified w)) (\<lambda>_. Inr (w\<lparr>aw_notified := False\<rparr>))"

text \<open>
  Between operations the cell is never \<open>UPDATING\<close>, and a cell that is \<open>WAITING\<close> holds the
  waker of the task that waits. This is the well-formedness of a quiescent cell.
\<close>

definition aw_ok :: "'w atomic_waker \<Rightarrow> bool" where
  "aw_ok w \<longleftrightarrow> aw_state w \<in> {EMPTY, WAITING, NOTIFIED} \<and>
     (aw_state w = WAITING \<longrightarrow> aw_waker w \<noteq> None \<and> \<not> aw_notified w)"

lemma waker_consts_distinct [simp]:
  "EMPTY \<noteq> UPDATING" "EMPTY \<noteq> WAITING" "EMPTY \<noteq> NOTIFIED"
  "UPDATING \<noteq> EMPTY" "UPDATING \<noteq> WAITING" "UPDATING \<noteq> NOTIFIED"
  "WAITING \<noteq> EMPTY" "WAITING \<noteq> UPDATING" "WAITING \<noteq> NOTIFIED"
  "NOTIFIED \<noteq> EMPTY" "NOTIFIED \<noteq> UPDATING" "NOTIFIED \<noteq> WAITING"
  by (simp_all add: waker_consts)

lemma aw_ok_new [simp]: "aw_ok aw_new"
  by (simp add: aw_ok_def aw_new_def)

lemma aw_register_simps [simp]:
  "aw_waker (aw_register c w) = Some c"
  "aw_state (aw_register c w) = aw_state w"
  "aw_notified (aw_register c w) = aw_notified w"
  by (auto simp: aw_register_def Let_def split: option.splits)

text \<open>What \<open>poll\<close> does on a quiescent cell, branch by branch.\<close>

lemma aw_poll_notified: "aw_notified w \<Longrightarrow> aw_poll ctx w = Inr (Ready (), w)"
  by (simp add: aw_poll_def)

lemma aw_poll_woken:
  "\<not> aw_notified w \<Longrightarrow> aw_state w = NOTIFIED \<Longrightarrow>
   aw_poll ctx w = Inr (Ready (), w\<lparr>aw_notified := True, aw_state := EMPTY\<rparr>)"
  by (simp add: aw_poll_def aw_check_def)

lemma aw_poll_idle:
  "\<not> aw_notified w \<Longrightarrow> aw_state w = EMPTY \<or> aw_state w = WAITING \<Longrightarrow>
   aw_poll ctx w = Inr (Pending,
     (case ctx of None \<Rightarrow> w | Some c \<Rightarrow> (aw_register c w)\<lparr>aw_state := WAITING\<rparr>))"
  by (auto simp: aw_poll_def aw_check_def aw_cas_def aw_register_def Let_def
      split: option.splits)

lemmas aw_poll_cases = aw_poll_notified aw_poll_woken aw_poll_idle

lemma aw_poll_ok:
  assumes "aw_ok w"
  obtains r w' where "aw_poll ctx w = Inr (r, w')" "aw_ok w'"
    "is_ready r \<longleftrightarrow> aw_notified w \<or> aw_state w = NOTIFIED"
    "is_ready r \<Longrightarrow> aw_notified w'"
proof -
  consider "aw_notified w" | "\<not> aw_notified w" "aw_state w = NOTIFIED"
    | "\<not> aw_notified w" "aw_state w = EMPTY \<or> aw_state w = WAITING"
    using assms by (auto simp: aw_ok_def)
  then show thesis
  proof cases
    case 1
    then show thesis using assms that [of "Ready ()" w] by (simp add: aw_poll_notified)
  next
    case 2
    then show thesis
      using that [of "Ready ()" "w\<lparr>aw_notified := True, aw_state := EMPTY\<rparr>"]
      by (simp add: aw_poll_woken aw_ok_def)
  next
    case 3
    then show thesis
      using assms
        that [of Pending "case ctx of None \<Rightarrow> w | Some c \<Rightarrow> (aw_register c w)\<lparr>aw_state := WAITING\<rparr>"]
      by (auto simp: aw_poll_idle aw_ok_def split: option.splits)
  qed
qed

lemma aw_wake_simp:
  assumes "aw_ok w"
  shows "aw_wake w =
     Inr (if aw_state w = WAITING then aw_waker w else None,
          if aw_state w = WAITING then w\<lparr>aw_state := NOTIFIED, aw_waker := None\<rparr>
          else w\<lparr>aw_state := NOTIFIED\<rparr>)"
  using assms by (auto simp: aw_wake_def aw_fetch_notify_def aw_ok_def)

lemma aw_wake_ok:
  assumes "aw_ok w"
  obtains f w' where "aw_wake w = Inr (f, w')" "aw_ok w'" "aw_state w' = NOTIFIED"
    "aw_notified w' = aw_notified w"
  using assms by (auto simp: aw_wake_simp aw_ok_def)

lemma aw_reset_ok:
  "aw_ok w \<Longrightarrow> aw_notified w \<Longrightarrow> aw_reset w = Inr (w\<lparr>aw_notified := False\<rparr>) \<and> aw_ok (w\<lparr>aw_notified := False\<rparr>)"
  by (auto simp: aw_reset_def aw_ok_def)

end
