(* ===== verification/Waker_Threads.thy ===== *)
theory Waker_Threads
  imports Atomic_Waker
begin

text \<open>
  The \<open>AtomicWaker\<close> of \<open>src/src/sync/internal/waker.rs\<close> under interference. One polling
  thread runs \<open>poll\<close> and \<open>reset\<close>, any number of threads run \<open>wake\<close>; every step is one
  atomic access, one lock operation or one call of a task waker. Atomic accesses are
  sequentially consistent here, which is stronger than the orderings the code names.
\<close>

subsection \<open>Threads\<close>

text \<open>
  The program counter of the polling thread, named after the access it makes next. The
  polling thread owns the lock between \<open>P_Lock\<close> and \<open>P_Finish\<close>, that is at \<open>P_Store\<close>.
\<close>

datatype 'w poller_pc =
    P_Idle
  | P_Load "'w option"
  | P_Cas 'w u8
  | P_Lock 'w
  | P_Store 'w
  | P_Finish 'w
  | P_Notify
  | P_Clear

text \<open>
  A thread that runs \<open>wake\<close>, after its \<open>fetch_update\<close>: it acquires the lock, takes the
  waker out of the slot and releases the lock, then calls the waker it took.
\<close>

datatype 'w waker_pc = W_Lock | W_Take | W_Fire 'w | W_Done

datatype lock = Free | Held_By_Poller | Held_By_Waker nat

text \<open>
  Two history fields: \<open>reg\<close> is the waker registered by the last \<open>poll\<close> that returned
  \<open>Pending\<close>, \<open>fired\<close> the wakers called since that \<open>poll\<close> began.
\<close>

record 'w waker_sys =
  cell :: "'w atomic_waker"
  slot_lock :: lock
  poller :: "'w poller_pc"
  wakers :: "'w waker_pc list"
  reg :: "'w option"
  fired :: "'w list"

definition waker_sys_init :: "'w waker_sys" where
  "waker_sys_init = \<lparr>cell = aw_new, slot_lock = Free, poller = P_Idle, wakers = [],
     reg = None, fired = []\<rparr>"

datatype 'w waker_action =
    A_Poll "'w option"
  | A_Advance
  | A_Reset
  | A_Wake
  | A_Waker nat

subsection \<open>Steps\<close>

definition poll_begin :: "'w option \<Rightarrow> 'w waker_sys \<Rightarrow> 'w waker_sys res option" where
  "poll_begin ctx s =
     (if poller s \<noteq> P_Idle then None
      else Some (Inr (s\<lparr>reg := None, fired := [],
             poller := if aw_notified (cell s) then P_Idle else P_Load ctx\<rparr>)))"

fun poll_advance :: "'w poller_pc \<Rightarrow> 'w waker_sys \<Rightarrow> 'w waker_sys res option" where
  "poll_advance P_Idle s = None"
| "poll_advance (P_Load ctx) s =
     Some (rbind (aw_check (aw_state (cell s))) (\<lambda>ready.
       Inr (s\<lparr>poller := if ready then P_Notify
                        else case ctx of None \<Rightarrow> P_Idle
                             | Some c \<Rightarrow> P_Cas c (aw_state (cell s))\<rparr>)))"
| "poll_advance (P_Cas c st) s =
     Some (case aw_cas st UPDATING (cell s) of
       Inl seen \<Rightarrow> rbind (rassert (seen = NOTIFIED)) (\<lambda>_. Inr (s\<lparr>poller := P_Notify\<rparr>))
     | Inr w \<Rightarrow> Inr (s\<lparr>cell := w, poller := P_Lock c\<rparr>))"
| "poll_advance (P_Lock c) s =
     Some (if slot_lock s = Free
           then Inr (s\<lparr>slot_lock := Held_By_Poller, poller := P_Store c\<rparr>)
           else Inl Unwrap_None)"
| "poll_advance (P_Store c) s =
     Some (Inr (s\<lparr>cell := aw_register c (cell s), slot_lock := Free, poller := P_Finish c\<rparr>))"
| "poll_advance (P_Finish c) s =
     Some (case aw_cas UPDATING WAITING (cell s) of
       Inl seen \<Rightarrow> rbind (rassert (seen = NOTIFIED)) (\<lambda>_. Inr (s\<lparr>poller := P_Notify\<rparr>))
     | Inr w \<Rightarrow> Inr (s\<lparr>cell := w, poller := P_Idle, reg := Some c\<rparr>))"
| "poll_advance P_Notify s =
     Some (Inr (s\<lparr>cell := (cell s)\<lparr>aw_notified := True\<rparr>, poller := P_Clear\<rparr>))"
| "poll_advance P_Clear s =
     Some (Inr (s\<lparr>cell := (cell s)\<lparr>aw_state := EMPTY\<rparr>, poller := P_Idle\<rparr>))"

definition reset_step :: "'w waker_sys \<Rightarrow> 'w waker_sys res option" where
  "reset_step s =
     (if poller s \<noteq> P_Idle then None
      else Some (rbind (aw_reset (cell s)) (\<lambda>w. Inr (s\<lparr>cell := w\<rparr>))))"

definition wake_begin :: "'w waker_sys \<Rightarrow> 'w waker_sys res option" where
  "wake_begin s =
     Some (rbind (aw_fetch_notify (cell s)) (\<lambda>(old, w).
       Inr (s\<lparr>cell := w,
              wakers := wakers s @ [if old = Some WAITING then W_Lock else W_Done]\<rparr>)))"

definition waker_advance :: "nat \<Rightarrow> 'w waker_sys \<Rightarrow> 'w waker_sys res option" where
  "waker_advance i s =
     (if i \<ge> length (wakers s) then None
      else case wakers s ! i of
        W_Lock \<Rightarrow>
          if slot_lock s = Free
          then Some (Inr (s\<lparr>slot_lock := Held_By_Waker i, wakers := (wakers s)[i := W_Take]\<rparr>))
          else None
      | W_Take \<Rightarrow>
          Some (Inr (s\<lparr>slot_lock := Free, cell := (cell s)\<lparr>aw_waker := None\<rparr>,
            wakers := (wakers s)[i := (case aw_waker (cell s) of
                                         None \<Rightarrow> W_Done | Some c \<Rightarrow> W_Fire c)]\<rparr>))
      | W_Fire c \<Rightarrow>
          Some (Inr (s\<lparr>wakers := (wakers s)[i := W_Done], fired := fired s @ [c]\<rparr>))
      | W_Done \<Rightarrow> None)"

fun waker_step :: "'w waker_action \<Rightarrow> 'w waker_sys \<Rightarrow> 'w waker_sys res option" where
  "waker_step (A_Poll ctx) s = poll_begin ctx s"
| "waker_step A_Advance s = poll_advance (poller s) s"
| "waker_step A_Reset s = reset_step s"
| "waker_step A_Wake s = wake_begin s"
| "waker_step (A_Waker i) s = waker_advance i s"

text \<open>
  The users that never call \<open>reset\<close>: the join handle of a task and the timer entries. The
  I/O sources (\<open>Pollable\<close>) do call it.
\<close>

definition waker_step_once :: "'w waker_action \<Rightarrow> 'w waker_sys \<Rightarrow> 'w waker_sys res option" where
  "waker_step_once a s = (if a = A_Reset then None else waker_step a s)"

lemmas [mach_defs] = poll_begin_def reset_step_def wake_begin_def waker_advance_def
  waker_step_once_def aw_check_def aw_cas_def aw_fetch_notify_def aw_reset_def

subsection \<open>Without resets no schedule panics\<close>

text \<open>
  A waking thread that wants or holds the lock saw \<open>WAITING\<close>. From then on the state is
  \<open>NOTIFIED\<close> until the polling thread has consumed the notification, and once \<open>notified\<close>
  is set the polling thread never comes to the lock again.
\<close>

definition lock_active :: "'w waker_pc list \<Rightarrow> bool" where
  "lock_active ts \<longleftrightarrow> W_Lock \<in> set ts \<or> W_Take \<in> set ts"

fun poller_inv :: "'w poller_pc \<Rightarrow> 'w atomic_waker \<Rightarrow> bool" where
  "poller_inv P_Idle w \<longleftrightarrow> aw_state w \<noteq> UPDATING"
| "poller_inv (P_Load ctx) w \<longleftrightarrow> aw_state w \<noteq> UPDATING \<and> \<not> aw_notified w"
| "poller_inv (P_Cas c st) w \<longleftrightarrow> st \<in> {EMPTY, WAITING} \<and> aw_state w \<in> {st, NOTIFIED} \<and>
     \<not> aw_notified w"
| "poller_inv (P_Lock c) w \<longleftrightarrow> aw_state w \<in> {UPDATING, NOTIFIED} \<and> \<not> aw_notified w"
| "poller_inv (P_Store c) w \<longleftrightarrow> aw_state w \<in> {UPDATING, NOTIFIED} \<and> \<not> aw_notified w"
| "poller_inv (P_Finish c) w \<longleftrightarrow> aw_state w \<in> {UPDATING, NOTIFIED} \<and> \<not> aw_notified w"
| "poller_inv P_Notify w \<longleftrightarrow> aw_state w = NOTIFIED \<and> \<not> aw_notified w"
| "poller_inv P_Clear w \<longleftrightarrow> aw_state w = NOTIFIED \<and> aw_notified w"

fun updating_pc :: "'w poller_pc \<Rightarrow> bool" where
  "updating_pc (P_Lock c) = True"
| "updating_pc (P_Store c) = True"
| "updating_pc (P_Finish c) = True"
| "updating_pc _ = False"

definition once_inv :: "'w waker_sys \<Rightarrow> bool" where
  "once_inv s \<longleftrightarrow>
     aw_state (cell s) \<in> {EMPTY, UPDATING, WAITING, NOTIFIED} \<and>
     poller_inv (poller s) (cell s) \<and>
     (aw_notified (cell s) \<longrightarrow> aw_state (cell s) \<in> {EMPTY, NOTIFIED}) \<and>
     (lock_active (wakers s) \<longrightarrow>
        \<not> updating_pc (poller s) \<and> (aw_notified (cell s) \<or> aw_state (cell s) = NOTIFIED)) \<and>
     (slot_lock s = Held_By_Poller \<longleftrightarrow> (\<exists>c. poller s = P_Store c)) \<and>
     (\<forall>i. slot_lock s = Held_By_Waker i \<longrightarrow> i < length (wakers s) \<and> wakers s ! i = W_Take)"

lemma lock_active_append [simp]:
  "lock_active (ts @ [t]) \<longleftrightarrow> lock_active ts \<or> t = W_Lock \<or> t = W_Take"
  by (auto simp: lock_active_def)

lemma lock_active_nth: "i < length ts \<Longrightarrow> ts ! i = W_Lock \<or> ts ! i = W_Take \<Longrightarrow> lock_active ts"
  by (metis lock_active_def nth_mem)

lemma lock_active_update:
  "lock_active (ts[i := t]) \<Longrightarrow> lock_active ts \<or> t = W_Lock \<or> t = W_Take"
  using set_update_subset_insert [of ts i t] by (auto simp: lock_active_def)

lemma once_inv_start: "once_inv waker_sys_init"
  by (simp add: once_inv_def waker_sys_init_def aw_new_def lock_active_def)

lemma once_inv_advance:
  assumes "once_inv s" "poll_advance (poller s) s = Some (Inr s')"
  shows "once_inv s'"
proof (cases "poller s")
  case (P_Load ctx)
  show ?thesis
  proof (cases "aw_state (cell s) = NOTIFIED")
    case True
    then have "s' = s\<lparr>poller := P_Notify\<rparr>"
      using assms(2) P_Load by (simp add: aw_check_def)
    then show ?thesis using assms(1) P_Load True by (simp add: once_inv_def)
  next
    case False
    let ?pc = "case ctx of None \<Rightarrow> P_Idle | Some c \<Rightarrow> P_Cas c (aw_state (cell s))"
    have "s' = s\<lparr>poller := ?pc\<rparr>"
      using assms(2) P_Load False by (auto simp: aw_check_def split: if_splits)
    then show ?thesis
      using assms(1) P_Load False by (cases ctx) (auto simp: once_inv_def)
  qed
next
  case (P_Cas c st)
  show ?thesis
  proof (cases "aw_state (cell s) = st")
    case True
    then have "s' = s\<lparr>cell := (cell s)\<lparr>aw_state := UPDATING\<rparr>, poller := P_Lock c\<rparr>"
      using assms(2) P_Cas by (simp add: aw_cas_def)
    then show ?thesis using assms(1) P_Cas True by (auto simp: once_inv_def)
  next
    case False
    then have "s' = s\<lparr>poller := P_Notify\<rparr>"
      using assms(2) P_Cas by (auto simp: aw_cas_def)
    then show ?thesis using assms(1) P_Cas False by (auto simp: once_inv_def)
  qed
next
  case (P_Lock c)
  then have "s' = s\<lparr>slot_lock := Held_By_Poller, poller := P_Store c\<rparr>"
    using assms(2) by (auto split: if_splits)
  with assms(1) P_Lock show ?thesis by (auto simp: once_inv_def)
next
  case (P_Store c)
  then have "s' = s\<lparr>cell := aw_register c (cell s), slot_lock := Free, poller := P_Finish c\<rparr>"
    using assms(2) by simp
  with assms(1) P_Store show ?thesis by (auto simp: once_inv_def)
next
  case (P_Finish c)
  show ?thesis
  proof (cases "aw_state (cell s) = UPDATING")
    case True
    then have "s' = s\<lparr>cell := (cell s)\<lparr>aw_state := WAITING\<rparr>, poller := P_Idle, reg := Some c\<rparr>"
      using assms(2) P_Finish by (simp add: aw_cas_def)
    then show ?thesis using assms(1) P_Finish True by (simp add: once_inv_def)
  next
    case False
    then have "s' = s\<lparr>poller := P_Notify\<rparr>"
      using assms(2) P_Finish by (auto simp: aw_cas_def)
    then show ?thesis using assms(1) P_Finish False by (auto simp: once_inv_def)
  qed
next
  case P_Notify
  then have "s' = s\<lparr>cell := (cell s)\<lparr>aw_notified := True\<rparr>, poller := P_Clear\<rparr>"
    using assms(2) by simp
  with assms(1) P_Notify show ?thesis by (simp add: once_inv_def)
next
  case P_Clear
  then have "s' = s\<lparr>cell := (cell s)\<lparr>aw_state := EMPTY\<rparr>, poller := P_Idle\<rparr>"
    using assms(2) by simp
  with assms(1) P_Clear show ?thesis by (simp add: once_inv_def)
qed (use assms in simp)

lemma once_no_panic_advance:
  assumes "once_inv s"
  shows "poll_advance (poller s) s \<noteq> Some (Inl p)"
proof (cases "poller s")
  case (P_Lock c)
  have "slot_lock s = Free"
  proof (cases "slot_lock s")
    case (Held_By_Waker i)
    with assms have "lock_active (wakers s)"
      by (auto simp: once_inv_def intro: lock_active_nth)
    with assms P_Lock show ?thesis by (simp add: once_inv_def)
  qed (use assms P_Lock in \<open>auto simp: once_inv_def\<close>)
  with P_Lock show ?thesis by simp
next
  case (P_Load ctx)
  with assms show ?thesis by (auto simp: once_inv_def aw_check_def)
next
  case (P_Cas c st)
  with assms show ?thesis
    by (cases "aw_state (cell s) = st") (auto simp: once_inv_def aw_cas_def)
next
  case (P_Finish c)
  with assms show ?thesis
    by (cases "aw_state (cell s) = UPDATING") (auto simp: once_inv_def aw_cas_def)
qed simp_all

lemma poller_inv_notify:
  assumes "poller_inv pc w" "aw_state w \<noteq> NOTIFIED"
  shows "poller_inv pc (w\<lparr>aw_state := NOTIFIED\<rparr>)"
  using assms by (cases pc) auto

lemma poller_inv_waiting: "poller_inv pc w \<Longrightarrow> aw_state w = WAITING \<Longrightarrow> \<not> updating_pc pc"
  by (cases pc) auto

lemma once_inv_wake:
  assumes "once_inv s" "wake_begin s = Some (Inr s')"
  shows "once_inv s'"
proof (cases "aw_state (cell s) = NOTIFIED")
  case True
  with assms show ?thesis
    by (auto simp: once_inv_def wake_begin_def aw_fetch_notify_def nth_append)
next
  case False
  let ?t = "if aw_state (cell s) = WAITING then W_Lock else W_Done"
  have "poller_inv (poller s) ((cell s)\<lparr>aw_state := NOTIFIED\<rparr>)"
    using assms(1) False by (simp add: once_inv_def poller_inv_notify)
  moreover have "aw_state (cell s) = WAITING \<Longrightarrow> \<not> updating_pc (poller s)"
    using assms(1) poller_inv_waiting by (auto simp: once_inv_def)
  moreover have "s' = s\<lparr>cell := (cell s)\<lparr>aw_state := NOTIFIED\<rparr>, wakers := wakers s @ [?t]\<rparr>"
    using assms False by (auto simp: once_inv_def wake_begin_def aw_fetch_notify_def)
  ultimately show ?thesis
    using assms(1) by (auto simp: once_inv_def nth_append)
qed

lemma once_inv_waker:
  assumes "once_inv s" "waker_advance i s = Some (Inr s')"
  shows "once_inv s'"
proof -
  from assms(2) have i: "i < length (wakers s)" by (auto simp: waker_advance_def split: if_splits)
  have slot: "poller_inv pc (w\<lparr>aw_waker := x\<rparr>) = poller_inv pc w" for pc x and w :: "'a atomic_waker"
    by (cases pc) auto
  show ?thesis
  proof (cases "wakers s ! i")
    case W_Lock
    with i have act: "lock_active (wakers s)" by (blast intro: lock_active_nth)
    have "s' = s\<lparr>slot_lock := Held_By_Waker i, wakers := (wakers s)[i := W_Take]\<rparr>"
      and "slot_lock s = Free"
      using assms(2) W_Lock i by (auto simp: waker_advance_def split: if_splits)
    then show ?thesis
      using assms(1) act i by (auto simp: once_inv_def)
  next
    case W_Take
    with i have act: "lock_active (wakers s)" by (blast intro: lock_active_nth)
    let ?t = "case aw_waker (cell s) of None \<Rightarrow> W_Done | Some c \<Rightarrow> W_Fire c"
    have "slot_lock s \<noteq> Held_By_Poller"
      using assms(1) act by (auto simp: once_inv_def)
    moreover have "s' = s\<lparr>slot_lock := Free, cell := (cell s)\<lparr>aw_waker := None\<rparr>,
                          wakers := (wakers s)[i := ?t]\<rparr>"
      using assms(2) W_Take i by (simp add: waker_advance_def)
    ultimately show ?thesis
      using assms(1) act by (auto simp: once_inv_def slot)
  next
    case (W_Fire c)
    with assms(2) i have eq: "s' = s\<lparr>wakers := (wakers s)[i := W_Done], fired := fired s @ [c]\<rparr>"
      by (simp add: waker_advance_def)
    have "lock_active ((wakers s)[i := W_Done]) \<Longrightarrow> lock_active (wakers s)"
      by (auto dest: lock_active_update)
    moreover have "wakers s ! j = W_Take \<Longrightarrow> (wakers s)[i := W_Done] ! j = W_Take" for j
      using W_Fire i by (cases "i = j") auto
    ultimately show ?thesis
      using assms(1) unfolding eq by (simp add: once_inv_def)
  qed (use assms i in \<open>simp add: waker_advance_def\<close>)
qed

lemma once_inv_begin:
  assumes "once_inv s" "poll_begin ctx s = Some (Inr s')"
  shows "once_inv s'"
proof -
  have idle: "poller s = P_Idle"
    and eq: "s' = s\<lparr>reg := None, fired := [],
               poller := if aw_notified (cell s) then P_Idle else P_Load ctx\<rparr>"
    using assms(2) by (auto simp: poll_begin_def split: if_splits)
  show ?thesis
    using assms(1) idle unfolding eq
    by (cases "aw_notified (cell s)") (auto simp: once_inv_def)
qed

interpretation once: safe_machine waker_step_once waker_sys_init once_inv
proof
  show "once_inv waker_sys_init" by (rule once_inv_start)
next
  fix s a and s' :: "'a waker_sys"
  assume "once_inv s" "waker_step_once a s = Some (Inr s')"
  then show "once_inv s'"
    by (cases a)
       (auto simp: waker_step_once_def
         intro: once_inv_advance once_inv_wake once_inv_waker once_inv_begin)
next
  fix s :: "'a waker_sys" and a p
  assume inv: "once_inv s"
  then have "wake_begin s \<noteq> Some (Inl p)"
    by (auto simp: once_inv_def wake_begin_def aw_fetch_notify_def)
  moreover have "waker_advance i s \<noteq> Some (Inl p)" for i
    by (auto simp: waker_advance_def split: waker_pc.splits)
  moreover have "poll_begin ctx s \<noteq> Some (Inl p)" for ctx
    by (auto simp: poll_begin_def)
  ultimately show "waker_step_once a s \<noteq> Some (Inl p)"
    using once_no_panic_advance [OF inv] by (cases a) (auto simp: waker_step_once_def)
qed

subsection \<open>No wakeup is lost\<close>

text \<open>
  With resets allowed: while the polling thread is idle after a \<open>poll\<close> that returned
  \<open>Pending\<close> and registered \<open>c\<close>, either the cell still waits and holds \<open>c\<close>, or \<open>c\<close> has
  been called since that \<open>poll\<close> began, or some waking thread is about to call it.
\<close>

definition will_fire :: "'w \<Rightarrow> 'w waker_sys \<Rightarrow> bool" where
  "will_fire c s \<longleftrightarrow>
     c \<in> set (fired s) \<or> W_Fire c \<in> set (wakers s) \<or>
     (aw_waker (cell s) = Some c \<and> lock_active (wakers s))"

definition wakeup_inv :: "'w waker_sys \<Rightarrow> bool" where
  "wakeup_inv s \<longleftrightarrow>
     (reg s \<noteq> None \<longrightarrow> poller s = P_Idle) \<and>
     (\<forall>c. poller s = P_Finish c \<longrightarrow> will_fire c s \<or> aw_waker (cell s) = Some c) \<and>
     (\<forall>c. reg s = Some c \<longrightarrow> will_fire c s \<or>
        (aw_waker (cell s) = Some c \<and> aw_state (cell s) = WAITING))"

lemma will_fire_cong:
  "fired s' = fired s \<Longrightarrow> wakers s' = wakers s \<Longrightarrow> aw_waker (cell s') = aw_waker (cell s) \<Longrightarrow>
   will_fire c s' = will_fire c s"
  by (simp add: will_fire_def)

lemma wakeup_inv_start: "wakeup_inv waker_sys_init"
  by (simp add: wakeup_inv_def waker_sys_init_def)

lemma wakeup_inv_begin:
  "poll_begin ctx s = Some (Inr s') \<Longrightarrow> wakeup_inv s'"
  by (auto simp: poll_begin_def wakeup_inv_def split: if_splits)

lemma wakeup_inv_reset:
  assumes "wakeup_inv s" "reset_step s = Some (Inr s')"
  shows "wakeup_inv s'"
proof -
  have eq: "s' = s\<lparr>cell := (cell s)\<lparr>aw_notified := False\<rparr>\<rparr>"
    using assms(2) by (auto simp: reset_step_def aw_reset_def split: if_splits)
  show ?thesis
    using assms(1) unfolding eq by (simp add: wakeup_inv_def will_fire_def)
qed

lemma wakeup_inv_moved:
  assumes "wakeup_inv s" "reg s = None" "poller s' \<noteq> P_Idle \<or> reg s' = None"
    "reg s' = None" "\<And>c. poller s' \<noteq> P_Finish c"
  shows "wakeup_inv s'"
  using assms by (auto simp: wakeup_inv_def)

lemma wakeup_inv_advance:
  assumes "wakeup_inv s" "poll_advance (poller s) s = Some (Inr s')"
  shows "wakeup_inv s'"
proof -
  have reg: "reg s = None"
    using assms by (cases "poller s") (auto simp: wakeup_inv_def)
  show ?thesis
  proof (cases "poller s")
    case (P_Store c)
    then have "s' = s\<lparr>cell := aw_register c (cell s), slot_lock := Free, poller := P_Finish c\<rparr>"
      using assms(2) by simp
    then show ?thesis using reg by (simp add: wakeup_inv_def)
  next
    case (P_Finish c)
    show ?thesis
    proof (cases "aw_state (cell s) = UPDATING")
      case True
      then have "s' = s\<lparr>cell := (cell s)\<lparr>aw_state := WAITING\<rparr>, poller := P_Idle, reg := Some c\<rparr>"
        using assms(2) P_Finish by (simp add: aw_cas_def)
      then show ?thesis
        using assms(1) P_Finish by (simp add: wakeup_inv_def will_fire_def)
    next
      case False
      then have "s' = s\<lparr>poller := P_Notify\<rparr>"
        using assms(2) P_Finish by (auto simp: aw_cas_def)
      then show ?thesis using reg by (simp add: wakeup_inv_def)
    qed
  qed (use assms reg in \<open>auto simp: wakeup_inv_def aw_cas_def
         split: if_splits option.splits sum.splits\<close>)
qed

lemma wakeup_inv_wake:
  assumes "wakeup_inv s" "wake_begin s = Some (Inr s')"
  shows "wakeup_inv s'"
proof (cases "aw_state (cell s) = NOTIFIED")
  case True
  then have "s' = s\<lparr>wakers := wakers s @ [W_Done]\<rparr>"
    using assms(2) by (simp add: wake_begin_def aw_fetch_notify_def)
  then show ?thesis using assms(1) by (auto simp: wakeup_inv_def will_fire_def)
next
  case False
  let ?t = "if aw_state (cell s) = WAITING then W_Lock else W_Done"
  have eq: "s' = s\<lparr>cell := (cell s)\<lparr>aw_state := NOTIFIED\<rparr>, wakers := wakers s @ [?t]\<rparr>"
    using assms(2) False by (auto simp: wake_begin_def aw_fetch_notify_def split: if_splits)
  have mono: "will_fire c s \<Longrightarrow> will_fire c s'" for c
    unfolding eq by (auto simp: will_fire_def)
  have hit: "aw_waker (cell s) = Some c \<Longrightarrow> aw_state (cell s) = WAITING \<Longrightarrow> will_fire c s'" for c
    unfolding eq by (simp add: will_fire_def)
  have "reg s' = reg s" "poller s' = poller s" "aw_waker (cell s') = aw_waker (cell s)"
    unfolding eq by simp_all
  then show ?thesis
    using assms(1) mono hit unfolding wakeup_inv_def by metis
qed

lemma wakeup_inv_waker:
  assumes "wakeup_inv s" "waker_advance i s = Some (Inr s')"
  shows "wakeup_inv s'"
proof -
  from assms(2) have i: "i < length (wakers s)"
    by (auto simp: waker_advance_def split: if_splits)
  have frame: "reg s' = reg s \<and> poller s' = poller s \<and> aw_state (cell s') = aw_state (cell s)"
    using assms(2) by (auto simp: waker_advance_def split: if_splits waker_pc.splits)
  have step: "will_fire c s' \<or> (aw_waker (cell s') = Some c \<and> \<not> will_fire c s)"
    if "will_fire c s \<or> aw_waker (cell s) = Some c" for c
  proof (cases "wakers s ! i")
    case W_Lock
    then have "s' = s\<lparr>slot_lock := Held_By_Waker i, wakers := (wakers s)[i := W_Take]\<rparr>"
      using assms(2) i by (auto simp: waker_advance_def split: if_splits)
    moreover have "W_Fire c \<in> set ((wakers s)[i := W_Take])" if "W_Fire c \<in> set (wakers s)"
      using that W_Lock i by (metis in_set_conv_nth length_list_update nth_list_update_neq waker_pc.distinct(3))
    moreover have "lock_active ((wakers s)[i := W_Take])"
      using i by (auto simp: lock_active_def set_update_memI)
    ultimately show ?thesis using that by (auto simp: will_fire_def)
  next
    case W_Take
    let ?t = "case aw_waker (cell s) of None \<Rightarrow> W_Done | Some c \<Rightarrow> W_Fire c"
    have "s' = s\<lparr>slot_lock := Free, cell := (cell s)\<lparr>aw_waker := None\<rparr>,
                   wakers := (wakers s)[i := ?t]\<rparr>"
      using assms(2) W_Take i by (simp add: waker_advance_def)
    moreover have "W_Fire c \<in> set ((wakers s)[i := ?t])" if "W_Fire c \<in> set (wakers s)"
      using that W_Take i by (metis in_set_conv_nth length_list_update nth_list_update_neq waker_pc.distinct(7))
    moreover have "W_Fire c \<in> set ((wakers s)[i := ?t])" if "aw_waker (cell s) = Some c"
      using that i by (simp add: set_update_memI)
    ultimately show ?thesis using that by (auto simp: will_fire_def)
  next
    case (W_Fire d)
    then have "s' = s\<lparr>wakers := (wakers s)[i := W_Done], fired := fired s @ [d]\<rparr>"
      using assms(2) i by (simp add: waker_advance_def)
    moreover have "W_Fire c \<in> set ((wakers s)[i := W_Done])"
      if "W_Fire c \<in> set (wakers s)" "c \<noteq> d"
      using that W_Fire i by (metis in_set_conv_nth length_list_update nth_list_update_neq waker_pc.inject)
    moreover have "lock_active ((wakers s)[i := W_Done])" if "lock_active (wakers s)"
      using that W_Fire i unfolding lock_active_def
      by (metis in_set_conv_nth length_list_update nth_list_update_neq waker_pc.distinct(4,8))
    ultimately show ?thesis using that by (cases "c = d") (auto simp: will_fire_def)
  next
    case W_Done
    with assms(2) i show ?thesis by (simp add: waker_advance_def)
  qed
  have slot: "aw_waker (cell s') = Some c \<Longrightarrow> aw_waker (cell s) = Some c" for c
    using assms(2) by (auto simp: waker_advance_def split: if_splits waker_pc.splits)
  show ?thesis
    using assms(1) step frame unfolding wakeup_inv_def by metis
qed

lemma reach_wakeup_inv: "reach waker_step waker_sys_init s \<Longrightarrow> wakeup_inv s"
proof (induction rule: reach.induct)
  case reach_start
  show ?case by (rule wakeup_inv_start)
next
  case (reach_step s a s')
  then show ?case
    by (cases a) (auto intro: wakeup_inv_begin wakeup_inv_advance wakeup_inv_reset
        wakeup_inv_wake wakeup_inv_waker)
qed

subsection \<open>Properties\<close>

text \<open>
  For the users that never reset a waker (join handles, timer entries) no interleaving
  of one polling thread with any number of waking threads panics: the \<open>try_lock().unwrap()\<close>,
  the two assertions on a failed \<open>compare_exchange\<close> and the three \<open>unreachable!\<close> arms are
  never hit.
\<close>

theorem waker_no_panic_without_reset:
  "run waker_step_once waker_sys_init as \<noteq> Some (Inl p)"
  by (rule once.run_no_panic)

text \<open>
  C6: no wakeup is lost, resets and all interleavings included. In every reachable state in
  which the last \<open>poll\<close> returned \<open>Pending\<close> after registering the waker \<open>c\<close>, either no
  \<open>wake\<close> has been accepted yet (the cell is \<open>WAITING\<close> and still holds \<open>c\<close>), or \<open>c\<close> has
  been called since that \<open>poll\<close> began, or a waking thread holds \<open>c\<close> and will call it, or \<open>c\<close>
  is in the slot and a waking thread is on its way to take it.
\<close>

theorem waker_no_lost_wakeup:
  assumes "reach waker_step waker_sys_init s" and "reg s = Some c"
  shows "aw_state (cell s) = WAITING \<and> aw_waker (cell s) = Some c \<or>
         c \<in> set (fired s) \<or> W_Fire c \<in> set (wakers s) \<or>
         aw_waker (cell s) = Some c \<and> (W_Lock \<in> set (wakers s) \<or> W_Take \<in> set (wakers s))"
  using reach_wakeup_inv [OF assms(1)] assms(2)
  by (auto simp: wakeup_inv_def will_fire_def lock_active_def)

definition lost_wakeup_schedule :: "nat waker_action list" where
  "lost_wakeup_schedule =
     [A_Poll (Some 7), A_Advance, A_Advance, A_Advance, A_Advance, A_Advance, A_Wake]"

definition lost_wakeup_state :: "nat waker_sys" where
  "lost_wakeup_state =
     \<lparr>cell = \<lparr>aw_state = NOTIFIED, aw_notified = False, aw_waker = Some 7\<rparr>,
      slot_lock = Free, poller = P_Idle, wakers = [W_Lock], reg = Some 7, fired = []\<rparr>"

lemma lost_wakeup_run:
  "run waker_step waker_sys_init lost_wakeup_schedule = Some (Inr lost_wakeup_state)"
  by (simp add: lost_wakeup_schedule_def lost_wakeup_state_def waker_sys_init_def aw_new_def
      poll_begin_def wake_begin_def aw_fetch_notify_def aw_check_def aw_cas_def aw_register_def)

theorem waker_no_lost_wakeup_witness:
  "reg lost_wakeup_state = Some 7 \<and>
   (aw_state (cell lost_wakeup_state) = WAITING \<and> aw_waker (cell lost_wakeup_state) = Some 7 \<or>
    7 \<in> set (fired lost_wakeup_state) \<or> W_Fire 7 \<in> set (wakers lost_wakeup_state) \<or>
    aw_waker (cell lost_wakeup_state) = Some 7 \<and>
      (W_Lock \<in> set (wakers lost_wakeup_state) \<or> W_Take \<in> set (wakers lost_wakeup_state)))"
proof -
  have r: "reg lost_wakeup_state = Some 7" by (simp add: lost_wakeup_state_def)
  show ?thesis
    using r waker_no_lost_wakeup [OF run_reach [OF lost_wakeup_run] r] by blast
qed

text \<open>
  With resets, as \<open>Pollable::poll_io\<close> uses the waker, a schedule does panic. A waking thread
  that has seen \<open>WAITING\<close> acquires the lock only after the polling thread has consumed the
  notification, reset the waker and started the next \<open>poll\<close>; the \<open>try_lock().unwrap()\<close> of
  that \<open>poll\<close> then finds the lock held.
\<close>

theorem waker_reset_race_panics:
  "run waker_step waker_sys_init
     [A_Poll (Some c), A_Advance, A_Advance, A_Advance, A_Advance, A_Advance,
      A_Wake, A_Poll (Some c), A_Advance, A_Advance, A_Advance, A_Reset,
      A_Poll (Some c), A_Advance, A_Advance, A_Waker 0, A_Advance] = Some (Inl Unwrap_None)"
  by (simp add: waker_sys_init_def aw_new_def mach_defs aw_register_def)

text \<open>The machine run without interference computes the operation \<open>aw_poll\<close>.\<close>

definition poll_schedule :: "'w option \<Rightarrow> 'w atomic_waker \<Rightarrow> 'w waker_action list" where
  "poll_schedule ctx w =
     A_Poll ctx # replicate
       (if aw_notified w then 0
        else if aw_state w = NOTIFIED then 3
        else if ctx = None then 1 else 5) A_Advance"

text \<open>
  The operation \<open>aw_poll\<close> that the other components use is what the polling thread's
  atomic steps compute when no other thread interferes: the same new cell, the lock free
  again, the thread idle, and \<open>Pending\<close> exactly when the waker was left registered.
\<close>

theorem aw_poll_is_uninterrupted_run:
  assumes "aw_ok (cell s)" and "poller s = P_Idle" and "slot_lock s = Free"
  shows "\<exists>r w'. aw_poll ctx (cell s) = Inr (r, w') \<and>
           run waker_step s (poll_schedule ctx (cell s)) =
             Some (Inr (s\<lparr>cell := w', fired := [], reg := if is_ready r then None else ctx\<rparr>))"
proof -
  consider "aw_notified (cell s)"
    | "\<not> aw_notified (cell s)" "aw_state (cell s) = NOTIFIED"
    | "\<not> aw_notified (cell s)" "aw_state (cell s) = EMPTY \<or> aw_state (cell s) = WAITING"
    using assms(1) by (auto simp: aw_ok_def)
  then show ?thesis
  proof cases
    case 1
    with assms show ?thesis
      by (simp add: aw_poll_notified poll_schedule_def poll_begin_def)
  next
    case 2
    with assms show ?thesis
      by (simp add: aw_poll_woken poll_schedule_def poll_begin_def numeral_eq_Suc aw_check_def)
  next
    case 3
    have idle: "aw_state (cell s) \<noteq> NOTIFIED" "aw_state (cell s) \<noteq> UPDATING"
      using 3 by auto
    show ?thesis
    proof (cases ctx)
      case None
      with assms 3 idle show ?thesis
        by (auto simp: aw_poll_idle poll_schedule_def poll_begin_def aw_check_def)
    next
      case (Some c)
      with assms 3 idle show ?thesis
        by (auto simp: aw_poll_idle poll_schedule_def poll_begin_def aw_check_def aw_cas_def
            numeral_eq_Suc aw_register_def Let_def split: option.splits)
    qed
  qed
qed

theorem aw_poll_is_uninterrupted_run_witness:
  "\<exists>r w'. aw_poll (Some (3::nat)) (cell waker_sys_init) = Inr (r, w') \<and>
     run waker_step waker_sys_init (poll_schedule (Some 3) (cell waker_sys_init)) =
       Some (Inr (waker_sys_init\<lparr>cell := w', fired := [],
                    reg := if is_ready r then None else Some 3\<rparr>))"
  by (rule aw_poll_is_uninterrupted_run) (simp_all add: waker_sys_init_def)

end
