(* ===== verification/Task_State.thy ===== *)
theory Task_State
  imports Prelude
begin

text \<open>
  \<open>TaskState\<close> of \<open>src/src/runtime/internal/task.rs\<close>: the four-valued scheduling state that a
  task and a parker share with the wakers that refer to them.
\<close>

definition TASK_IDLE :: u8 where "TASK_IDLE = 0"
definition TASK_SCHEDULED :: u8 where "TASK_SCHEDULED = 1"
definition TASK_RUNNING :: u8 where "TASK_RUNNING = 2"
definition TASK_NOTIFIED :: u8 where "TASK_NOTIFIED = 3"

lemmas task_consts = TASK_IDLE_def TASK_SCHEDULED_def TASK_RUNNING_def TASK_NOTIFIED_def

lemma task_consts_distinct [simp]:
  "TASK_IDLE \<noteq> TASK_SCHEDULED" "TASK_IDLE \<noteq> TASK_RUNNING" "TASK_IDLE \<noteq> TASK_NOTIFIED"
  "TASK_SCHEDULED \<noteq> TASK_IDLE" "TASK_SCHEDULED \<noteq> TASK_RUNNING" "TASK_SCHEDULED \<noteq> TASK_NOTIFIED"
  "TASK_RUNNING \<noteq> TASK_IDLE" "TASK_RUNNING \<noteq> TASK_SCHEDULED" "TASK_RUNNING \<noteq> TASK_NOTIFIED"
  "TASK_NOTIFIED \<noteq> TASK_IDLE" "TASK_NOTIFIED \<noteq> TASK_SCHEDULED" "TASK_NOTIFIED \<noteq> TASK_RUNNING"
  by (simp_all add: task_consts)

text \<open>\<open>TaskState::new\<close> and the atomic \<open>fetch_update\<close> of \<open>transition_to_scheduled\<close>.\<close>

definition task_state_new :: u8 where "task_state_new = TASK_IDLE"

definition to_scheduled :: "u8 \<Rightarrow> bool \<times> u8" where
  "to_scheduled st =
     (if st = TASK_IDLE then (True, TASK_SCHEDULED)
      else if st = TASK_RUNNING then (False, TASK_NOTIFIED)
      else (False, st))"

text \<open>
  \<open>transition_to_running\<close> is a load, tested here, and a later store of \<open>TASK_RUNNING\<close>;
  \<open>to_running\<close> is both without interference.
\<close>

definition running_check :: "u8 \<Rightarrow> bool res" where
  "running_check st =
     (if st = TASK_SCHEDULED then Inr True
      else if st = TASK_IDLE then Inr False
      else Inl Unreachable)"

definition to_running :: "u8 \<Rightarrow> (bool \<times> u8) res" where
  "to_running st = rbind (running_check st) (\<lambda>b. Inr (b, if b then TASK_RUNNING else st))"

text \<open>The \<open>compare_exchange\<close> of \<open>transition_to_idle\<close>.\<close>

definition to_idle :: "u8 \<Rightarrow> (bool \<times> u8) res" where
  "to_idle st =
     (if st = TASK_RUNNING then Inr (True, TASK_IDLE)
      else if st = TASK_NOTIFIED then Inr (False, st)
      else Inl Unreachable)"

text \<open>\<open>transition_to_scheduled_from_notified\<close>: a load, asserted, and a later store.\<close>

definition notified_check :: "u8 \<Rightarrow> unit res" where
  "notified_check st = rassert (st = TASK_NOTIFIED)"

definition to_scheduled_from_notified :: "u8 \<Rightarrow> u8 res" where
  "to_scheduled_from_notified st = rbind (notified_check st) (\<lambda>_. Inr TASK_SCHEDULED)"

lemmas task_state_defs = to_scheduled_def running_check_def to_running_def to_idle_def
  notified_check_def to_scheduled_from_notified_def

lemma to_scheduled_simps [simp]:
  "to_scheduled TASK_IDLE = (True, TASK_SCHEDULED)"
  "to_scheduled TASK_RUNNING = (False, TASK_NOTIFIED)"
  "to_scheduled TASK_SCHEDULED = (False, TASK_SCHEDULED)"
  "to_scheduled TASK_NOTIFIED = (False, TASK_NOTIFIED)"
  by (simp_all add: to_scheduled_def)

lemma running_check_simps [simp]:
  "running_check TASK_SCHEDULED = Inr True"
  "running_check TASK_IDLE = Inr False"
  by (simp_all add: running_check_def)

lemma to_idle_simps [simp]:
  "to_idle TASK_RUNNING = Inr (True, TASK_IDLE)"
  "to_idle TASK_NOTIFIED = Inr (False, TASK_NOTIFIED)"
  by (simp_all add: to_idle_def)

lemma notified_check_simp [simp]: "notified_check TASK_NOTIFIED = Inr ()"
  by (simp add: notified_check_def)

end
