(* ===== verification/Task.thy ===== *)
theory Task
  imports Task_State Atomic_Waker
begin

text \<open>
  \<open>src/src/runtime/internal/task.rs\<close>: one task, from \<open>Task::spawn\<close> to its join, under every
  interleaving of the threads that wake it, the workers that run it and the holder of its
  join handle. The future is the environment: each poll of it ends as the schedule says.
\<close>

subsection \<open>State\<close>

text \<open>A future of state \<open>'f\<close>, its output \<open>'o\<close>, the payload \<open>'e\<close> of a panic in it.\<close>

datatype ('f, 'o, 'e) task_data =
    TD_Pending 'f
  | TD_Polling
  | TD_Ready "'e + 'o"
  | TD_Joined

datatype ('f, 'o, 'e) future_outcome =
    Future_Pending 'f
  | Future_Ready 'o
  | Future_Panic 'e

text \<open>
  The program counter of a worker inside \<open>run\<close>, named after what it does next. From
  \<open>R_Take\<close> to \<open>R_Put\<close> or \<open>R_Finish\<close> it holds the data lock.
\<close>

datatype ('f, 'o, 'e) runner_pc =
    R_Load
  | R_Store
  | R_Lock
  | R_Take
  | R_Poll 'f
  | R_Put 'f
  | R_Idle
  | R_Check
  | R_Resched
  | R_Push
  | R_Finish "'e + 'o"
  | R_Wake
  | R_Complete
  | R_Done

text \<open>The join handle: free to be polled, past a ready waker, holding the lock, joined.\<close>

datatype joiner_pc = J_Idle | J_Lock | J_Take | J_Done

datatype data_lock = Unlocked | By_Runner | By_Joiner

text \<open>
  \<open>tk_pushing\<close> counts the threads that won \<open>transition_to_scheduled\<close> and have yet to hand the
  task to a run queue, \<open>tk_queued\<close> its references in run queues, \<open>tk_runners\<close> the calls of \<open>run\<close>.
  \<open>tk_begun\<close> and \<open>tk_completed\<close> count the calls of \<open>task_begin\<close> and \<open>task_complete\<close>, \<open>tk_fired\<close> lists
  the wakers of join handles that were called and \<open>tk_output\<close> is the result the task stored.
\<close>

record ('f, 'o, 'e, 'w) task_sys =
  tk_state :: u8
  tk_waker :: "'w atomic_waker"
  tk_data :: "('f, 'o, 'e) task_data"
  tk_lock :: data_lock
  tk_pushing :: nat
  tk_queued :: nat
  tk_runners :: "('f, 'o, 'e) runner_pc list"
  tk_joiner :: joiner_pc
  tk_joined :: "('e + 'o) option"
  tk_begun :: nat
  tk_completed :: nat
  tk_fired :: "'w list"
  tk_output :: "('e + 'o) option"

text \<open>\<open>Task::spawn\<close>: the task is created idle, counted, made scheduled and handed over.\<close>

definition task_new :: "'f \<Rightarrow> ('f, 'o, 'e, 'w) task_sys" where
  "task_new f = \<lparr>tk_state = task_state_new, tk_waker = aw_new, tk_data = TD_Pending f,
     tk_lock = Unlocked, tk_pushing = 0, tk_queued = 0, tk_runners = [], tk_joiner = J_Idle,
     tk_joined = None, tk_begun = 0, tk_completed = 0, tk_fired = [],
     tk_output = None\<rparr>"

definition task_spawn :: "'f \<Rightarrow> ('f, 'o, 'e, 'w) task_sys res" where
  "task_spawn f =
     (let t = (task_new f)\<lparr>tk_begun := 1\<rparr>;
          (won, st) = to_scheduled (tk_state t)
      in rbind (rassert won) (\<lambda>_. Inr (t\<lparr>tk_state := st, tk_queued := 1\<rparr>)))"

subsection \<open>Steps\<close>

text \<open>\<open>Wake::wake\<close> and \<open>wake_by_ref\<close>: the transition, then \<open>schedule\<close> by the winner.\<close>

definition task_wake :: "('f, 'o, 'e, 'w) task_sys \<Rightarrow> ('f, 'o, 'e, 'w) task_sys" where
  "task_wake t =
     (let (won, st) = to_scheduled (tk_state t)
      in t\<lparr>tk_state := st, tk_pushing := tk_pushing t + (if won then 1 else 0)\<rparr>)"

definition task_push :: "('f, 'o, 'e, 'w) task_sys \<Rightarrow> ('f, 'o, 'e, 'w) task_sys option" where
  "task_push t =
     (if tk_pushing t = 0 then None
      else Some (t\<lparr>tk_pushing := tk_pushing t - 1, tk_queued := tk_queued t + 1\<rparr>))"

text \<open>A worker takes the reference out of its run queue and calls \<open>run\<close> on it.\<close>

definition task_pop :: "('f, 'o, 'e, 'w) task_sys \<Rightarrow> ('f, 'o, 'e, 'w) task_sys option" where
  "task_pop t =
     (if tk_queued t = 0 then None
      else Some (t\<lparr>tk_queued := tk_queued t - 1, tk_runners := tk_runners t @ [R_Load]\<rparr>))"

text \<open>
  One step of \<open>run\<close>: the new program counter and task. The outcome is that of the
  future's \<open>poll\<close> and is used at \<open>R_Poll\<close> only.
\<close>

fun run_pc :: "('f, 'o, 'e) future_outcome \<Rightarrow> ('f, 'o, 'e) runner_pc \<Rightarrow>
    ('f, 'o, 'e, 'w) task_sys \<Rightarrow> (('f, 'o, 'e) runner_pc \<times> ('f, 'o, 'e, 'w) task_sys) res option" where
  "run_pc out R_Load t =
     Some (rbind (running_check (tk_state t)) (\<lambda>is_running.
       rbind (rassert is_running) (\<lambda>_. Inr (R_Store, t))))"
| "run_pc out R_Store t = Some (Inr (R_Lock, t\<lparr>tk_state := TASK_RUNNING\<rparr>))"
| "run_pc out R_Lock t =
     Some (if tk_lock t = Unlocked then Inr (R_Take, t\<lparr>tk_lock := By_Runner\<rparr>)
           else Inl Unwrap_None)"
| "run_pc out R_Take t =
     Some (case tk_data t of
       TD_Pending f \<Rightarrow> Inr (R_Poll f, t\<lparr>tk_data := TD_Polling\<rparr>)
     | _ \<Rightarrow> Inl Unreachable)"
| "run_pc out (R_Poll f) t =
     Some (Inr (case out of
       Future_Pending f' \<Rightarrow> (R_Put f', t)
     | Future_Ready r \<Rightarrow> (R_Finish (Inr r), t)
     | Future_Panic e \<Rightarrow> (R_Finish (Inl e), t)))"
| "run_pc out (R_Put f) t =
     Some (Inr (R_Idle, t\<lparr>tk_data := TD_Pending f, tk_lock := Unlocked\<rparr>))"
| "run_pc out R_Idle t =
     Some (rbind (to_idle (tk_state t)) (\<lambda>(ok, st).
       Inr (if ok then R_Done else R_Check, t\<lparr>tk_state := st\<rparr>)))"
| "run_pc out R_Check t =
     Some (rbind (notified_check (tk_state t)) (\<lambda>_. Inr (R_Resched, t)))"
| "run_pc out R_Resched t = Some (Inr (R_Push, t\<lparr>tk_state := TASK_SCHEDULED\<rparr>))"
| "run_pc out R_Push t = Some (Inr (R_Done, t\<lparr>tk_queued := tk_queued t + 1\<rparr>))"
| "run_pc out (R_Finish r) t =
     Some (Inr (R_Wake, t\<lparr>tk_data := TD_Ready r, tk_lock := Unlocked, tk_output := Some r\<rparr>))"
| "run_pc out R_Wake t =
     Some (rbind (aw_wake (tk_waker t)) (\<lambda>(fire, w). Inr (R_Complete,
       t\<lparr>tk_waker := w, tk_fired := tk_fired t @ (case fire of None \<Rightarrow> [] | Some c \<Rightarrow> [c])\<rparr>)))"
| "run_pc out R_Complete t = Some (Inr (R_Done, t\<lparr>tk_completed := tk_completed t + 1\<rparr>))"
| "run_pc out R_Done t = None"

definition task_run :: "nat \<Rightarrow> ('f, 'o, 'e) future_outcome \<Rightarrow> ('f, 'o, 'e, 'w) task_sys \<Rightarrow>
    ('f, 'o, 'e, 'w) task_sys res option" where
  "task_run i out t =
     (if i \<ge> length (tk_runners t) then None
      else case run_pc out (tk_runners t ! i) t of
        None \<Rightarrow> None
      | Some r \<Rightarrow> Some (rbind r (\<lambda>(pc, t'). Inr (t'\<lparr>tk_runners := (tk_runners t')[i := pc]\<rparr>))))"

text \<open>
  \<open>poll_join\<close>: the waker is polled with the caller's context; once it is ready the result
  is taken out under the lock. The handle drops its reference when it returns the result,
  so it is not polled again (\<open>JoinHandle::poll\<close> would panic in \<open>expect\<close>).
\<close>

definition join_step :: "'w \<Rightarrow> ('f, 'o, 'e, 'w) task_sys \<Rightarrow> ('f, 'o, 'e, 'w) task_sys res option" where
  "join_step c t =
     (case tk_joiner t of
        J_Idle \<Rightarrow> Some (rbind (aw_poll (Some c) (tk_waker t)) (\<lambda>(r, w).
          Inr (t\<lparr>tk_waker := w, tk_joiner := if is_ready r then J_Lock else J_Idle\<rparr>)))
      | J_Lock \<Rightarrow> Some (if tk_lock t = Unlocked
          then Inr (t\<lparr>tk_lock := By_Joiner, tk_joiner := J_Take\<rparr>) else Inl Unwrap_None)
      | J_Take \<Rightarrow> Some (case tk_data t of
            TD_Ready r \<Rightarrow> Inr (t\<lparr>tk_data := TD_Joined, tk_lock := Unlocked, tk_joiner := J_Done,
                                tk_joined := Some r\<rparr>)
          | _ \<Rightarrow> Inl Unreachable)
      | J_Done \<Rightarrow> None)"

datatype ('f, 'o, 'e, 'w) task_action =
    T_Wake
  | T_Push
  | T_Pop
  | T_Run nat "('f, 'o, 'e) future_outcome"
  | T_Join 'w

fun task_step :: "('f, 'o, 'e, 'w) task_action \<Rightarrow> ('f, 'o, 'e, 'w) task_sys \<Rightarrow>
    ('f, 'o, 'e, 'w) task_sys res option" where
  "task_step T_Wake t = Some (Inr (task_wake t))"
| "task_step T_Push t = map_option Inr (task_push t)"
| "task_step T_Pop t = map_option Inr (task_pop t)"
| "task_step (T_Run i out) t = task_run i out t"
| "task_step (T_Join c) t = join_step c t"

subsection \<open>The invariant\<close>

text \<open>
  The token of a task: whoever is about to push it, holds it in a run queue or runs it.
  A thread about to push it and a run queue are as a worker that has just popped it.
\<close>

definition tokens :: "('f, 'o, 'e, 'w) task_sys \<Rightarrow> ('f, 'o, 'e) runner_pc list" where
  "tokens t = replicate (tk_pushing t + tk_queued t) R_Load @
     filter (\<lambda>pc. pc \<noteq> R_Done) (tk_runners t)"

definition woken :: "('f, 'o, 'e, 'w) task_sys \<Rightarrow> bool" where
  "woken t \<longleftrightarrow> aw_notified (tk_waker t) \<or> aw_state (tk_waker t) = NOTIFIED"

definition pending_data :: "('f, 'o, 'e, 'w) task_sys \<Rightarrow> bool" where
  "pending_data t \<longleftrightarrow> (\<exists>f. tk_data t = TD_Pending f) \<and> tk_lock t = Unlocked \<and> tk_output t = None"

definition polling_data :: "('f, 'o, 'e, 'w) task_sys \<Rightarrow> bool" where
  "polling_data t \<longleftrightarrow> tk_data t = TD_Polling \<and> tk_lock t = By_Runner \<and> tk_output t = None"

definition live_state :: "u8 \<Rightarrow> bool" where
  "live_state st \<longleftrightarrow> st = TASK_RUNNING \<or> st = TASK_NOTIFIED"

fun runner_ok :: "('f, 'o, 'e) runner_pc \<Rightarrow> ('f, 'o, 'e, 'w) task_sys \<Rightarrow> bool" where
  "runner_ok R_Load t \<longleftrightarrow> tk_state t = TASK_SCHEDULED \<and> pending_data t \<and> \<not> woken t"
| "runner_ok R_Store t \<longleftrightarrow> tk_state t = TASK_SCHEDULED \<and> pending_data t \<and> \<not> woken t"
| "runner_ok R_Lock t \<longleftrightarrow> live_state (tk_state t) \<and> pending_data t \<and> \<not> woken t"
| "runner_ok R_Take t \<longleftrightarrow> live_state (tk_state t) \<and> (\<exists>f. tk_data t = TD_Pending f) \<and>
     tk_lock t = By_Runner \<and> tk_output t = None \<and> \<not> woken t"
| "runner_ok (R_Poll f) t \<longleftrightarrow> live_state (tk_state t) \<and> polling_data t \<and> \<not> woken t"
| "runner_ok (R_Put f) t \<longleftrightarrow> live_state (tk_state t) \<and> polling_data t \<and> \<not> woken t"
| "runner_ok R_Idle t \<longleftrightarrow> live_state (tk_state t) \<and> pending_data t \<and> \<not> woken t"
| "runner_ok R_Check t \<longleftrightarrow> tk_state t = TASK_NOTIFIED \<and> pending_data t \<and> \<not> woken t"
| "runner_ok R_Resched t \<longleftrightarrow> tk_state t = TASK_NOTIFIED \<and> pending_data t \<and> \<not> woken t"
| "runner_ok R_Push t \<longleftrightarrow> tk_state t = TASK_SCHEDULED \<and> pending_data t \<and> \<not> woken t"
| "runner_ok (R_Finish r) t \<longleftrightarrow> live_state (tk_state t) \<and> polling_data t \<and> \<not> woken t"
| "runner_ok R_Wake t \<longleftrightarrow> live_state (tk_state t) \<and> \<not> woken t \<and>
     (\<exists>r. tk_data t = TD_Ready r \<and> tk_output t = Some r) \<and> tk_lock t = Unlocked"
| "runner_ok R_Complete t \<longleftrightarrow> live_state (tk_state t) \<and> woken t"
| "runner_ok R_Done t \<longleftrightarrow> False"

text \<open>With no token the task is idle, or it is complete.\<close>

definition token_ok :: "('f, 'o, 'e) runner_pc list \<Rightarrow> ('f, 'o, 'e, 'w) task_sys \<Rightarrow> bool" where
  "token_ok ts t \<longleftrightarrow>
     (case ts of
        [] \<Rightarrow> tk_state t = TASK_IDLE \<and> pending_data t \<and> \<not> woken t \<and> tk_completed t = 0 \<or>
              live_state (tk_state t) \<and> woken t \<and> tk_completed t = 1
      | [pc] \<Rightarrow> runner_ok pc t \<and> tk_completed t = 0
      | _ \<Rightarrow> False)"

definition join_ok :: "('f, 'o, 'e, 'w) task_sys \<Rightarrow> bool" where
  "join_ok t \<longleftrightarrow>
     (if woken t
      then (case tk_joiner t of
              J_Idle \<Rightarrow> (\<exists>r. tk_data t = TD_Ready r \<and> tk_output t = Some r) \<and>
                 tk_lock t = Unlocked \<and> tk_joined t = None
            | J_Lock \<Rightarrow> (\<exists>r. tk_data t = TD_Ready r \<and> tk_output t = Some r) \<and>
                 tk_lock t = Unlocked \<and> tk_joined t = None
            | J_Take \<Rightarrow> (\<exists>r. tk_data t = TD_Ready r \<and> tk_output t = Some r) \<and>
                 tk_lock t = By_Joiner \<and> tk_joined t = None
            | J_Done \<Rightarrow> tk_data t = TD_Joined \<and> tk_lock t = Unlocked \<and>
                 tk_joined t = tk_output t \<and> tk_output t \<noteq> None)
      else tk_joiner t = J_Idle \<and> tk_joined t = None)"

definition task_inv :: "('f, 'o, 'e, 'w) task_sys \<Rightarrow> bool" where
  "task_inv t \<longleftrightarrow> aw_ok (tk_waker t) \<and> token_ok (tokens t) t \<and> join_ok t \<and> tk_begun t = 1"

lemmas task_data_defs = pending_data_def polling_data_def live_state_def

lemma token_ok_simps [simp]:
  "token_ok [pc] t \<longleftrightarrow> runner_ok pc t \<and> tk_completed t = 0"
  "token_ok (pc # pc' # ts) t \<longleftrightarrow> False"
  by (simp_all add: token_ok_def)

text \<open>A list with a single element that satisfies the filter, updated at that element.\<close>

lemma filter_single_update:
  assumes "i < length xs" "P (xs ! i)" "filter P xs = [z]"
  shows "z = xs ! i" "filter P (xs[i := y]) = (if P y then [y] else [])"
proof -
  have xs: "xs = take i xs @ xs ! i # drop (Suc i) xs"
    using assms(1) by (simp add: id_take_nth_drop)
  have "filter P (take i xs) @ xs ! i # filter P (drop (Suc i) xs) = [z]"
    using assms(2,3) by (subst (asm) xs) simp
  then have "filter P (take i xs) = []" "filter P (drop (Suc i) xs) = []" "z = xs ! i"
    by (auto simp: append_eq_Cons_conv)
  then show "z = xs ! i" "filter P (xs[i := y]) = (if P y then [y] else [])"
    using assms(1) by (auto simp: upd_conv_take_nth_drop)
qed

lemma token_of_runner:
  assumes "task_inv t" "i < length (tk_runners t)" "tk_runners t ! i = pc" "pc \<noteq> R_Done"
  shows "tokens t = [pc]" "tk_pushing t = 0" "tk_queued t = 0"
    "filter (\<lambda>pc. pc \<noteq> R_Done) (tk_runners t) = [pc]"
proof -
  let ?act = "filter (\<lambda>pc. pc \<noteq> R_Done) (tk_runners t)"
  have mem: "pc \<in> set ?act" using assms(2-4) nth_mem [OF assms(2)] by simp
  have "length (tokens t) \<le> 1"
    using assms(1) by (auto simp: task_inv_def token_ok_def split: list.splits)
  then have "tk_pushing t + tk_queued t + length ?act \<le> 1" by (simp add: tokens_def)
  moreover have "length ?act \<ge> 1" using mem by (cases ?act) auto
  ultimately have len: "length ?act = 1" and z: "tk_pushing t = 0" "tk_queued t = 0" by linarith+
  then show "tk_pushing t = 0" "tk_queued t = 0" by simp_all
  from len mem show act: "?act = [pc]" by (cases ?act) auto
  then show "tokens t = [pc]" using z by (simp add: tokens_def)
qed

text \<open>The task fields the invariant reads apart from the token.\<close>

lemma runner_ok_cong:
  assumes "tk_state t' = tk_state t" "tk_data t' = tk_data t" "tk_lock t' = tk_lock t"
    "woken t' = woken t" "tk_output t' = tk_output t"
  shows "runner_ok pc t' = runner_ok pc t"
  using assms by (cases pc) (simp_all add: task_data_defs)

lemma token_ok_cong:
  assumes "tk_state t' = tk_state t" "tk_data t' = tk_data t" "tk_lock t' = tk_lock t"
    "woken t' = woken t" "tk_output t' = tk_output t" "tk_completed t' = tk_completed t"
  shows "token_ok ts t' = token_ok ts t"
  using runner_ok_cong [OF assms(1-5)] assms
  by (auto simp: token_ok_def task_data_defs split: list.splits)

lemma join_ok_cong:
  assumes "tk_joiner t' = tk_joiner t" "tk_data t' = tk_data t" "tk_lock t' = tk_lock t"
    "woken t' = woken t" "tk_output t' = tk_output t" "tk_joined t' = tk_joined t"
  shows "join_ok t' = join_ok t"
  using assms by (simp add: join_ok_def split: joiner_pc.splits)

lemma inv_frame [simp]:
  "token_ok ts (t\<lparr>tk_pushing := n\<rparr>) = token_ok ts t"
  "token_ok ts (t\<lparr>tk_queued := n\<rparr>) = token_ok ts t"
  "token_ok ts (t\<lparr>tk_runners := rs\<rparr>) = token_ok ts t"
  "join_ok (t\<lparr>tk_pushing := n\<rparr>) = join_ok t"
  "join_ok (t\<lparr>tk_queued := n\<rparr>) = join_ok t"
  "join_ok (t\<lparr>tk_runners := rs\<rparr>) = join_ok t"
  "join_ok (t\<lparr>tk_state := st\<rparr>) = join_ok t"
  "runner_ok pc (t\<lparr>tk_queued := n\<rparr>) = runner_ok pc t"
  by (rule token_ok_cong join_ok_cong runner_ok_cong; simp add: woken_def)+

lemma join_ok_asleep: "\<not> woken t \<Longrightarrow> join_ok t \<longleftrightarrow> tk_joiner t = J_Idle \<and> tk_joined t = None"
  by (simp add: join_ok_def)

lemma task_inv_spawn: "task_spawn f = Inr t \<Longrightarrow> task_inv t"
  by (auto simp: task_spawn_def task_new_def task_state_new_def task_inv_def tokens_def woken_def
      aw_new_def task_data_defs join_ok_def aw_ok_def)

lemma task_inv_push:
  assumes "task_inv t" "task_push t = Some t'"
  shows "task_inv t'"
proof -
  have eq: "t' = t\<lparr>tk_pushing := tk_pushing t - 1, tk_queued := tk_queued t + 1\<rparr>" and "tk_pushing t > 0"
    using assms(2) by (auto simp: task_push_def split: if_splits)
  then have "tokens t' = tokens t" by (auto simp: tokens_def)
  then show ?thesis
    using assms(1) unfolding task_inv_def eq
    by simp
qed

lemma task_inv_pop:
  assumes "task_inv t" "task_pop t = Some t'"
  shows "task_inv t'"
proof -
  let ?act = "filter (\<lambda>pc. pc \<noteq> R_Done) (tk_runners t)"
  have eq: "t' = t\<lparr>tk_queued := tk_queued t - 1, tk_runners := tk_runners t @ [R_Load]\<rparr>"
    and q: "tk_queued t > 0"
    using assms(2) by (auto simp: task_pop_def split: if_splits)
  have "length (tokens t) \<le> 1"
    using assms(1) by (auto simp: task_inv_def token_ok_def split: list.splits)
  then have "tk_pushing t + tk_queued t + length ?act \<le> 1" by (simp add: tokens_def)
  with q have "tk_pushing t = 0" "tk_queued t = 1" "length ?act = 0" by linarith+
  then have "tokens t' = tokens t" unfolding eq by (simp add: tokens_def)
  then show ?thesis
    using assms(1) unfolding task_inv_def eq
    by simp
qed

lemma runner_ok_notify:
  assumes "runner_ok pc t" "tk_state t = TASK_RUNNING"
  shows "runner_ok pc (t\<lparr>tk_state := TASK_NOTIFIED\<rparr>)"
  using assms by (cases pc) (simp_all add: task_data_defs woken_def)

lemma runner_ok_not_idle: "runner_ok pc t \<Longrightarrow> tk_state t \<noteq> TASK_IDLE"
  by (cases pc) (auto simp: live_state_def)

lemma task_inv_wake:
  assumes "task_inv t"
  shows "task_inv (task_wake t)"
proof -
  consider "tk_state t = TASK_IDLE" | "tk_state t = TASK_RUNNING"
    | "tk_state t \<noteq> TASK_IDLE" "tk_state t \<noteq> TASK_RUNNING" by blast
  then show ?thesis
  proof cases
    case 1
    then have eq: "task_wake t = t\<lparr>tk_state := TASK_SCHEDULED, tk_pushing := tk_pushing t + 1\<rparr>"
      by (simp add: task_wake_def)
    have nil: "tokens t = []"
      using assms 1 by (auto simp: task_inv_def token_ok_def dest: runner_ok_not_idle split: list.splits)
    then have "tokens (task_wake t) = [R_Load]"
      unfolding eq by (auto simp: tokens_def filter_empty_conv)
    then show ?thesis
      using assms 1 nil unfolding task_inv_def eq
      by (auto simp: token_ok_def task_data_defs woken_def join_ok_def)
  next
    case 2
    then have eq: "task_wake t = t\<lparr>tk_state := TASK_NOTIFIED\<rparr>"
      by (simp add: task_wake_def)
    have "token_ok (tokens t) (t\<lparr>tk_state := TASK_NOTIFIED\<rparr>)"
      using assms 2 runner_ok_notify [of _ t]
      by (auto simp: task_inv_def token_ok_def task_data_defs woken_def split: list.splits)
    moreover have "tokens (task_wake t) = tokens t" unfolding eq by (simp add: tokens_def)
    ultimately show ?thesis
      using assms unfolding task_inv_def eq by simp
  next
    case 3
    then have "task_wake t = t" by (simp add: task_wake_def to_scheduled_def)
    with assms show ?thesis by simp
  qed
qed

text \<open>One step of the worker that holds the token, with its effect on the rest.\<close>

lemma run_pc_frame:
  assumes "run_pc out pc t = Some (Inr (pc', t'))"
  shows "tk_pushing t' = tk_pushing t \<and> tk_runners t' = tk_runners t \<and> tk_begun t' = tk_begun t \<and>
         tk_joiner t' = tk_joiner t \<and> tk_joined t' = tk_joined t \<and>
         tk_queued t' = tk_queued t + (if pc = R_Push then 1 else 0)"
proof (cases pc)
  case R_Load
  with assms show ?thesis by (auto simp: rassert_def split: if_splits)
next
  case R_Take
  with assms show ?thesis by (cases "tk_data t") auto
next
  case (R_Poll f)
  with assms show ?thesis by (cases out) auto
next
  case R_Lock
  with assms show ?thesis by (cases "tk_lock t") auto
next
  case R_Idle
  with assms show ?thesis by (cases "to_idle (tk_state t)") auto
next
  case R_Wake
  with assms show ?thesis by (cases "aw_wake (tk_waker t)") auto
qed (use assms in auto)

lemma run_pc_ok:
  assumes ok: "runner_ok pc t" and w: "aw_ok (tk_waker t)" and j: "join_ok t"
    and c: "tk_completed t = 0" and r: "run_pc out pc t = Some r"
  shows "\<exists>pc' t'. r = Inr (pc', t') \<and> aw_ok (tk_waker t') \<and> join_ok t' \<and>
    token_ok (if pc' = R_Done then (if pc = R_Push then [R_Load] else []) else [pc']) t'"
proof (cases pc)
  case R_Load
  with assms show ?thesis by auto
next
  case R_Store
  with ok r have "r = Inr (R_Lock, t\<lparr>tk_state := TASK_RUNNING\<rparr>)" by simp
  with R_Store ok w j c show ?thesis by (simp add: task_data_defs woken_def)
next
  case R_Lock
  with ok r have "r = Inr (R_Take, t\<lparr>tk_lock := By_Runner\<rparr>)"
    by (simp add: pending_data_def)
  with R_Lock ok w j c show ?thesis by (simp add: task_data_defs woken_def join_ok_def)
next
  case R_Take
  with ok obtain f where "tk_data t = TD_Pending f" by auto
  with R_Take r have "r = Inr (R_Poll f, t\<lparr>tk_data := TD_Polling\<rparr>)" by simp
  with R_Take ok w j c show ?thesis by (simp add: task_data_defs woken_def join_ok_def)
next
  case (R_Poll f)
  with assms show ?thesis by (cases out) auto
next
  case (R_Put f)
  with r have "r = Inr (R_Idle, t\<lparr>tk_data := TD_Pending f, tk_lock := Unlocked\<rparr>)" by simp
  with R_Put ok w j c show ?thesis by (simp add: task_data_defs woken_def join_ok_def)
next
  case R_Idle
  show ?thesis
  proof (cases "tk_state t = TASK_RUNNING")
    case True
    with R_Idle r have "r = Inr (R_Done, t\<lparr>tk_state := TASK_IDLE\<rparr>)" by simp
    with R_Idle ok w j c show ?thesis by (simp add: task_data_defs woken_def token_ok_def)
  next
    case False
    with R_Idle ok have "tk_state t = TASK_NOTIFIED" by (simp add: live_state_def)
    with R_Idle r have "r = Inr (R_Check, t\<lparr>tk_state := TASK_NOTIFIED\<rparr>)" by simp
    with R_Idle ok w j c show ?thesis by (simp add: task_data_defs woken_def)
  qed
next
  case R_Check
  with assms show ?thesis by auto
next
  case R_Resched
  with r have "r = Inr (R_Push, t\<lparr>tk_state := TASK_SCHEDULED\<rparr>)" by simp
  with R_Resched ok w j c show ?thesis by (simp add: task_data_defs woken_def)
next
  case R_Push
  with r have "r = Inr (R_Done, t\<lparr>tk_queued := tk_queued t + 1\<rparr>)" by simp
  with R_Push ok w j c show ?thesis by simp
next
  case (R_Finish x)
  with r have "r = Inr (R_Wake, t\<lparr>tk_data := TD_Ready x, tk_lock := Unlocked, tk_output := Some x\<rparr>)"
    by simp
  with R_Finish ok w j c show ?thesis by (simp add: task_data_defs woken_def join_ok_def)
next
  case R_Wake
  from aw_wake_ok [OF w] obtain fire w' where
    wk: "aw_wake (tk_waker t) = Inr (fire, w')" "aw_ok w'" "aw_state w' = NOTIFIED" .
  with R_Wake r have "r = Inr (R_Complete, t\<lparr>tk_waker := w',
      tk_fired := tk_fired t @ (case fire of None \<Rightarrow> [] | Some c \<Rightarrow> [c])\<rparr>)" by simp
  with R_Wake ok wk j c show ?thesis by (auto simp: live_state_def woken_def join_ok_def)
next
  case R_Complete
  with r have eq: "r = Inr (R_Done, t\<lparr>tk_completed := tk_completed t + 1\<rparr>)" by simp
  have "join_ok (t\<lparr>tk_completed := tk_completed t + 1\<rparr>) = join_ok t"
    by (rule join_ok_cong) (simp_all add: woken_def)
  with R_Complete ok w j c show ?thesis
    unfolding eq by (simp add: live_state_def woken_def token_ok_def)
next
  case R_Done
  with assms show ?thesis by simp
qed

lemma task_inv_run:
  assumes "task_inv t" "task_run i out t = Some r"
  shows "\<exists>t'. r = Inr t' \<and> task_inv t'"
proof -
  let ?act = "filter (\<lambda>pc. pc \<noteq> R_Done)"
  from assms(2) obtain pc q where i: "i < length (tk_runners t)" and pc: "tk_runners t ! i = pc"
    and q: "run_pc out pc t = Some q"
    and r: "r = rbind q (\<lambda>(pc', t'). Inr (t'\<lparr>tk_runners := (tk_runners t')[i := pc']\<rparr>))"
    by (auto simp: task_run_def split: if_splits option.splits)
  then have nd: "pc \<noteq> R_Done" by auto
  note tok = token_of_runner [OF assms(1) i pc nd]
  have "runner_ok pc t" "tk_completed t = 0" "aw_ok (tk_waker t)" "join_ok t"
    using assms(1) tok(1) by (simp_all add: task_inv_def)
  from run_pc_ok [OF this(1,3,4,2) q] obtain pc' t' where
    q': "q = Inr (pc', t')" and ok: "aw_ok (tk_waker t')" "join_ok t'"
    "token_ok (if pc' = R_Done then (if pc = R_Push then [R_Load] else []) else [pc']) t'" by blast
  have fr: "tk_runners t' = tk_runners t" "tk_begun t' = tk_begun t"
    "tk_pushing t' + tk_queued t' = (if pc = R_Push then 1 else 0)"
    using run_pc_frame [of out pc t pc' t'] q q' tok(2,3) by auto
  have push: "pc = R_Push \<Longrightarrow> pc' = R_Done" using q q' by auto
  have "?act ((tk_runners t)[i := pc']) = (if pc' \<noteq> R_Done then [pc'] else [])"
    using filter_single_update(2) [OF i _ tok(4)] pc nd by simp
  then have "tokens (t'\<lparr>tk_runners := (tk_runners t')[i := pc']\<rparr>) =
      (if pc' = R_Done then (if pc = R_Push then [R_Load] else []) else [pc'])"
    using fr push by (auto simp: tokens_def)
  then have "task_inv (t'\<lparr>tk_runners := (tk_runners t')[i := pc']\<rparr>)"
    using ok fr(2) assms(1) by (simp add: task_inv_def)
  then show ?thesis using r q' by simp
qed

lemma join_poll_woken:
  assumes "aw_poll (Some c) (tk_waker t) = Inr (x, w)" "aw_ok (tk_waker t)"
  shows "aw_ok w" "is_ready x = woken t" "woken (t\<lparr>tk_waker := w\<rparr>) = woken t"
proof -
  from aw_poll_ok [OF assms(2), of "Some c"] assms(1)
  show "aw_ok w" "is_ready x = woken t" by (auto simp: woken_def)
  show "woken (t\<lparr>tk_waker := w\<rparr>) = woken t"
    using assms by (cases "aw_notified (tk_waker t)"; cases "aw_state (tk_waker t) = NOTIFIED")
      (auto simp: aw_poll_cases woken_def aw_ok_def)
qed

text \<open>After the join handle was notified the token is gone or only counts the completion.\<close>

lemma token_ok_woken:
  assumes "woken t"
  shows "token_ok ts t \<longleftrightarrow> live_state (tk_state t) \<and>
    (ts = [] \<and> tk_completed t = 1 \<or> ts = [R_Complete] \<and> tk_completed t = 0)"
proof -
  have "runner_ok pc t \<longleftrightarrow> pc = R_Complete \<and> live_state (tk_state t)" for pc
    using assms by (cases pc) auto
  then show ?thesis using assms by (auto simp: token_ok_def split: list.splits)
qed

lemma task_inv_join:
  assumes inv: "task_inv t" and st: "join_step c t = Some r"
  shows "\<exists>t'. r = Inr t' \<and> task_inv t'"
proof -
  have w: "aw_ok (tk_waker t)" and j: "join_ok t" and tok: "token_ok (tokens t) t"
    using inv by (simp_all add: task_inv_def)
  show ?thesis
  proof (cases "tk_joiner t")
    case J_Idle
    from aw_poll_ok [OF w, of "Some c"] obtain x w' where
      p: "aw_poll (Some c) (tk_waker t) = Inr (x, w')" by blast
    note pw = join_poll_woken [OF p w]
    let ?t = "t\<lparr>tk_waker := w', tk_joiner := if is_ready x then J_Lock else J_Idle\<rparr>"
    have wk: "woken ?t = woken t" using pw(3) by (simp add: woken_def)
    have "token_ok (tokens t) ?t = token_ok (tokens t) t"
      by (rule token_ok_cong) (simp_all add: wk)
    moreover have "tokens ?t = tokens t" by (simp add: tokens_def)
    moreover have "join_ok ?t"
      using j wk pw(2) J_Idle unfolding join_ok_def by (cases "woken t") simp_all
    ultimately have "task_inv ?t" using inv pw(1) tok by (simp add: task_inv_def)
    with st p J_Idle show ?thesis by (auto simp: join_step_def)
  next
    case J_Lock
    with j have wk: "woken t" and "tk_lock t = Unlocked"
      by (auto simp: join_ok_def split: if_splits)
    then have r: "r = Inr (t\<lparr>tk_lock := By_Joiner, tk_joiner := J_Take\<rparr>)"
      using st J_Lock by (simp add: join_step_def)
    let ?t = "t\<lparr>tk_lock := By_Joiner, tk_joiner := J_Take\<rparr>"
    have "woken ?t" using wk by (simp add: woken_def)
    moreover have "token_ok (tokens t) ?t"
      using tok wk by (auto simp: token_ok_woken woken_def)
    moreover have "tokens ?t = tokens t" by (simp add: tokens_def)
    ultimately have "task_inv ?t"
      using inv j wk J_Lock by (simp add: task_inv_def join_ok_def)
    with r show ?thesis by simp
  next
    case J_Take
    with j have wk: "woken t" by (auto simp: join_ok_def split: if_splits)
    with j J_Take obtain x where x: "tk_data t = TD_Ready x" "tk_output t = Some x"
      by (auto simp: join_ok_def)
    let ?t = "t\<lparr>tk_data := TD_Joined, tk_lock := Unlocked, tk_joiner := J_Done, tk_joined := Some x\<rparr>"
    have r: "r = Inr ?t" using st J_Take x by (simp add: join_step_def)
    have "woken ?t" using wk by (simp add: woken_def)
    moreover have "token_ok (tokens t) ?t"
      using tok wk by (auto simp: token_ok_woken woken_def)
    moreover have "tokens ?t = tokens t" by (simp add: tokens_def)
    ultimately have "task_inv ?t"
      using inv j wk x J_Take by (simp add: task_inv_def join_ok_def)
    with r show ?thesis by simp
  next
    case J_Done
    with st show ?thesis by (simp add: join_step_def)
  qed
qed

text \<open>A spawned task is a machine that keeps the invariant and never panics.\<close>

definition task_spawned :: "'f \<Rightarrow> ('f, 'o, 'e, 'w) task_sys" where
  "task_spawned f = (task_new f)\<lparr>tk_state := TASK_SCHEDULED, tk_queued := 1, tk_begun := 1\<rparr>"

lemma task_spawn_ok: "task_spawn f = Inr (task_spawned f)"
  by (simp add: task_spawn_def task_spawned_def task_new_def task_state_new_def)

lemma task_inv_step:
  assumes "task_inv t" "task_step a t = Some r"
  shows "\<exists>t'. r = Inr t' \<and> task_inv t'"
proof (cases a)
  case T_Wake
  with assms show ?thesis by (auto intro: task_inv_wake)
next
  case T_Push
  with assms show ?thesis by (auto intro: task_inv_push)
next
  case T_Pop
  with assms show ?thesis by (auto intro: task_inv_pop)
next
  case (T_Run i out)
  with assms show ?thesis by (simp add: task_inv_run)
next
  case (T_Join c)
  with assms show ?thesis by (simp add: task_inv_join)
qed

interpretation tasks: safe_machine task_step "task_spawned f" task_inv for f
proof
  show "task_inv (task_spawned f)"
    using task_inv_spawn [OF task_spawn_ok] .
qed (use task_inv_step in fastforce)+

subsection \<open>Properties\<close>

lemma reach_task_inv: "reach task_step (task_spawned f) t \<Longrightarrow> task_inv t"
  by (rule tasks.reach_inv)

lemma run_task_inv: "run task_step (task_spawned f) as = Some (Inr t) \<Longrightarrow> task_inv t"
  by (rule tasks.run_inv)

text \<open>
  Spawning a task succeeds, and from then on no schedule of wakers, workers and join
  handle panics inside the runtime: no \<open>unwrap\<close> of the data lock fails, no assertion on the
  state fails and no \<open>unreachable!\<close> arm is reached, whatever the future does at each poll
  (return, suspend or panic).
\<close>

theorem task_schedules_never_panic:
  "\<exists>t. task_spawn f = Inr t \<and> (\<forall>as p. run task_step t as \<noteq> Some (Inl p))"
  by (rule exI [where x = "task_spawned f"]) (simp add: task_spawn_ok tasks.run_no_panic)

text \<open>
  In every reachable state a task has at most one holder: the threads that are about to
  push it, the run queues that contain it and the workers that run it are together at most
  one. So no task sits in two run queues and no future is polled by two workers.
\<close>

theorem task_has_one_holder:
  assumes "reach task_step (task_spawned f) t"
  shows "tk_pushing t + tk_queued t + length (filter (\<lambda>pc. pc \<noteq> R_Done) (tk_runners t)) \<le> 1"
proof -
  have "length (tokens t) \<le> 1"
    using reach_task_inv [OF assms] by (auto simp: task_inv_def token_ok_def split: list.splits)
  then show ?thesis by (simp add: tokens_def)
qed

definition fresh_task :: "(unit, nat, unit, nat) task_sys" where
  "fresh_task = task_spawned ()"

theorem task_has_one_holder_witness:
  "tk_queued fresh_task = 1 \<and>
   tk_pushing fresh_task + tk_queued fresh_task +
     length (filter (\<lambda>pc. pc \<noteq> R_Done) (tk_runners fresh_task)) \<le> 1"
proof -
  have "reach task_step (task_spawned ()) fresh_task"
    unfolding fresh_task_def by (rule reach_start)
  from task_has_one_holder [OF this] show ?thesis
    by (simp add: fresh_task_def task_spawned_def)
qed

text \<open>
  A wake that arrives while the task is being polled is not lost. In every reachable
  state whose scheduling state is \<open>NOTIFIED\<close>, a worker about to leave \<open>run\<close> with a suspended
  future makes the task scheduled again and puts it back into a run queue.
\<close>

theorem task_notified_is_rescheduled:
  assumes "reach task_step (task_spawned f) t"
    and "i < length (tk_runners t)" and "tk_runners t ! i = R_Idle"
    and "tk_state t = TASK_NOTIFIED"
  shows "\<exists>t'. run task_step t (replicate 4 (T_Run i out)) = Some (Inr t') \<and>
           tk_state t' = TASK_SCHEDULED \<and> tk_queued t' = 1 \<and> tk_runners t' ! i = R_Done"
proof -
  have "tk_queued t = 0"
    using token_of_runner [OF reach_task_inv [OF assms(1)] assms(2,3)] by simp
  with assms(2-4) show ?thesis
    by (simp add: numeral_eq_Suc task_run_def)
qed

definition notified_run :: "(unit, nat, unit, unit) task_action list" where
  "notified_run = [T_Pop, T_Run 0 (Future_Pending ()), T_Run 0 (Future_Pending ()),
     T_Run 0 (Future_Pending ()), T_Run 0 (Future_Pending ()), T_Wake,
     T_Run 0 (Future_Pending ()), T_Run 0 (Future_Pending ())]"

definition notified_task :: "(unit, nat, unit, unit) task_sys" where
  "notified_task = (task_spawned ())\<lparr>tk_state := TASK_NOTIFIED, tk_queued := 0,
     tk_runners := [R_Idle]\<rparr>"

lemma notified_run_reach: "reach task_step (task_spawned ()) notified_task"
  by (rule run_reach [of _ _ notified_run])
     (simp add: notified_run_def notified_task_def task_spawned_def task_new_def task_pop_def
       task_run_def task_wake_def)

theorem task_notified_is_rescheduled_witness:
  "\<exists>t'. run task_step notified_task (replicate 4 (T_Run 0 (Future_Pending ()))) = Some (Inr t') \<and>
     tk_state t' = TASK_SCHEDULED \<and> tk_queued t' = 1 \<and> tk_runners t' ! 0 = R_Done"
  by (rule task_notified_is_rescheduled [OF notified_run_reach])
     (simp_all add: notified_task_def task_spawned_def)

text \<open>
  C21: completion. From any reachable state in which a worker holds the result of the
  future, finishing \<open>run\<close> stores it, calls the waker a join handle has registered, counts
  the completion once, and the next polls of an idle join handle return exactly that result
  (a panic of the future as the error it unwinds with).
\<close>

theorem task_result_reaches_join_handle:
  assumes "reach task_step (task_spawned f) t"
    and "i < length (tk_runners t)" and "tk_runners t ! i = R_Finish r"
  shows "\<exists>t'. run task_step t (replicate 3 (T_Run i out) @ replicate 3 (T_Join c)) = Some (Inr t') \<and>
           tk_joined t' = Some r \<and> tk_completed t' = 1 \<and>
           (\<forall>d. aw_state (tk_waker t) = WAITING \<longrightarrow> aw_waker (tk_waker t) = Some d \<longrightarrow>
                d \<in> set (tk_fired t'))"
proof -
  have inv: "task_inv t" by (rule reach_task_inv [OF assms(1)])
  have "runner_ok (R_Finish r) t" and c: "tk_completed t = 0" and w: "aw_ok (tk_waker t)"
    using inv token_of_runner(1) [OF inv assms(2,3)] by (simp_all add: task_inv_def)
  then have nw: "\<not> woken t" by simp
  then have j: "tk_joiner t = J_Idle" using inv by (simp add: task_inv_def join_ok_def)
  from nw have "\<not> aw_notified (tk_waker t)" by (simp add: woken_def)
  with assms(2,3) c w j show ?thesis
    by (auto simp: numeral_eq_Suc task_run_def aw_wake_simp join_step_def aw_poll_woken)
qed

definition finishing_task :: "(unit, nat, unit, nat) task_sys" where
  "finishing_task = (task_spawned ())\<lparr>tk_state := TASK_RUNNING, tk_data := TD_Polling,
     tk_lock := By_Runner, tk_queued := 0, tk_runners := [R_Finish (Inr 5)],
     tk_waker := \<lparr>aw_state = WAITING, aw_notified = False, aw_waker = Some 9\<rparr>\<rparr>"

lemma finishing_reach: "reach task_step (task_spawned ()) finishing_task"
  by (rule run_reach [of _ _ "[T_Join 9, T_Pop, T_Run 0 (Future_Ready 5), T_Run 0 (Future_Ready 5),
        T_Run 0 (Future_Ready 5), T_Run 0 (Future_Ready 5), T_Run 0 (Future_Ready 5)]"])
     (simp add: finishing_task_def task_spawned_def task_new_def task_pop_def task_run_def
       join_step_def aw_poll_def aw_check_def aw_cas_def aw_register_def aw_new_def)

theorem task_result_reaches_join_handle_witness:
  "\<exists>t'. run task_step finishing_task
      (replicate 3 (T_Run 0 (Future_Ready 5)) @ replicate 3 (T_Join 2)) = Some (Inr t') \<and>
     tk_joined t' = Some (Inr 5) \<and> tk_completed t' = 1 \<and>
     (\<forall>d. aw_state (tk_waker finishing_task) = WAITING \<longrightarrow>
          aw_waker (tk_waker finishing_task) = Some d \<longrightarrow> d \<in> set (tk_fired t'))"
  by (rule task_result_reaches_join_handle [OF finishing_reach])
     (simp_all add: finishing_task_def task_spawned_def)

text \<open>
  A task whose result has been published is never scheduled again: no reachable state
  with a notified join waker has the task in a run queue, and further wakes only flip its
  state from running to notified.
\<close>

theorem completed_task_is_not_rescheduled:
  assumes "reach task_step (task_spawned f) t"
    and "aw_state (tk_waker t) = NOTIFIED \<or> aw_notified (tk_waker t)"
  shows "tk_pushing t = 0 \<and> tk_queued t = 0 \<and> tk_pushing (task_wake t) = 0 \<and>
         tk_state (task_wake t) = TASK_NOTIFIED"
proof -
  have "woken t" using assms(2) by (auto simp: woken_def)
  then have "live_state (tk_state t)" and t: "tokens t = [] \<or> tokens t = [R_Complete]"
    using reach_task_inv [OF assms(1)] by (auto simp: task_inv_def token_ok_woken)
  moreover have "tk_pushing t + tk_queued t = 0"
    using t by (cases "tk_pushing t + tk_queued t") (auto simp: tokens_def)
  ultimately show ?thesis by (auto simp: live_state_def task_wake_def)
qed

definition completed_task :: "(unit, nat, unit, nat) task_sys" where
  "completed_task = (task_spawned ())\<lparr>tk_state := TASK_RUNNING, tk_data := TD_Ready (Inr 5),
     tk_queued := 0, tk_runners := [R_Done], tk_completed := 1, tk_output := Some (Inr 5),
     tk_waker := aw_new\<lparr>aw_state := NOTIFIED\<rparr>\<rparr>"

lemma completed_reach: "reach task_step (task_spawned ()) completed_task"
  by (rule run_reach [of _ _ "T_Pop # replicate 8 (T_Run 0 (Future_Ready 5))"])
     (simp add: completed_task_def task_spawned_def task_new_def task_pop_def task_run_def
       aw_wake_def aw_fetch_notify_def aw_new_def numeral_eq_Suc)

theorem completed_task_is_not_rescheduled_witness:
  "tk_pushing completed_task = 0 \<and> tk_queued completed_task = 0 \<and>
   tk_pushing (task_wake completed_task) = 0 \<and> tk_state (task_wake completed_task) = TASK_NOTIFIED"
  by (rule completed_task_is_not_rescheduled [OF completed_reach])
     (simp add: completed_task_def)

end
