(* ===== verification/Ordered_Map.thy ===== *)
theory Ordered_Map
  imports Prelude
begin

text \<open>
  The part of \<open>std::collections::BTreeMap\<close> the timer queue uses, as association lists sorted
  by key: lookup, insertion, removal and the smallest key (the first item of \<open>iter()\<close>). The
  interface \<open>ordered_map\<close> states the laws the timer queue relies on; what it needs to know
  about the smallest key is proved once from them.
\<close>

type_synonym ('k, 'v) btree = "('k \<times> 'v) list"

fun bt_lookup :: "('k, 'v) btree \<Rightarrow> 'k \<Rightarrow> 'v option" where
  "bt_lookup [] k = None"
| "bt_lookup ((a, x) # m) k = (if k = a then Some x else bt_lookup m k)"

fun bt_insert :: "'k::linorder \<Rightarrow> 'v \<Rightarrow> ('k, 'v) btree \<Rightarrow> ('k, 'v) btree" where
  "bt_insert k v [] = [(k, v)]"
| "bt_insert k v ((a, x) # m) =
     (if k < a then (k, v) # (a, x) # m
      else if k = a then (k, v) # m
      else (a, x) # bt_insert k v m)"

fun bt_remove :: "'k \<Rightarrow> ('k, 'v) btree \<Rightarrow> ('k, 'v) btree" where
  "bt_remove k [] = []"
| "bt_remove k ((a, x) # m) = (if k = a then m else (a, x) # bt_remove k m)"

fun bt_first :: "('k, 'v) btree \<Rightarrow> 'k option" where
  "bt_first [] = None"
| "bt_first ((a, x) # m) = Some a"

fun bt_inv :: "('k::linorder, 'v) btree \<Rightarrow> bool" where
  "bt_inv [] = True"
| "bt_inv ((a, x) # m) = ((\<forall>(b, y) \<in> set m. a < b) \<and> bt_inv m)"

locale ordered_map =
  fixes lookup :: "'m \<Rightarrow> 'k::linorder \<Rightarrow> 'v option"
    and insert :: "'k \<Rightarrow> 'v \<Rightarrow> 'm \<Rightarrow> 'm"
    and remove :: "'k \<Rightarrow> 'm \<Rightarrow> 'm"
    and first :: "'m \<Rightarrow> 'k option"
    and invar :: "'m \<Rightarrow> bool"
  assumes lookup_insert: "invar m \<Longrightarrow> lookup (insert k v m) = (lookup m)(k \<mapsto> v)"
    and lookup_remove: "invar m \<Longrightarrow> lookup (remove k m) = (lookup m)(k := None)"
    and invar_insert: "invar m \<Longrightarrow> invar (insert k v m)"
    and invar_remove: "invar m \<Longrightarrow> invar (remove k m)"
    and first_None: "invar m \<Longrightarrow> first m = None \<longleftrightarrow> lookup m = Map.empty"
    and first_Some: "invar m \<Longrightarrow> first m = Some k \<Longrightarrow>
          lookup m k \<noteq> None \<and> (\<forall>k'. lookup m k' \<noteq> None \<longrightarrow> k \<le> k')"
begin

lemma first_eqI:
  assumes "invar m" "lookup m k \<noteq> None" "\<And>k'. lookup m k' \<noteq> None \<Longrightarrow> k \<le> k'"
  shows "first m = Some k"
proof (cases "first m")
  case None
  with assms(1,2) first_None show ?thesis by auto
next
  case (Some k')
  with first_Some [OF assms(1) Some] assms(2,3) have "k' = k" by (meson antisym)
  with Some show ?thesis by simp
qed

lemma first_insert:
  assumes "invar m"
  shows "first (insert k v m) = Some (case first m of None \<Rightarrow> k | Some k' \<Rightarrow> min k k')"
proof (rule first_eqI)
  show "invar (insert k v m)" using assms by (rule invar_insert)
next
  show "lookup (insert k v m) (case first m of None \<Rightarrow> k | Some k' \<Rightarrow> min k k') \<noteq> None"
    using assms first_Some [OF assms]
    by (auto simp: lookup_insert min_def split: option.splits)
next
  fix k' assume "lookup (insert k v m) k' \<noteq> None"
  then have "k' = k \<or> lookup m k' \<noteq> None"
    using assms by (auto simp: lookup_insert split: if_splits)
  then show "(case first m of None \<Rightarrow> k | Some k'' \<Rightarrow> min k k'') \<le> k'"
    using first_None [OF assms] first_Some [OF assms]
    by (auto split: option.splits simp: min_le_iff_disj)
qed

lemma first_remove_other:
  assumes "invar m" "first m = Some k'" "k \<noteq> k'"
  shows "first (remove k m) = Some k'"
proof (rule first_eqI)
  show "invar (remove k m)" using assms(1) by (rule invar_remove)
  show "lookup (remove k m) k' \<noteq> None"
    using assms first_Some [OF assms(1,2)] by (simp add: lookup_remove)
  show "k' \<le> k''" if "lookup (remove k m) k'' \<noteq> None" for k''
    using that assms(1) first_Some [OF assms(1,2)]
    by (simp add: lookup_remove split: if_splits)
qed

lemma first_replace:
  assumes "invar m" "lookup m k \<noteq> None"
  shows "first (insert k v m) = first m"
proof (cases "first m")
  case None
  with assms first_None show ?thesis by auto
next
  case (Some k')
  then have "k' \<le> k" using first_Some [OF assms(1) Some] assms(2) by blast
  then show ?thesis using Some by (simp add: first_insert [OF assms(1)] min_absorb2)
qed

end

lemma bt_inv_lookup: "bt_inv ((a, x) # m) \<Longrightarrow> bt_lookup m k = Some y \<Longrightarrow> a < k"
  by (induction m) (auto split: if_splits)

lemma bt_inv_fresh: "bt_inv ((a, x) # m) \<Longrightarrow> bt_lookup m a = None"
  using bt_inv_lookup by (cases "bt_lookup m a") fastforce+

lemma set_bt_insert: "set (bt_insert k v m) \<subseteq> {(k, v)} \<union> set m"
  by (induction k v m rule: bt_insert.induct) auto

lemma set_bt_remove: "set (bt_remove k m) \<subseteq> set m"
  by (induction m) (auto split: if_splits)

lemma bt_lookup_in: "bt_lookup m k = Some v \<Longrightarrow> (k, v) \<in> set m"
  by (induction m) (auto split: if_splits)

lemma bt_in_lookup: "bt_inv m \<Longrightarrow> (k, v) \<in> set m \<Longrightarrow> bt_lookup m k = Some v"
  by (induction m) auto

lemma bt_inv_insert: "bt_inv m \<Longrightarrow> bt_inv (bt_insert k v m)"
proof (induction k v m rule: bt_insert.induct)
  case (2 k v a x m)
  then show ?case using set_bt_insert [of k v m] by fastforce
qed simp

lemma bt_inv_remove: "bt_inv m \<Longrightarrow> bt_inv (bt_remove k m)"
proof (induction m)
  case (Cons p m)
  then show ?case using set_bt_remove [of k m] by (cases p) auto
qed simp

lemma bt_lookup_insert: "bt_inv m \<Longrightarrow> bt_lookup (bt_insert k v m) = (bt_lookup m)(k \<mapsto> v)"
  by (induction k v m rule: bt_insert.induct) (auto simp: fun_eq_iff)

lemma bt_lookup_remove: "bt_inv m \<Longrightarrow> bt_lookup (bt_remove k m) = (bt_lookup m)(k := None)"
proof (induction m)
  case (Cons p m)
  then show ?case using bt_inv_fresh by (cases p) (auto simp: fun_eq_iff)
qed (simp add: fun_eq_iff)

interpretation bt: ordered_map bt_lookup bt_insert bt_remove bt_first bt_inv
proof
  fix m :: "('a, 'b) btree" and k
  assume inv: "bt_inv m"
  show "bt_first m = None \<longleftrightarrow> bt_lookup m = Map.empty"
  proof (cases m)
    case (Cons p m')
    then have "bt_lookup m (fst p) \<noteq> None" by (cases p) simp
    with Cons show ?thesis by (cases p) (auto simp del: bt_lookup.simps)
  qed (simp add: fun_eq_iff)
  assume "bt_first m = Some k"
  then obtain x m' where "m = (k, x) # m'" by (cases m) auto
  moreover have "k \<le> k'" if "bt_lookup m k' \<noteq> None" for k'
    using that inv calculation bt_inv_lookup [of k x m' k']
    by (cases "k' = k") (auto intro: less_imp_le)
  ultimately show "bt_lookup m k \<noteq> None \<and> (\<forall>k'. bt_lookup m k' \<noteq> None \<longrightarrow> k \<le> k')"
    by simp
qed (simp_all add: bt_lookup_insert bt_lookup_remove bt_inv_insert bt_inv_remove)

text \<open>The first key is the head, so removing it makes the map shorter.\<close>

lemma bt_first_remove_length: "bt_first m = Some k \<Longrightarrow> length (bt_remove k m) < length m"
  by (cases m) auto

lemma bt_first_Cons: "bt_first m = Some k \<longleftrightarrow> (\<exists>x m'. m = (k, x) # m')"
  by (cases m) auto

subsection \<open>Maps into lists\<close>

text \<open>All pairs of a key and an element of its list, in key order.\<close>

definition bt_pairs :: "('k, 'a list) btree \<Rightarrow> ('k \<times> 'a) list" where
  "bt_pairs m = concat (map (\<lambda>(k, l). map (Pair k) l) m)"

lemma bt_pairs_simps [simp]:
  "bt_pairs [] = []"
  "bt_pairs ((k, l) # m) = map (Pair k) l @ bt_pairs m"
  by (simp_all add: bt_pairs_def)

lemma bt_pairs_insert:
  "bt_inv m \<Longrightarrow> mset (bt_pairs (bt_insert k l m)) =
     mset (map (Pair k) l) + mset (bt_pairs (bt_remove k m))"
proof (induction k l m rule: bt_insert.induct)
  case (2 k v a x m)
  have "bt_lookup m k = None" if "k < a"
    using that "2.prems" bt_inv_lookup [of a x m k] by (cases "bt_lookup m k") fastforce+
  then have "bt_remove k m = m" if "k < a"
    using that by (induction m) (auto split: if_splits)
  with 2 show ?case by auto
qed simp

lemma bt_pairs_lookup:
  "bt_lookup m k = Some l \<Longrightarrow>
   mset (bt_pairs m) = mset (map (Pair k) l) + mset (bt_pairs (bt_remove k m))"
  by (induction m) (auto split: if_splits)

lemma bt_remove_absent: "bt_lookup m k = None \<Longrightarrow> bt_remove k m = m"
  by (induction m) (auto split: if_splits)

lemma bt_pairs_mem: "bt_inv m \<Longrightarrow>
  (k, e) \<in> set (bt_pairs m) \<longleftrightarrow> (\<exists>l. bt_lookup m k = Some l \<and> e \<in> set l)"
proof -
  assume inv: "bt_inv m"
  have "(k, e) \<in> set (bt_pairs m) \<longleftrightarrow> (\<exists>l. (k, l) \<in> set m \<and> e \<in> set l)"
    by (auto simp: bt_pairs_def)
  also have "\<dots> \<longleftrightarrow> (\<exists>l. bt_lookup m k = Some l \<and> e \<in> set l)"
    using bt_in_lookup [OF inv] bt_lookup_in by metis
  finally show ?thesis .
qed

lemma bt_pairs_keys: "bt_inv ((a, l) # m) \<Longrightarrow> (k, e) \<in> set (bt_pairs m) \<Longrightarrow> a < k"
  by (auto simp: bt_pairs_def)

lemma bt_pairs_sorted: "bt_inv m \<Longrightarrow> sorted (map fst (bt_pairs m))"
proof (induction m)
  case (Cons p m)
  obtain k l where p: "p = (k, l)" by (cases p)
  have "sorted (map fst (map (Pair k) l))" by (induction l) auto
  moreover have "k \<le> fst x" if "x \<in> set (bt_pairs m)" for x
    using bt_pairs_keys [of k l m "fst x" "snd x"] Cons.prems p that by auto
  ultimately show ?case
    using Cons p by (auto simp: sorted_append)
qed simp

end
