(* ===== verification/Shared_U64.thy ===== *)
theory Shared_U64
  imports Prelude
begin

text \<open>
  \<open>src/src/time/internal/shared_u64.rs\<close>: the cell that publishes the next deadline of a timer
  queue. On 64-bit targets it is an \<open>AtomicU64\<close>.
\<close>

type_synonym shared_u64 = u64

definition shared_new :: shared_u64 where "shared_new = 0"

definition shared_get :: "shared_u64 \<Rightarrow> u64" where "shared_get s = s"

definition shared_load :: "shared_u64 \<Rightarrow> u64" where "shared_load s = s"

definition shared_store :: "u64 \<Rightarrow> shared_u64 \<Rightarrow> shared_u64" where "shared_store v s = v"

lemma shared_simps [simp]:
  "shared_get s = s" "shared_load s = s" "shared_store v s = v"
  by (simp_all add: shared_get_def shared_load_def shared_store_def)

end
