(* ===== verification/Timer_Queue.thy ===== *)
theory Timer_Queue
  imports Ordered_Map Shared_U64 Atomic_Waker
begin

text \<open>
  \<open>src/src/time/internal/queue.rs\<close>: the timer queue of a worker. Entries (\<open>Arc<RawEntry>\<close>)
  are names into a heap, so that the tree, the cache, an expired list and a \<open>Delay\<close> can
  share one; the operations that hold the mutex are single steps.
\<close>

subsection \<open>Time\<close>

text \<open>
  Durations and instants of the standard library, in nanoseconds; \<open>Result<Duration, Instant>\<close>
  is the sum with the instant on the left. \<open>as_millis\<close> is a 128-bit number, converted to
  \<open>u64\<close> with \<open>try_into\<close>.
\<close>

type_synonym duration = nat
type_synonym instant = nat
type_synonym delay_request = "instant + duration"

definition as_millis :: "duration \<Rightarrow> nat" where
  "as_millis d = d div 1000000"

definition try_u64 :: "nat \<Rightarrow> u64 option" where
  "try_u64 n = (if n < 2 ^ 64 then Some (of_nat n) else None)"

definition checked_add64 :: "u64 \<Rightarrow> u64 \<Rightarrow> u64 option" where
  "checked_add64 a b = (if unat a + unat b < 2 ^ 64 then Some (a + b) else None)"

definition nonzero64 :: "u64 \<Rightarrow> u64 option" where
  "nonzero64 v = (if v = 0 then None else Some v)"

definition DEADLINE_MAX :: u64 where "DEADLINE_MAX = - 1"

subsection \<open>State\<close>

type_synonym deadline = u64
type_synonym entry = nat

record 'w raw_entry =
  re_waker :: "'w atomic_waker"
  re_queued :: bool

definition raw_entry_default :: "'w raw_entry" where
  "raw_entry_default = \<lparr>re_waker = aw_new, re_queued = False\<rparr>"

record delay =
  d_deadline :: deadline
  d_entry :: entry

type_synonym 'w heap = "entry \<Rightarrow> 'w raw_entry"

text \<open>\<open>Cache<T>\<close>: \<open>None\<close> from \<open>cache_alloc\<close> stands for \<open>T::default()\<close>, made by the caller.\<close>

definition MAX_CACHED :: nat where "MAX_CACHED = 64"

definition cache_alloc :: "'a list \<Rightarrow> ('a option \<times> 'a list) res" where
  "cache_alloc cached =
     (if length cached = 0 then Inr (None, cached)
      else rbind (swap_remove cached (length cached - 1)) (\<lambda>(v, cached'). Inr (Some v, cached')))"

definition cache_free :: "'a \<Rightarrow> 'a list \<Rightarrow> 'a list" where
  "cache_free v cached = (if length cached < MAX_CACHED then cached @ [v] else cached)"

text \<open>
  \<open>Queue\<close> with its locked \<open>State\<close>. \<open>tq_heap\<close> holds the entries the queue has allocated,
  \<open>tq_next\<close> is the name of the next fresh one.
\<close>

record 'w timer_queue =
  tq_expires :: shared_u64
  tq_current :: deadline
  tq_entry_cache :: "entry list"
  tq_list_cache :: "entry list list"
  tq_tree :: "(deadline, entry list) btree"
  tq_started :: instant
  tq_heap :: "'w heap"
  tq_next :: entry

definition tq_new :: "instant \<Rightarrow> 'w timer_queue" where
  "tq_new started = \<lparr>tq_expires = shared_new, tq_current = 0, tq_entry_cache = [],
     tq_list_cache = [], tq_tree = [], tq_started = started,
     tq_heap = (\<lambda>_. raw_entry_default), tq_next = 0\<rparr>"

subsection \<open>Operations\<close>

definition tq_since :: "'w timer_queue \<Rightarrow> instant \<Rightarrow> deadline" where
  "tq_since q now =
     (if tq_started q \<le> now
      then (case try_u64 (as_millis (now - tq_started q)) of
              Some ms \<Rightarrow> ms | None \<Rightarrow> DEADLINE_MAX)
      else 0)"

definition tq_expires_at :: "'w timer_queue \<Rightarrow> deadline option" where
  "tq_expires_at q = nonzero64 (shared_load (tq_expires q))"

text \<open>Draining a list: every entry must be queued, and is not afterwards.\<close>

fun drain_entries :: "'w heap \<Rightarrow> entry list \<Rightarrow> 'w heap res" where
  "drain_entries h [] = Inr h"
| "drain_entries h (e # es) =
     rbind (rassert (re_queued (h e))) (\<lambda>_.
       drain_entries (h(e := (h e)\<lparr>re_queued := False\<rparr>)) es)"

function tq_poll_loop :: "'w timer_queue \<Rightarrow> entry list \<Rightarrow> ('w timer_queue \<times> entry list) res" where
  "tq_poll_loop q expired =
     (case bt_first (tq_tree q) of
        None \<Rightarrow> Inr (q\<lparr>tq_expires := shared_store 0 (tq_expires q)\<rparr>, expired)
      | Some deadline \<Rightarrow>
          if deadline > tq_current q
          then Inr (q\<lparr>tq_expires := shared_store deadline (tq_expires q)\<rparr>, expired)
          else rbind (unwrap (bt_lookup (tq_tree q) deadline)) (\<lambda>list.
            rbind (drain_entries (tq_heap q) list) (\<lambda>h.
              tq_poll_loop
                (q\<lparr>tq_tree := bt_remove deadline (tq_tree q), tq_heap := h,
                   tq_list_cache := cache_free [] (tq_list_cache q)\<rparr>)
                (expired @ list))))"
  by pat_completeness auto
termination
  by (relation "measure (\<lambda>(q, expired). length (tq_tree q))")
     (auto simp: bt_first_remove_length)

declare tq_poll_loop.simps [simp del]

definition tq_poll :: "'w timer_queue \<Rightarrow> deadline \<Rightarrow> entry list \<Rightarrow>
    ('w timer_queue \<times> entry list) res" where
  "tq_poll q current expired =
     tq_poll_loop (q\<lparr>tq_current := max (tq_current q) current\<rparr>) expired"

text \<open>The deadline \<open>schedule\<close> computes, given the queue's updated current time.\<close>

definition tq_deadline :: "'w timer_queue \<Rightarrow> delay_request \<Rightarrow> deadline" where
  "tq_deadline q request =
     (case request of
        Inr d \<Rightarrow>
          (case Option.bind (map_option (\<lambda>millis. max millis 1) (try_u64 (as_millis d)))
                  (\<lambda>m. checked_add64 m (tq_current q)) of
             Some v \<Rightarrow> v | None \<Rightarrow> DEADLINE_MAX)
      | Inl at \<Rightarrow> tq_since q at)"

definition tq_lower_expires :: "deadline \<Rightarrow> shared_u64 \<Rightarrow> shared_u64" where
  "tq_lower_expires deadline s =
     (case nonzero64 (shared_get s) of
        Some e \<Rightarrow> if deadline < e then shared_store deadline s else s
      | None \<Rightarrow> shared_store deadline s)"

definition tq_alloc_entry :: "'w timer_queue \<Rightarrow> (entry \<times> 'w timer_queue) res" where
  "tq_alloc_entry q =
     rbind (cache_alloc (tq_entry_cache q)) (\<lambda>(cached, c).
       Inr (case cached of
              Some e \<Rightarrow> (e, q\<lparr>tq_entry_cache := c\<rparr>)
            | None \<Rightarrow> (tq_next q,
                q\<lparr>tq_entry_cache := c, tq_next := Suc (tq_next q),
                  tq_heap := (tq_heap q)(tq_next q := raw_entry_default)\<rparr>)))"

definition tq_alloc_list :: "'w timer_queue \<Rightarrow> (entry list \<times> 'w timer_queue) res" where
  "tq_alloc_list q =
     rbind (cache_alloc (tq_list_cache q)) (\<lambda>(cached, c).
       Inr (case cached of Some l \<Rightarrow> l | None \<Rightarrow> [], q\<lparr>tq_list_cache := c\<rparr>))"

definition tq_insert :: "deadline \<Rightarrow> entry \<Rightarrow> entry list \<Rightarrow> 'w timer_queue \<Rightarrow> 'w timer_queue" where
  "tq_insert deadline e list q =
     (case bt_lookup (tq_tree q) deadline of
        Some l \<Rightarrow> q\<lparr>tq_tree := bt_insert deadline (l @ [e]) (tq_tree q),
                     tq_list_cache := cache_free list (tq_list_cache q)\<rparr>
      | None \<Rightarrow> q\<lparr>tq_tree := bt_insert deadline (list @ [e]) (tq_tree q)\<rparr>)"

definition set_queued :: "bool \<Rightarrow> entry \<Rightarrow> 'w timer_queue \<Rightarrow> 'w timer_queue" where
  "set_queued b e q = q\<lparr>tq_heap := (tq_heap q)(e := (tq_heap q e)\<lparr>re_queued := b\<rparr>)\<rparr>"

definition tq_schedule :: "'w timer_queue \<Rightarrow> instant \<Rightarrow> delay_request \<Rightarrow>
    (delay option \<times> 'w timer_queue) res" where
  "tq_schedule q now request =
     (if request = Inr 0 then Inr (None, q)
      else
        let q1 = q\<lparr>tq_current := tq_since q now\<rparr>;
            deadline = tq_deadline q1 request
        in if deadline \<le> tq_current q1 then Inr (None, q1)
           else
             let q2 = q1\<lparr>tq_expires := tq_lower_expires deadline (tq_expires q1)\<rparr>
             in rbind (tq_alloc_entry q2) (\<lambda>(e, q3).
                rbind (tq_alloc_list q3) (\<lambda>(list, q4).
                  Inr (Some \<lparr>d_deadline = deadline, d_entry = e\<rparr>,
                       set_queued True e (tq_insert deadline e list q4)))))"

text \<open>The part of \<open>complete\<close> that takes a queued entry out of the tree.\<close>

definition tq_unlink :: "deadline \<Rightarrow> entry \<Rightarrow> 'w timer_queue \<Rightarrow> 'w timer_queue res" where
  "tq_unlink deadline e q =
     (case bt_lookup (tq_tree q) deadline of
        None \<Rightarrow> Inl Unreachable
      | Some l \<Rightarrow>
          let l' = swap_remove_first e l
          in if l' = []
             then let q1 = q\<lparr>tq_tree := bt_remove deadline (tq_tree q),
                             tq_list_cache := cache_free [] (tq_list_cache q)\<rparr>
                  in rbind (unwrap (nonzero64 (shared_get (tq_expires q1)))) (\<lambda>next.
                       Inr (if next = deadline
                            then q1\<lparr>tq_expires := shared_store
                                     (case bt_first (tq_tree q1) of Some d \<Rightarrow> d | None \<Rightarrow> 0)
                                     (tq_expires q1)\<rparr>
                            else q1))
             else Inr (q\<lparr>tq_tree := bt_insert deadline l' (tq_tree q)\<rparr>))"

definition tq_complete :: "'w timer_queue \<Rightarrow> delay \<Rightarrow> 'w timer_queue res" where
  "tq_complete q d =
     rbind (if re_queued (tq_heap q (d_entry d))
            then tq_unlink (d_deadline d) (d_entry d) q else Inr q) (\<lambda>q1.
       let q2 = set_queued False (d_entry d) q1
       in Inr (q2\<lparr>tq_entry_cache := cache_free (d_entry d) (tq_entry_cache q2)\<rparr>))"

text \<open>
  \<open>Expired::process\<close> wakes every expired entry; the result lists the task wakers it
  called. \<open>tq_entry_poll\<close> and \<open>tq_entry_wake\<close> are the operations on one entry's waker.
\<close>

definition tq_entry_wake :: "'w timer_queue \<Rightarrow> entry \<Rightarrow> ('w option \<times> 'w timer_queue) res" where
  "tq_entry_wake q e =
     rbind (aw_wake (re_waker (tq_heap q e))) (\<lambda>(f, w).
       Inr (f, q\<lparr>tq_heap := (tq_heap q)(e := (tq_heap q e)\<lparr>re_waker := w\<rparr>)\<rparr>))"

definition tq_entry_poll :: "'w option \<Rightarrow> 'w timer_queue \<Rightarrow> entry \<Rightarrow>
    (unit poll \<times> 'w timer_queue) res" where
  "tq_entry_poll ctx q e =
     rbind (aw_poll ctx (re_waker (tq_heap q e))) (\<lambda>(r, w).
       Inr (r, q\<lparr>tq_heap := (tq_heap q)(e := (tq_heap q e)\<lparr>re_waker := w\<rparr>)\<rparr>))"

definition expired_pending :: "entry list \<Rightarrow> bool" where
  "expired_pending expired \<longleftrightarrow> length expired > 0"

fun expired_process :: "'w timer_queue \<Rightarrow> entry list \<Rightarrow> ('w list \<times> 'w timer_queue) res" where
  "expired_process q [] = Inr ([], q)"
| "expired_process q (e # es) =
     rbind (tq_entry_wake q e) (\<lambda>(f, q1).
       rbind (expired_process q1 es) (\<lambda>(fs, q2).
         Inr ((case f of None \<Rightarrow> [] | Some c \<Rightarrow> [c]) @ fs, q2)))"

end
