(* ===== verification/Timer_Proofs.thy ===== *)
theory Timer_Proofs
  imports Timer_Queue
begin

text \<open>
  The invariant of a timer queue relative to the live delays (those handed out by
  \<open>schedule\<close> and not yet given to \<open>complete\<close>), that every operation keeps it and does not
  panic, and what each operation does to the set of pending timers.
\<close>

subsection \<open>The invariant\<close>

abbreviation pending_timers :: "'w timer_queue \<Rightarrow> (deadline \<times> entry) list" where
  "pending_timers q \<equiv> bt_pairs (tq_tree q)"

definition earliest :: "(deadline, entry list) btree \<Rightarrow> deadline" where
  "earliest m = (case bt_first m of None \<Rightarrow> 0 | Some d \<Rightarrow> d)"

text \<open>The tree: sorted, no empty list, no deadline 0, every entry in one list.\<close>

definition tree_ok :: "(deadline, entry list) btree \<Rightarrow> bool" where
  "tree_ok m \<longleftrightarrow> bt_inv m \<and> (\<forall>(d, l) \<in> set m. l \<noteq> [] \<and> d \<noteq> 0) \<and> distinct (map snd (bt_pairs m))"

definition queued_ok :: "'w timer_queue \<Rightarrow> bool" where
  "queued_ok q \<longleftrightarrow> (\<forall>e. re_queued (tq_heap q e) \<longleftrightarrow> e \<in> snd ` set (pending_timers q))"

definition owners_ok :: "'w timer_queue \<Rightarrow> delay list \<Rightarrow> bool" where
  "owners_ok q live \<longleftrightarrow>
     distinct (tq_entry_cache q) \<and> distinct (map d_entry live) \<and>
     d_entry ` set live \<inter> set (tq_entry_cache q) = {} \<and>
     (\<forall>(d, e) \<in> set (pending_timers q). \<lparr>d_deadline = d, d_entry = e\<rparr> \<in> set live) \<and>
     (\<forall>e \<in> d_entry ` set live \<union> set (tq_entry_cache q). e < tq_next q)"

definition tq_inv :: "'w timer_queue \<Rightarrow> delay list \<Rightarrow> bool" where
  "tq_inv q live \<longleftrightarrow>
     tree_ok (tq_tree q) \<and> tq_expires q = earliest (tq_tree q) \<and> queued_ok q \<and>
     set (tq_list_cache q) \<subseteq> {[]} \<and> owners_ok q live \<and>
     (\<forall>e. aw_ok (re_waker (tq_heap q e)))"

lemma tq_inv_new: "tq_inv (tq_new started) []"
  by (simp add: tq_inv_def tq_new_def tree_ok_def earliest_def queued_ok_def owners_ok_def
      shared_new_def raw_entry_default_def)

lemma tree_ok_tail: "tree_ok ((d, l) # m) \<Longrightarrow> tree_ok m"
  by (auto simp: tree_ok_def)

lemma earliest_zero: "tree_ok m \<Longrightarrow> earliest m = 0 \<longleftrightarrow> m = []"
  by (cases m) (auto simp: earliest_def tree_ok_def)

lemma snd_bt_pairs_cons: "snd ` set (bt_pairs ((d, l) # m)) = set l \<union> snd ` set (bt_pairs m)"
  by force

subsection \<open>Caches\<close>

lemma cache_alloc_eq:
  "cache_alloc c = Inr (if c = [] then (None, []) else (Some (last c), butlast c))"
  using swap_remove_last [of c] by (simp add: cache_alloc_def)

lemma set_cache_free: "set (cache_free v c) \<subseteq> insert v (set c)"
  by (auto simp: cache_free_def)

lemma length_cache_free: "length c \<le> MAX_CACHED \<Longrightarrow> length (cache_free v c) \<le> MAX_CACHED"
  by (simp add: cache_free_def)

lemma cache_free_nil: "set c \<subseteq> {[]} \<Longrightarrow> set (cache_free [] c) \<subseteq> {[]}"
  using set_cache_free by fastforce

subsection \<open>Polling\<close>

lemma drain_entries_eq:
  "distinct es \<Longrightarrow> (\<And>e. e \<in> set es \<Longrightarrow> re_queued (h e)) \<Longrightarrow>
   drain_entries h es =
     Inr (\<lambda>e. if e \<in> set es then (h e)\<lparr>re_queued := False\<rparr> else h e)"
proof (induction es arbitrary: h)
  case Nil
  then show ?case by simp
next
  case (Cons e es)
  then have "drain_entries (h(e := (h e)\<lparr>re_queued := False\<rparr>)) es =
      Inr (\<lambda>x. if x \<in> set es then ((h(e := (h e)\<lparr>re_queued := False\<rparr>)) x)\<lparr>re_queued := False\<rparr>
               else (h(e := (h e)\<lparr>re_queued := False\<rparr>)) x)"
    by (intro Cons.IH) auto
  with Cons.prems show ?case by (auto simp: fun_eq_iff)
qed

abbreviation due :: "deadline \<Rightarrow> deadline \<times> 'a \<Rightarrow> bool" where
  "due now p \<equiv> fst p \<le> now"

lemma bt_pairs_filter:
  "bt_pairs (filter (\<lambda>p. \<not> due now p) m) = filter (\<lambda>p. \<not> due now p) (bt_pairs m)"
proof (induction m)
  case (Cons p m)
  then show ?case
    by (cases p) (simp add: filter_map comp_def bt_pairs_def filter_True filter_False)
qed simp

text \<open>The state and the expired list after the loop: everything due is taken, in order.\<close>

lemma tq_poll_loop_eq:
  assumes "tree_ok (tq_tree q)" "queued_ok q" "set (tq_list_cache q) \<subseteq> {[]}"
  shows "\<exists>c. set c \<subseteq> {[]} \<and>
    (let late = map snd (filter (due (tq_current q)) (pending_timers q));
         rest = filter (\<lambda>p. \<not> due (tq_current q) p) (tq_tree q)
     in tq_poll_loop q expired =
          Inr (q\<lparr>tq_tree := rest, tq_list_cache := c, tq_expires := earliest rest,
                 tq_heap := (\<lambda>e. if e \<in> set late then (tq_heap q e)\<lparr>re_queued := False\<rparr>
                                 else tq_heap q e)\<rparr>, expired @ late))"
  using assms
proof (induction "tq_tree q" arbitrary: q expired)
  case Nil
  from Nil(1) [symmetric] Nil(4) show ?case
    by (intro exI [where x = "tq_list_cache q"])
       (simp add: tq_poll_loop.simps [of q] earliest_def)
next
  case (Cons p m)
  obtain d l where p: "p = (d, l)" by (cases p)
  have tree: "tq_tree q = (d, l) # m" using Cons.hyps(2) p by simp
  have inv: "bt_inv ((d, l) # m)" using Cons.prems(1) tree by (simp add: tree_ok_def)
  show ?case
  proof (cases "tq_current q < d")
    case True
    have "\<forall>x \<in> set (tq_tree q). \<not> due (tq_current q) x"
      using inv True tree by force
    moreover have "\<forall>x \<in> set (pending_timers q). \<not> due (tq_current q) x"
      using True bt_pairs_keys [OF inv] tree by fastforce
    ultimately have "filter (due (tq_current q)) (pending_timers q) = []"
      and "filter (\<lambda>p. \<not> due (tq_current q) p) (tq_tree q) = tq_tree q"
      by (simp_all only: filter_False filter_True not_not simp_thms)
    then show ?thesis
      using True tree Cons.prems(3)
      by (intro exI [where x = "tq_list_cache q"])
         (simp add: tq_poll_loop.simps [of q] earliest_def)
  next
    case False
    let ?h = "\<lambda>e. if e \<in> set l then (tq_heap q e)\<lparr>re_queued := False\<rparr> else tq_heap q e"
    let ?q = "q\<lparr>tq_tree := m, tq_heap := ?h, tq_list_cache := cache_free [] (tq_list_cache q)\<rparr>"
    have dis: "distinct l" "set l \<inter> snd ` set (bt_pairs m) = {}"
      using Cons.prems(1) tree by (auto simp: tree_ok_def comp_def)
    have queued: "re_queued (tq_heap q e)" if "e \<in> set l" for e
      using Cons.prems(2) that tree snd_bt_pairs_cons [of d l m] by (simp add: queued_ok_def)
    have step: "tq_poll_loop q expired = tq_poll_loop ?q (expired @ l)"
      using tree False
      by (simp add: tq_poll_loop.simps [of q] drain_entries_eq [OF dis(1) queued])
    have "tree_ok (tq_tree ?q)" using Cons.prems(1) tree tree_ok_tail by auto
    moreover have "queued_ok ?q"
      using Cons.prems(2) dis(2) tree snd_bt_pairs_cons [of d l m]
      by (auto simp: queued_ok_def)
    moreover have "set (tq_list_cache ?q) \<subseteq> {[]}"
      using cache_free_nil [OF Cons.prems(3)] by simp
    ultimately obtain c where c: "set c \<subseteq> {[]}" and
      ih: "let late = map snd (filter (due (tq_current ?q)) (pending_timers ?q));
         rest = filter (\<lambda>p. \<not> due (tq_current ?q) p) (tq_tree ?q)
     in tq_poll_loop ?q (expired @ l) =
          Inr (?q\<lparr>tq_tree := rest, tq_list_cache := c, tq_expires := earliest rest,
                 tq_heap := (\<lambda>e. if e \<in> set late then (tq_heap ?q e)\<lparr>re_queued := False\<rparr>
                                 else tq_heap ?q e)\<rparr>, (expired @ l) @ late)"
      using Cons.hyps(1) [of ?q "expired @ l"] by auto
    have all: "filter (due (tq_current q)) (map (Pair d) l) = map (Pair d) l"
      using False by (auto simp: filter_id_conv)
    show ?thesis
      using c ih step tree False all
      by (intro exI [where x = c]) (auto simp: Let_def comp_def fun_eq_iff)
  qed
qed

subsection \<open>Trees that change at one deadline\<close>

lemma tree_ok_mset:
  assumes "bt_inv m" "\<forall>(d, l) \<in> set m. l \<noteq> [] \<and> d \<noteq> 0"
    "mset (bt_pairs m) = mset ps" "distinct (map snd ps)"
  shows "tree_ok m"
proof -
  have "mset (map snd (bt_pairs m)) = mset (map snd ps)" using assms(3) by simp
  with assms(4) have "distinct (map snd (bt_pairs m))" by (metis mset_eq_imp_distinct_iff)
  with assms(1,2) show ?thesis by (simp add: tree_ok_def)
qed

lemma tree_entries:
  "tree_ok m \<Longrightarrow> \<forall>(d, l) \<in> set (bt_remove k m). l \<noteq> [] \<and> d \<noteq> 0"
  using set_bt_remove by (fastforce simp: tree_ok_def)

lemma tree_insert_entries:
  "tree_ok m \<Longrightarrow> k \<noteq> 0 \<Longrightarrow> v \<noteq> [] \<Longrightarrow> \<forall>(d, l) \<in> set (bt_insert k v m). l \<noteq> [] \<and> d \<noteq> 0"
  using set_bt_insert [of k v m] by (fastforce simp: tree_ok_def)

lemma bt_pairs_push:
  assumes "bt_inv m"
  shows "mset (bt_pairs (bt_insert d ((case bt_lookup m d of Some l \<Rightarrow> l | None \<Rightarrow> []) @ [e]) m)) =
         add_mset (d, e) (mset (bt_pairs m))"
proof (cases "bt_lookup m d")
  case None
  then show ?thesis using assms by (simp add: bt_pairs_insert bt_remove_absent)
next
  case (Some l)
  then show ?thesis using assms bt_pairs_lookup [OF Some] by (simp add: bt_pairs_insert)
qed

lemma tree_push:
  assumes ok: "tree_ok m" and d: "d \<noteq> 0" and e: "e \<notin> snd ` set (bt_pairs m)"
  defines "m' \<equiv> bt_insert d ((case bt_lookup m d of Some l \<Rightarrow> l | None \<Rightarrow> []) @ [e]) m"
  shows "tree_ok m'" "mset (bt_pairs m') = add_mset (d, e) (mset (bt_pairs m))"
    "earliest m' = (if earliest m = 0 then d else min d (earliest m))"
proof -
  have inv: "bt_inv m" using ok by (simp add: tree_ok_def)
  show ms: "mset (bt_pairs m') = add_mset (d, e) (mset (bt_pairs m))"
    unfolding m'_def by (rule bt_pairs_push [OF inv])
  show "tree_ok m'"
  proof (rule tree_ok_mset)
    show "mset (bt_pairs m') = mset ((d, e) # bt_pairs m)" using ms by simp
    show "distinct (map snd ((d, e) # bt_pairs m))" using ok e by (auto simp: tree_ok_def)
    show "bt_inv m'" unfolding m'_def by (rule bt_inv_insert [OF inv])
    show "\<forall>(d, l) \<in> set m'. l \<noteq> [] \<and> d \<noteq> 0"
      unfolding m'_def by (rule tree_insert_entries [OF ok d]) simp
  qed
  show "earliest m' = (if earliest m = 0 then d else min d (earliest m))"
  proof (cases "bt_first m")
    case None
    then show ?thesis unfolding m'_def earliest_def bt.first_insert [OF inv] by simp
  next
    case (Some k)
    then have "k \<noteq> 0" using ok bt_first_Cons [of m k] by (auto simp: tree_ok_def)
    with Some show ?thesis unfolding m'_def earliest_def bt.first_insert [OF inv] by simp
  qed
qed

lemma tree_drop:
  assumes ok: "tree_ok m" and l: "bt_lookup m d = Some l" and e: "e \<in> set l"
  defines "l' \<equiv> swap_remove_first e l"
  defines "m' \<equiv> if l' = [] then bt_remove d m else bt_insert d l' m"
  shows "tree_ok m'" "add_mset (d, e) (mset (bt_pairs m')) = mset (bt_pairs m)"
    "earliest m' = (if l' = [] \<and> earliest m = d then earliest (bt_remove d m) else earliest m)"
proof -
  have inv: "bt_inv m" using ok by (simp add: tree_ok_def)
  have "mset l = add_mset e (mset l')"
    unfolding l'_def by (rule swap_remove_first_mset [OF e])
  then show ms: "add_mset (d, e) (mset (bt_pairs m')) = mset (bt_pairs m)"
    using bt_pairs_lookup [OF l] bt_pairs_insert [OF inv, of d l'] by (simp add: m'_def)
  have d0: "d \<noteq> 0" using ok bt_lookup_in [OF l] by (auto simp: tree_ok_def)
  show "tree_ok m'"
  proof -
    have "mset (map snd ((d, e) # bt_pairs m')) = mset (map snd (bt_pairs m))"
      using ms by (metis mset.simps(2) mset_map)
    moreover have "distinct (map snd (bt_pairs m))" using ok by (simp add: tree_ok_def)
    ultimately have "distinct (map snd ((d, e) # bt_pairs m'))"
      by (metis mset_eq_imp_distinct_iff)
    then have "distinct (map snd (bt_pairs m'))" by simp
    moreover have "bt_inv m'" using inv by (simp add: m'_def bt_inv_remove bt_inv_insert)
    moreover have "\<forall>(d, l) \<in> set m'. l \<noteq> [] \<and> d \<noteq> 0"
      using tree_entries [OF ok] tree_insert_entries [OF ok d0] by (simp add: m'_def)
    ultimately show ?thesis by (simp add: tree_ok_def)
  qed
  have "earliest (bt_remove d m) = earliest m" if "earliest m \<noteq> d"
  proof (cases "bt_first m")
    case None
    then show ?thesis using l by (cases m) auto
  next
    case (Some k)
    with that show ?thesis using bt.first_remove_other [OF inv Some] by (simp add: earliest_def)
  qed
  moreover have "earliest (bt_insert d l' m) = earliest m"
    using bt.first_replace [OF inv, of d l'] l by (simp add: earliest_def)
  ultimately show
    "earliest m' = (if l' = [] \<and> earliest m = d then earliest (bt_remove d m) else earliest m)"
    by (auto simp: m'_def)
qed

subsection \<open>The operations keep the invariant\<close>

text \<open>Consequences of a pending list that gained or lost one timer.\<close>

lemma owners_fresh:
  assumes "tq_inv q live" "e \<notin> d_entry ` set live"
  shows "e \<notin> snd ` set (pending_timers q)"
proof
  assume "e \<in> snd ` set (pending_timers q)"
  then obtain k where "(k, e) \<in> set (pending_timers q)" by auto
  then have "\<lparr>d_deadline = k, d_entry = e\<rparr> \<in> set live"
    using assms(1) by (auto simp: tq_inv_def owners_ok_def)
  then have "e \<in> d_entry ` set live" by (metis delay.select_convs(2) imageI)
  with assms(2) show False ..
qed

lemma owners_deadline:
  assumes "tq_inv q live" "d \<in> set live" "d_entry d \<in> snd ` set (pending_timers q)"
  shows "(d_deadline d, d_entry d) \<in> set (pending_timers q)"
proof -
  from assms(3) obtain k where k: "(k, d_entry d) \<in> set (pending_timers q)" by auto
  then have "\<lparr>d_deadline = k, d_entry = d_entry d\<rparr> \<in> set live"
    using assms(1) by (auto simp: tq_inv_def owners_ok_def)
  moreover have "inj_on d_entry (set live)"
    using assms(1) by (simp add: tq_inv_def owners_ok_def distinct_map)
  ultimately have "\<lparr>d_deadline = k, d_entry = d_entry d\<rparr> = d"
    using assms(2) inj_onD [of d_entry "set live" "\<lparr>d_deadline = k, d_entry = d_entry d\<rparr>" d] by simp
  then have "d_deadline d = k" by (metis delay.select_convs(1))
  with k show ?thesis by simp
qed

lemma tq_poll_ok:
  fixes current :: deadline
  assumes inv: "tq_inv q live"
  defines "now \<equiv> max (tq_current q) current"
  shows "\<exists>q'. tq_poll q current expired =
             Inr (q', expired @ map snd (filter (due now) (pending_timers q))) \<and>
           pending_timers q' = filter (\<lambda>p. \<not> due now p) (pending_timers q) \<and>
           tq_current q' = now \<and> tq_inv q' live \<and> tq_started q' = tq_started q \<and>
           (\<forall>x. re_waker (tq_heap q' x) = re_waker (tq_heap q x))"
proof -
  let ?q = "q\<lparr>tq_current := now\<rparr>"
  have tree: "tree_ok (tq_tree q)" and own: "owners_ok q live" and que: "queued_ok q"
    using inv by (simp_all add: tq_inv_def)
  have "tree_ok (tq_tree ?q)" "queued_ok ?q" "set (tq_list_cache ?q) \<subseteq> {[]}"
    using inv by (simp_all add: tq_inv_def queued_ok_def)
  from tq_poll_loop_eq [OF this, of expired] obtain c where c: "set c \<subseteq> {[]}"
    and eq: "tq_poll_loop ?q expired =
      Inr (?q\<lparr>tq_tree := filter (\<lambda>p. \<not> due now p) (tq_tree q), tq_list_cache := c,
        tq_expires := earliest (filter (\<lambda>p. \<not> due now p) (tq_tree q)),
        tq_heap := (\<lambda>e. if e \<in> set (map snd (filter (due now) (pending_timers q)))
                        then (tq_heap q e)\<lparr>re_queued := False\<rparr> else tq_heap q e)\<rparr>,
       expired @ map snd (filter (due now) (pending_timers q)))" (is "_ = Inr (?q', _)")
    by (auto simp: Let_def cong: if_cong)
  let ?pend = "pending_timers q"
  have pend: "pending_timers ?q' = filter (\<lambda>p. \<not> due now p) ?pend"
    by (simp add: bt_pairs_filter)
  have dist: "distinct (map snd ?pend)" using tree by (simp add: tree_ok_def)
  have "bt_inv (filter P m)" if "bt_inv m" for P and m :: "(deadline, entry list) btree"
    using that by (induction m) auto
  then have t: "tree_ok (tq_tree ?q')"
    using tree pend dist by (auto simp: tree_ok_def distinct_map_filter)
  have qd: "queued_ok ?q'"
  proof -
    have "e \<in> snd ` set (filter (\<lambda>p. \<not> due now p) ?pend) \<longleftrightarrow>
        e \<in> snd ` set ?pend \<and> e \<notin> snd ` set (filter (due now) ?pend)" for e
      using dist by (auto simp: distinct_map dest: inj_onD)
    then show ?thesis using que pend unfolding queued_ok_def by simp
  qed
  have "owners_ok ?q' live"
    using own pend by (auto simp: owners_ok_def)
  then have "tq_inv ?q' live"
    using inv t qd c by (simp add: tq_inv_def)
  then show ?thesis
    using eq pend by (intro exI [where x = ?q']) (simp add: tq_poll_def now_def)
qed

lemma set_queued_frame [simp]:
  "tq_tree (set_queued b e q) = tq_tree q" "tq_expires (set_queued b e q) = tq_expires q"
  "tq_list_cache (set_queued b e q) = tq_list_cache q"
  "tq_entry_cache (set_queued b e q) = tq_entry_cache q" "tq_next (set_queued b e q) = tq_next q"
  "tq_current (set_queued b e q) = tq_current q" "tq_started (set_queued b e q) = tq_started q"
  "re_waker (tq_heap (set_queued b e q) x) = re_waker (tq_heap q x)"
  "re_queued (tq_heap (set_queued b e q) x) = (if x = e then b else re_queued (tq_heap q x))"
  by (simp_all add: set_queued_def)

text \<open>Allocating an entry: a cached one or a fresh one, in either case not owned.\<close>

lemma tq_alloc_entry_ok:
  assumes inv: "tq_inv q live"
  obtains e q' where "tq_alloc_entry q = Inr (e, q')"
    "tq_tree q' = tq_tree q" "tq_expires q' = tq_expires q" "tq_list_cache q' = tq_list_cache q"
    "tq_current q' = tq_current q" "tq_started q' = tq_started q"
    "set (tq_entry_cache q') = set (tq_entry_cache q) - {e}" "distinct (tq_entry_cache q')"
    "e \<notin> d_entry ` set live" "e < tq_next q'" "tq_next q \<le> tq_next q'"
    "queued_ok q'" "\<forall>x. aw_ok (re_waker (tq_heap q' x))"
    "tq_entry_cache q \<noteq> [] \<Longrightarrow> e = last (tq_entry_cache q) \<and> tq_heap q' = tq_heap q"
    "tq_entry_cache q = [] \<Longrightarrow> re_waker (tq_heap q' e) = aw_new"
    "\<And>x. x \<noteq> e \<Longrightarrow> tq_heap q' x = tq_heap q x"
proof (cases "tq_entry_cache q = []")
  case True
  let ?e = "tq_next q"
  let ?q = "q\<lparr>tq_entry_cache := [], tq_next := Suc ?e,
               tq_heap := (tq_heap q)(?e := raw_entry_default)\<rparr>"
  have fresh: "?e \<notin> d_entry ` set live"
    using inv by (auto simp: tq_inv_def owners_ok_def)
  have "queued_ok ?q"
    using inv owners_fresh [OF inv fresh]
    by (auto simp: tq_inv_def queued_ok_def raw_entry_default_def)
  moreover have "\<forall>x. aw_ok (re_waker (tq_heap ?q x))"
    using inv by (simp add: tq_inv_def raw_entry_default_def)
  moreover have "tq_alloc_entry q = Inr (?e, ?q)"
    using True by (simp add: tq_alloc_entry_def cache_alloc_eq)
  ultimately show ?thesis
    using that [of ?e ?q] True fresh by (simp add: raw_entry_default_def)
next
  case False
  let ?e = "last (tq_entry_cache q)"
  let ?q = "q\<lparr>tq_entry_cache := butlast (tq_entry_cache q)\<rparr>"
  have c: "tq_entry_cache q = butlast (tq_entry_cache q) @ [?e]" using False by simp
  have d: "distinct (butlast (tq_entry_cache q) @ [?e])"
    using inv False by (simp add: tq_inv_def owners_ok_def)
  then have "set (tq_entry_cache ?q) = set (tq_entry_cache q) - {?e}"
    by (subst (2) c) auto
  moreover have "?e \<notin> d_entry ` set live" "?e < tq_next q"
    using inv last_in_set [OF False] unfolding tq_inv_def owners_ok_def by blast+
  moreover have "queued_ok ?q" "\<forall>x. aw_ok (re_waker (tq_heap ?q x))"
    using inv by (simp_all add: tq_inv_def queued_ok_def)
  moreover have "tq_alloc_entry q = Inr (?e, ?q)"
    using False by (simp add: tq_alloc_entry_def cache_alloc_eq)
  ultimately show ?thesis
    using that [of ?e ?q] False d by (simp add: distinct_butlast)
qed

lemma tq_alloc_list_ok:
  assumes "set (tq_list_cache q) \<subseteq> {[]}"
  obtains c where "tq_alloc_list q = Inr ([], q\<lparr>tq_list_cache := c\<rparr>)" "set c \<subseteq> {[]}"
proof (cases "tq_list_cache q = []")
  case True
  then show ?thesis using that [of "[]"] by (simp add: tq_alloc_list_def cache_alloc_eq)
next
  case False
  then have "last (tq_list_cache q) = []" using assms last_in_set [OF False] by blast
  moreover have "set (butlast (tq_list_cache q)) \<subseteq> {[]}"
    using assms in_set_butlastD by fastforce
  ultimately show ?thesis
    using that [of "butlast (tq_list_cache q)"] False
    by (simp add: tq_alloc_list_def cache_alloc_eq)
qed

lemma set_append_pair:
  "mset ps' = add_mset (d, e) (mset ps) \<Longrightarrow>
   set ps' = insert (d, e) (set ps) \<and> snd ` set ps' = insert e (snd ` set ps)"
proof -
  assume "mset ps' = add_mset (d, e) (mset ps)"
  then have "set_mset (mset ps') = set_mset (add_mset (d, e) (mset ps))" by simp
  then show ?thesis by simp
qed

lemma tq_lower_expires_eq:
  "tq_lower_expires d x = (if x = 0 then d else min d x)"
  by (auto simp: tq_lower_expires_def nonzero64_def min_def)

lemma tq_insert_eq:
  assumes "set (tq_list_cache q) \<subseteq> {[]}"
  obtains c where "set c \<subseteq> {[]}" "tq_insert d e [] q = q\<lparr>tq_list_cache := c,
     tq_tree := bt_insert d ((case bt_lookup (tq_tree q) d of Some l \<Rightarrow> l | None \<Rightarrow> []) @ [e]) (tq_tree q)\<rparr>"
proof (cases "bt_lookup (tq_tree q) d")
  case None
  then show ?thesis using that [of "tq_list_cache q"] assms by (simp add: tq_insert_def)
next
  case (Some l)
  then show ?thesis
    using that [of "cache_free [] (tq_list_cache q)"] cache_free_nil [OF assms]
    by (simp add: tq_insert_def)
qed

text \<open>Everything from the lowering of \<open>expires\<close> to the end of \<open>schedule\<close>.\<close>

definition tq_add :: "deadline \<Rightarrow> 'w timer_queue \<Rightarrow> (delay option \<times> 'w timer_queue) res" where
  "tq_add deadline q1 =
     (let q2 = q1\<lparr>tq_expires := tq_lower_expires deadline (tq_expires q1)\<rparr>
      in rbind (tq_alloc_entry q2) (\<lambda>(e, q3).
         rbind (tq_alloc_list q3) (\<lambda>(list, q4).
           Inr (Some \<lparr>d_deadline = deadline, d_entry = e\<rparr>,
                set_queued True e (tq_insert deadline e list q4)))))"

lemma tq_alloc_expires:
  "tq_alloc_entry (q\<lparr>tq_expires := x\<rparr>) =
     rbind (tq_alloc_entry q) (\<lambda>(e, q'). Inr (e, q'\<lparr>tq_expires := x\<rparr>))"
  by (simp add: tq_alloc_entry_def cache_alloc_eq)

lemma owners_push:
  assumes "owners_ok q live" "set (tq_entry_cache q3) = set (tq_entry_cache q) - {e}"
    "distinct (tq_entry_cache q3)" "e \<notin> d_entry ` set live"
    "tq_entry_cache q' = tq_entry_cache q3" "e < tq_next q'" "tq_next q \<le> tq_next q'"
    "set (pending_timers q') = insert (d, e) (set (pending_timers q))"
  shows "owners_ok q' (\<lparr>d_deadline = d, d_entry = e\<rparr> # live)"
proof -
  have dis: "d_entry ` set live \<inter> set (tq_entry_cache q) = {}"
    and live: "distinct (map d_entry live)"
    and pend: "\<forall>(d, e) \<in> set (pending_timers q). \<lparr>d_deadline = d, d_entry = e\<rparr> \<in> set live"
    and bound: "\<forall>e \<in> d_entry ` set live \<union> set (tq_entry_cache q). e < tq_next q"
    using assms(1) by (simp_all add: owners_ok_def)
  have "d_entry ` set (\<lparr>d_deadline = d, d_entry = e\<rparr> # live) \<inter> set (tq_entry_cache q') = {}"
    using dis assms(2,5) by auto
  moreover have "distinct (map d_entry (\<lparr>d_deadline = d, d_entry = e\<rparr> # live))"
    using live assms(4) by simp
  moreover have "\<forall>(d', e') \<in> set (pending_timers q'). \<lparr>d_deadline = d', d_entry = e'\<rparr> \<in>
      set (\<lparr>d_deadline = d, d_entry = e\<rparr> # live)"
    using pend assms(8) by auto
  moreover have "\<forall>x \<in> d_entry ` set (\<lparr>d_deadline = d, d_entry = e\<rparr> # live) \<union>
      set (tq_entry_cache q'). x < tq_next q'"
    using bound assms(2,5,6,7) by (auto intro: less_le_trans)
  ultimately show ?thesis using assms(3,5) unfolding owners_ok_def by simp
qed

lemma tq_add_ok:
  assumes inv: "tq_inv q live" and d0: "d \<noteq> 0"
  obtains e q' where "tq_add d q = Inr (Some \<lparr>d_deadline = d, d_entry = e\<rparr>, q')"
    "tq_inv q' (\<lparr>d_deadline = d, d_entry = e\<rparr> # live)"
    "mset (pending_timers q') = add_mset (d, e) (mset (pending_timers q))"
    "e \<notin> d_entry ` set live" "tq_current q' = tq_current q" "tq_started q' = tq_started q"
    "tq_entry_cache q \<noteq> [] \<Longrightarrow> e = last (tq_entry_cache q) \<and>
       re_waker (tq_heap q' e) = re_waker (tq_heap q e)"
    "tq_entry_cache q = [] \<Longrightarrow> re_waker (tq_heap q' e) = aw_new"
    "\<And>x. x \<noteq> e \<Longrightarrow> re_waker (tq_heap q' x) = re_waker (tq_heap q x)"
proof -
  obtain e q3 where a: "tq_alloc_entry q = Inr (e, q3)"
    and f: "tq_tree q3 = tq_tree q" "tq_expires q3 = tq_expires q" "tq_list_cache q3 = tq_list_cache q"
      "tq_current q3 = tq_current q" "tq_started q3 = tq_started q"
    and c: "set (tq_entry_cache q3) = set (tq_entry_cache q) - {e}" "distinct (tq_entry_cache q3)"
    and fresh: "e \<notin> d_entry ` set live" "e < tq_next q3" "tq_next q \<le> tq_next q3"
    and h: "queued_ok q3" "\<forall>x. aw_ok (re_waker (tq_heap q3 x))"
    and old: "tq_entry_cache q \<noteq> [] \<Longrightarrow> e = last (tq_entry_cache q) \<and> tq_heap q3 = tq_heap q"
    and new: "tq_entry_cache q = [] \<Longrightarrow> re_waker (tq_heap q3 e) = aw_new"
    and other: "\<And>x. x \<noteq> e \<Longrightarrow> tq_heap q3 x = tq_heap q x"
    by (rule tq_alloc_entry_ok [OF inv]) (rule that)
  let ?x = "tq_lower_expires d (tq_expires q)"
  have lc: "set (tq_list_cache (q3\<lparr>tq_expires := ?x\<rparr>)) \<subseteq> {[]}"
    using inv f by (simp add: tq_inv_def)
  from tq_alloc_list_ok [OF lc] obtain c1 where
    l: "tq_alloc_list (q3\<lparr>tq_expires := ?x\<rparr>) = Inr ([], q3\<lparr>tq_expires := ?x, tq_list_cache := c1\<rparr>)"
    and c1: "set c1 \<subseteq> {[]}" by auto
  let ?q4 = "q3\<lparr>tq_expires := ?x, tq_list_cache := c1\<rparr>"
  let ?m = "bt_insert d ((case bt_lookup (tq_tree q) d of Some l \<Rightarrow> l | None \<Rightarrow> []) @ [e]) (tq_tree q)"
  from tq_insert_eq [of ?q4 d e] c1 f obtain c2 where c2: "set c2 \<subseteq> {[]}"
    and i: "tq_insert d e [] ?q4 = ?q4\<lparr>tq_list_cache := c2, tq_tree := ?m\<rparr>" by auto
  let ?q' = "set_queued True e (?q4\<lparr>tq_list_cache := c2, tq_tree := ?m\<rparr>)"
  let ?d = "\<lparr>d_deadline = d, d_entry = e\<rparr>"
  have eq: "tq_add d q = Inr (Some ?d, ?q')"
    by (simp add: tq_add_def tq_alloc_expires a l i)
  have tree: "tree_ok (tq_tree q)" and exp: "tq_expires q = earliest (tq_tree q)"
    using inv by (simp_all add: tq_inv_def)
  note push = tree_push [OF tree d0 owners_fresh [OF inv fresh(1)]]
  note ps = set_append_pair [OF push(2)]
  have "tq_expires ?q' = earliest ?m"
    using exp push(3) by (simp add: tq_lower_expires_eq)
  moreover have "queued_ok ?q'"
    using h(1) f ps by (auto simp: queued_ok_def)
  moreover have "owners_ok ?q' (?d # live)"
    by (rule owners_push [OF _ c(1,2) fresh(1)])
       (use inv f ps fresh in \<open>simp_all add: tq_inv_def\<close>)
  ultimately have "tq_inv ?q' (?d # live)"
    using push(1) c2 h(2) by (simp add: tq_inv_def)
  then show ?thesis
    using that [of e ?q'] eq push(2) fresh(1) f old new other by simp
qed

lemma tq_schedule_eq:
  "tq_schedule q now request =
     (let q1 = q\<lparr>tq_current := tq_since q now\<rparr>
      in if request = Inr 0 then Inr (None, q)
         else if tq_deadline q1 request \<le> tq_current q1 then Inr (None, q1)
         else tq_add (tq_deadline q1 request) q1)"
  by (simp add: tq_schedule_def tq_add_def Let_def)

lemma tq_inv_current [simp]: "tq_inv (q\<lparr>tq_current := x\<rparr>) live = tq_inv q live"
  by (simp add: tq_inv_def queued_ok_def owners_ok_def)

lemma tq_inv_expires:
  "tq_inv q live \<Longrightarrow> tq_expires q = (case bt_first (tq_tree q) of None \<Rightarrow> 0 | Some d \<Rightarrow> d)"
  by (simp add: tq_inv_def earliest_def)

subsection \<open>Completing a delay\<close>

lemma cache_free_distinct: "distinct c \<Longrightarrow> v \<notin> set c \<Longrightarrow> distinct (cache_free v c)"
  by (simp add: cache_free_def)

lemma owners_drop:
  assumes "owners_ok q live" "d \<in> set live"
    "tq_entry_cache q' = cache_free (d_entry d) (tq_entry_cache q)" "tq_next q' = tq_next q"
    "set (pending_timers q') \<subseteq> set (pending_timers q)"
    "d_entry d \<notin> snd ` set (pending_timers q')"
  shows "owners_ok q' (remove1 d live)"
proof -
  have dis: "d_entry ` set live \<inter> set (tq_entry_cache q) = {}"
    and live: "distinct (map d_entry live)"
    and cache: "distinct (tq_entry_cache q)"
    and pend: "\<forall>(d, e) \<in> set (pending_timers q). \<lparr>d_deadline = d, d_entry = e\<rparr> \<in> set live"
    and bound: "\<forall>e \<in> d_entry ` set live \<union> set (tq_entry_cache q). e < tq_next q"
    using assms(1) by (simp_all add: owners_ok_def)
  have inj: "inj_on d_entry (set live)" and dl: "distinct live"
    using live by (simp_all add: distinct_map)
  have rest: "d_entry ` set (remove1 d live) = d_entry ` set live - {d_entry d}"
    using inj_on_image_set_diff [OF inj, of "set live" "{d}"] assms(2) dl by simp
  have fresh: "d_entry d \<notin> set (tq_entry_cache q)" using dis assms(2) by blast
  have cset: "set (tq_entry_cache q') \<subseteq> insert (d_entry d) (set (tq_entry_cache q))"
    using set_cache_free assms(3) by simp
  have "distinct (map d_entry (remove1 d live))"
    using inj dl by (simp add: distinct_map inj_on_diff)
  moreover have "d_entry ` set (remove1 d live) \<inter> set (tq_entry_cache q') = {}"
    unfolding rest using cset dis by blast
  moreover have "\<forall>(k, e) \<in> set (pending_timers q').
      \<lparr>d_deadline = k, d_entry = e\<rparr> \<in> set (remove1 d live)"
  proof clarify
    fix k e assume ke: "(k, e) \<in> set (pending_timers q')"
    then have "\<lparr>d_deadline = k, d_entry = e\<rparr> \<in> set live" using assms(5) pend by blast
    moreover have "e \<noteq> d_entry d" using assms(6) ke by force
    ultimately show "\<lparr>d_deadline = k, d_entry = e\<rparr> \<in> set (remove1 d live)"
      using dl by auto
  qed
  moreover have "\<forall>e \<in> d_entry ` set (remove1 d live) \<union> set (tq_entry_cache q'). e < tq_next q'"
    unfolding rest assms(4) using bound assms(2) cset by blast
  moreover have "distinct (tq_entry_cache q')"
    using cache_free_distinct [OF cache fresh] assms(3) by simp
  ultimately show ?thesis unfolding owners_ok_def by blast
qed

lemma tq_unlink_ok:
  assumes inv: "tq_inv q live" and m: "(k, e) \<in> set (pending_timers q)"
  obtains t c where
    "tq_unlink k e q = Inr (q\<lparr>tq_tree := t, tq_list_cache := c, tq_expires := earliest t\<rparr>)"
    "set c \<subseteq> {[]}" "tree_ok t" "add_mset (k, e) (mset (bt_pairs t)) = mset (pending_timers q)"
proof -
  have ok: "tree_ok (tq_tree q)" and ex: "tq_expires q = earliest (tq_tree q)"
    and lc: "set (tq_list_cache q) \<subseteq> {[]}"
    using inv by (simp_all add: tq_inv_def)
  have binv: "bt_inv (tq_tree q)" using ok by (simp add: tree_ok_def)
  from m obtain l where l: "bt_lookup (tq_tree q) k = Some l" and e: "e \<in> set l"
    using bt_pairs_mem [OF binv] by auto
  have ne: "tq_expires q \<noteq> 0" using ex earliest_zero [OF ok] l by auto
  let ?l = "swap_remove_first e l"
  note drop = tree_drop [OF ok l e]
  show ?thesis
  proof (cases "?l = []")
    case True
    let ?t = "bt_remove k (tq_tree q)"
    have "tq_unlink k e q =
        Inr (q\<lparr>tq_tree := ?t, tq_list_cache := cache_free [] (tq_list_cache q),
          tq_expires := earliest ?t\<rparr>)"
      using True l ne ex drop(3)
      by (cases "earliest (tq_tree q) = k")
         (simp_all add: tq_unlink_def nonzero64_def Let_def earliest_def [of ?t, symmetric])
    then show ?thesis
      using that [of ?t] cache_free_nil [OF lc] drop(1,2) True by simp
  next
    case False
    let ?t = "bt_insert k ?l (tq_tree q)"
    have "earliest ?t = tq_expires q" using False drop(3) ex by simp
    then have "tq_unlink k e q =
        Inr (q\<lparr>tq_tree := ?t, tq_list_cache := tq_list_cache q, tq_expires := earliest ?t\<rparr>)"
      using False l by (simp add: tq_unlink_def)
    then show ?thesis by (rule that) (use lc drop(1,2) False in simp_all)
  qed
qed

lemma tq_complete_ok:
  assumes inv: "tq_inv q live" and d: "d \<in> set live"
  obtains q' where "tq_complete q d = Inr q'" "tq_inv q' (remove1 d live)"
    "mset (pending_timers q') = mset (pending_timers q) - {#(d_deadline d, d_entry d)#}"
    "tq_current q' = tq_current q" "tq_started q' = tq_started q"
    "tq_entry_cache q' = cache_free (d_entry d) (tq_entry_cache q)"
    "\<And>x. re_waker (tq_heap q' x) = re_waker (tq_heap q x)"
proof -
  let ?k = "d_deadline d" and ?e = "d_entry d"
  have own: "owners_ok q live" and wk: "\<forall>x. aw_ok (re_waker (tq_heap q x))"
    and que: "queued_ok q"
    using inv by (simp_all add: tq_inv_def)
  have eqv: "re_queued (tq_heap q ?e) \<longleftrightarrow> (?k, ?e) \<in> set (pending_timers q)"
    using que owners_deadline [OF inv d] by (force simp: queued_ok_def)
  have dist: "distinct (map snd (pending_timers q))" using inv by (simp add: tq_inv_def tree_ok_def)
  obtain t c where u: "(if re_queued (tq_heap q ?e) then tq_unlink ?k ?e q else Inr q) =
      Inr (q\<lparr>tq_tree := t, tq_list_cache := c, tq_expires := earliest t\<rparr>)"
    and c: "set c \<subseteq> {[]}" and t: "tree_ok t"
    and ms: "mset (bt_pairs t) = mset (pending_timers q) - {#(?k, ?e)#}"
    and gone: "?e \<notin> snd ` set (bt_pairs t)"
  proof (cases "re_queued (tq_heap q ?e)")
    case True
    then have m: "(?k, ?e) \<in> set (pending_timers q)" using eqv by simp
    from tq_unlink_ok [OF inv m] obtain t c where
      "tq_unlink ?k ?e q = Inr (q\<lparr>tq_tree := t, tq_list_cache := c, tq_expires := earliest t\<rparr>)"
      and "set c \<subseteq> {[]}" "tree_ok t"
      and ms: "add_mset (?k, ?e) (mset (bt_pairs t)) = mset (pending_timers q)"
      by metis
    moreover have "?e \<notin> snd ` set (bt_pairs t)"
    proof -
      have "mset (map snd ((?k, ?e) # bt_pairs t)) = mset (map snd (pending_timers q))"
        using ms by (metis mset.simps(2) mset_map)
      with dist have "distinct (map snd ((?k, ?e) # bt_pairs t))"
        by (metis mset_eq_imp_distinct_iff)
      then show ?thesis by simp
    qed
    moreover have "mset (bt_pairs t) = mset (pending_timers q) - {#(?k, ?e)#}"
      using ms by (metis add_mset_remove_trivial)
    ultimately show ?thesis using that [of t c] True by simp
  next
    case False
    then have "(?k, ?e) \<notin># mset (pending_timers q)" and "?e \<notin> snd ` set (pending_timers q)"
      using eqv que by (simp_all add: queued_ok_def)
    then show ?thesis
      using False that [of "tq_tree q" "tq_list_cache q"] inv
      by (simp add: tq_inv_def diff_single_trivial)
  qed
  let ?q1 = "q\<lparr>tq_tree := t, tq_list_cache := c, tq_expires := earliest t\<rparr>"
  let ?q2 = "set_queued False ?e ?q1"
  let ?q' = "?q2\<lparr>tq_entry_cache := cache_free ?e (tq_entry_cache q)\<rparr>"
  have eq: "tq_complete q d = Inr ?q'" using u by (simp add: tq_complete_def Let_def)
  have sub: "set (bt_pairs t) \<subseteq> set (pending_timers q)"
    using ms by (metis in_diffD set_mset_mset subsetI)
  have snds: "snd ` set (bt_pairs t) = snd ` set (pending_timers q) - {?e}"
  proof -
    have "set (pending_timers q) \<subseteq> insert (?k, ?e) (set (bt_pairs t))"
    proof
      fix x assume "x \<in> set (pending_timers q)"
      then have "x \<in># mset (pending_timers q)" by simp
      then have "x \<noteq> (?k, ?e) \<Longrightarrow> x \<in># mset (bt_pairs t)"
        unfolding ms by (simp add: in_diff_count)
      then show "x \<in> insert (?k, ?e) (set (bt_pairs t))" by auto
    qed
    then show ?thesis using sub gone by force
  qed
  have "queued_ok ?q'" using que snds by (simp add: queued_ok_def)
  moreover have "owners_ok ?q' (remove1 d live)"
    by (rule owners_drop [OF own d]) (use sub gone in simp_all)
  ultimately have "tq_inv ?q' (remove1 d live)"
    using t c wk by (simp add: tq_inv_def)
  then show ?thesis using that [of ?q'] eq ms by simp
qed

subsection \<open>Wakers of entries\<close>

lemma tq_inv_waker:
  assumes "tq_inv q live" "aw_ok w"
  shows "tq_inv (q\<lparr>tq_heap := (tq_heap q)(e := (tq_heap q e)\<lparr>re_waker := w\<rparr>)\<rparr>) live"
  using assms by (simp add: tq_inv_def queued_ok_def owners_ok_def)

lemma tq_entry_wake_ok:
  assumes inv: "tq_inv q live"
  obtains f w where
    "tq_entry_wake q e = Inr (f, q\<lparr>tq_heap := (tq_heap q)(e := (tq_heap q e)\<lparr>re_waker := w\<rparr>)\<rparr>)"
    "tq_inv (q\<lparr>tq_heap := (tq_heap q)(e := (tq_heap q e)\<lparr>re_waker := w\<rparr>)\<rparr>) live"
    "aw_wake (re_waker (tq_heap q e)) = Inr (f, w)"
proof -
  have "aw_ok (re_waker (tq_heap q e))" using inv by (simp add: tq_inv_def)
  then obtain f w where "aw_wake (re_waker (tq_heap q e)) = Inr (f, w)" "aw_ok w"
    using aw_wake_ok by metis
  then show ?thesis
    by (intro that [of f w] tq_inv_waker [OF inv]) (simp_all add: tq_entry_wake_def)
qed

lemma tq_entry_poll_ok:
  assumes inv: "tq_inv q live"
  obtains r w where
    "tq_entry_poll ctx q e = Inr (r, q\<lparr>tq_heap := (tq_heap q)(e := (tq_heap q e)\<lparr>re_waker := w\<rparr>)\<rparr>)"
    "tq_inv (q\<lparr>tq_heap := (tq_heap q)(e := (tq_heap q e)\<lparr>re_waker := w\<rparr>)\<rparr>) live"
    "aw_poll ctx (re_waker (tq_heap q e)) = Inr (r, w)"
proof -
  have "aw_ok (re_waker (tq_heap q e))" using inv by (simp add: tq_inv_def)
  then obtain r w where "aw_poll ctx (re_waker (tq_heap q e)) = Inr (r, w)" "aw_ok w"
    using aw_poll_ok by metis
  then show ?thesis
    by (intro that [of r w] tq_inv_waker [OF inv]) (simp_all add: tq_entry_poll_def)
qed

end
