(* ===== verification/Sleeps.thy ===== *)
theory Sleeps
  imports Timer_Proofs
begin

text \<open>
  \<open>src/src/time/sleeps.rs\<close> and the machine of all sleeps over the timer queues of a runtime:
  tasks poll and drop \<open>Sleep\<close> futures, workers poll their queue and process what expired.
\<close>

subsection \<open>The \<open>Sleep\<close> future\<close>

text \<open>\<open>Polling\<close> holds the queue the delay was scheduled on, by its worker index.\<close>

datatype sleep_state = Start delay_request | Polling nat delay | Polled

definition sleep :: "duration \<Rightarrow> sleep_state" where
  "sleep d = Start (Inr d)"

definition sleep_until :: "instant \<Rightarrow> sleep_state" where
  "sleep_until t = Start (Inl t)"

text \<open>\<open>Queue::with\<close>: the queue of the current worker, or of a random one.\<close>

definition queue_with :: "nat option \<Rightarrow> usize \<Rightarrow> nat \<Rightarrow> nat res" where
  "queue_with worker_index rng workers =
     (case worker_index of
        Some i \<Rightarrow> Inr i
      | None \<Rightarrow> if workers = 0 then Inl Division_By_Zero else Inr (unat rng mod workers))"

text \<open>The part of \<open>poll\<close> that both branches with a delay have.\<close>

definition delay_poll :: "'w \<Rightarrow> nat \<Rightarrow> 'w timer_queue \<Rightarrow> delay \<Rightarrow>
    (unit poll \<times> sleep_state \<times> 'w timer_queue) res" where
  "delay_poll ctx i q d =
     rbind (tq_entry_poll (Some ctx) q (d_entry d)) (\<lambda>(r, q1).
       if is_ready r
       then rbind (tq_complete q1 d) (\<lambda>q2. Inr (Ready (), Polled, q2))
       else Inr (Pending, Polling i d, q1))"

text \<open>
  \<open>Sleep::poll\<close>; the last component of the result lists the wakers it called itself
  (\<open>wake_by_ref\<close>).
\<close>

definition sleep_poll :: "'w \<Rightarrow> nat option \<Rightarrow> usize \<Rightarrow> instant \<Rightarrow> 'w timer_queue list \<Rightarrow> sleep_state \<Rightarrow>
    (unit poll \<times> sleep_state \<times> 'w timer_queue list \<times> 'w list) res" where
  "sleep_poll ctx worker_index rng now qs st =
     (case st of
        Start request \<Rightarrow>
          rbind (queue_with worker_index rng (length qs)) (\<lambda>i.
          rbind (index qs i) (\<lambda>q.
          rbind (tq_schedule q now request) (\<lambda>(scheduled, q1).
            (case scheduled of
               None \<Rightarrow> Inr (Pending, Polled, qs[i := q1], [ctx])
             | Some d \<Rightarrow>
                 rbind (delay_poll ctx i q1 d) (\<lambda>(r, st', q2).
                   Inr (r, st', qs[i := q2], []))))))
      | Polling i d \<Rightarrow>
          rbind (index qs i) (\<lambda>q.
          rbind (delay_poll ctx i q d) (\<lambda>(r, st', q2).
            Inr (r, st', qs[i := q2], [])))
      | Polled \<Rightarrow> Inr (Ready (), Polled, qs, []))"

definition sleep_drop :: "'w timer_queue list \<Rightarrow> sleep_state \<Rightarrow> (sleep_state \<times> 'w timer_queue list) res" where
  "sleep_drop qs st =
     (case st of
        Polling i d \<Rightarrow>
          rbind (index qs i) (\<lambda>q. rbind (tq_complete q d) (\<lambda>q1. Inr (Polled, qs[i := q1])))
      | _ \<Rightarrow> Inr (Polled, qs))"

subsection \<open>The machine\<close>

text \<open>
  The queues of the workers, every \<open>Sleep\<close> created so far, and per worker the entries its
  last polls expired and \<open>process\<close> has not yet woken.
\<close>

record 'w sleepers =
  sl_queues :: "'w timer_queue list"
  sl_sleeps :: "sleep_state list"
  sl_expired :: "entry list list"

datatype 'w sleep_action =
    New_Sleep delay_request
  | Poll_Sleep nat 'w "nat option" usize instant
  | Drop_Sleep nat
  | Poll_Queue nat deadline
  | Process_Next nat

definition sleepers_start :: "nat \<Rightarrow> instant \<Rightarrow> 'w sleepers" where
  "sleepers_start workers started =
     \<lparr>sl_queues = replicate workers (tq_new started), sl_sleeps = [],
      sl_expired = replicate workers []\<rparr>"

fun sleepers_step :: "'w sleep_action \<Rightarrow> 'w sleepers \<Rightarrow> 'w sleepers res option" where
  "sleepers_step (New_Sleep request) s =
     Some (Inr (s\<lparr>sl_sleeps := sl_sleeps s @ [Start request]\<rparr>))"
| "sleepers_step (Poll_Sleep n ctx wi rng now) s =
     (if n < length (sl_sleeps s) \<and> (case wi of Some i \<Rightarrow> i < length (sl_queues s) | None \<Rightarrow> True)
      then Some (rbind (sleep_poll ctx wi rng now (sl_queues s) (sl_sleeps s ! n)) (\<lambda>(r, st, qs, ws).
             Inr (s\<lparr>sl_queues := qs, sl_sleeps := (sl_sleeps s)[n := st]\<rparr>)))
      else None)"
| "sleepers_step (Drop_Sleep n) s =
     (if n < length (sl_sleeps s)
      then Some (rbind (sleep_drop (sl_queues s) (sl_sleeps s ! n)) (\<lambda>(st, qs).
             Inr (s\<lparr>sl_queues := qs, sl_sleeps := (sl_sleeps s)[n := st]\<rparr>)))
      else None)"
| "sleepers_step (Poll_Queue i current) s =
     (if i < length (sl_queues s)
      then Some (rbind (tq_poll (sl_queues s ! i) current (sl_expired s ! i)) (\<lambda>(q, ex).
             Inr (s\<lparr>sl_queues := (sl_queues s)[i := q], sl_expired := (sl_expired s)[i := ex]\<rparr>)))
      else None)"
| "sleepers_step (Process_Next i) s =
     (if i < length (sl_queues s)
      then (case sl_expired s ! i of
              [] \<Rightarrow> None
            | e # es \<Rightarrow>
                Some (rbind (tq_entry_wake (sl_queues s ! i) e) (\<lambda>(f, q).
                  Inr (s\<lparr>sl_queues := (sl_queues s)[i := q], sl_expired := (sl_expired s)[i := es]\<rparr>))))
      else None)"

subsection \<open>One queue, its expired entries and its delays\<close>

text \<open>
  No delay is forgotten: its entry is still queued, or it has expired and is about to be
  woken, or its waker has been woken.
\<close>

definition waiting_ok :: "'w timer_queue \<Rightarrow> entry list \<Rightarrow> delay list \<Rightarrow> bool" where
  "waiting_ok q ex live \<longleftrightarrow>
     (\<forall>d \<in> set live. re_queued (tq_heap q (d_entry d)) \<or> d_entry d \<in> set ex \<or>
        aw_notified (re_waker (tq_heap q (d_entry d))) \<or>
        aw_state (re_waker (tq_heap q (d_entry d))) = NOTIFIED)"

definition cell_inv :: "'w timer_queue \<Rightarrow> entry list \<Rightarrow> delay list \<Rightarrow> bool" where
  "cell_inv q ex live \<longleftrightarrow> tq_inv q live \<and> waiting_ok q ex live"

lemma tq_inv_mset: "mset live = mset live' \<Longrightarrow> tq_inv q live = tq_inv q live'"
proof -
  assume m: "mset live = mset live'"
  then have "set live = set live'" by (rule mset_eq_setD)
  moreover have "mset (map d_entry live) = mset (map d_entry live')" using m by simp
  then have "distinct (map d_entry live) = distinct (map d_entry live')"
    by (rule mset_eq_imp_distinct_iff)
  ultimately show ?thesis by (simp add: tq_inv_def owners_ok_def)
qed

lemma cell_inv_mset: "mset live = mset live' \<Longrightarrow> cell_inv q ex live = cell_inv q ex live'"
  using tq_inv_mset [of live live' q] mset_eq_setD [of live live']
  by (simp add: cell_inv_def waiting_ok_def)

lemma re_queued_pending:
  "tq_inv q live \<Longrightarrow> re_queued (tq_heap q e) \<longleftrightarrow> e \<in> snd ` set (pending_timers q)"
  by (simp add: tq_inv_def queued_ok_def)

lemma cell_schedule:
  assumes c: "cell_inv q ex live"
  obtains q' where "tq_schedule q now request = Inr (None, q')" "cell_inv q' ex live"
  | d q' where "tq_schedule q now request = Inr (Some d, q')" "cell_inv q' ex (d # live)"
proof -
  have inv: "tq_inv q live" and wait: "waiting_ok q ex live" using c by (simp_all add: cell_inv_def)
  let ?q1 = "q\<lparr>tq_current := tq_since q now\<rparr>"
  have w1: "waiting_ok ?q1 ex live" using wait by (simp add: waiting_ok_def)
  consider "request = Inr 0" | "request \<noteq> Inr 0" "tq_deadline ?q1 request \<le> tq_current ?q1"
    | "request \<noteq> Inr 0" "tq_current ?q1 < tq_deadline ?q1 request"
    by force
  then show thesis
  proof cases
    case 1
    then show ?thesis using that(1) [of q] c by (simp add: tq_schedule_eq Let_def)
  next
    case 2
    then show ?thesis
      using that(1) [of ?q1] inv w1 by (simp add: tq_schedule_eq Let_def cell_inv_def)
  next
    case 3
    let ?d = "tq_deadline ?q1 request"
    have d0: "?d \<noteq> 0" using 3 by auto
    have inv1: "tq_inv ?q1 live" using inv by simp
    from tq_add_ok [OF inv1 d0] obtain e q' where
      a: "tq_add ?d ?q1 = Inr (Some \<lparr>d_deadline = ?d, d_entry = e\<rparr>, q')"
      and i: "tq_inv q' (\<lparr>d_deadline = ?d, d_entry = e\<rparr> # live)"
      and m: "mset (pending_timers q') = add_mset (?d, e) (mset (pending_timers ?q1))"
      and f: "e \<notin> d_entry ` set live"
      and o: "\<And>x. x \<noteq> e \<Longrightarrow> re_waker (tq_heap q' x) = re_waker (tq_heap ?q1 x)"
      by metis
    have "re_queued (tq_heap q' e)"
      unfolding re_queued_pending [OF i] set_append_pair [OF m, THEN conjunct2] by simp
    moreover have "re_queued (tq_heap q' x)" if "re_queued (tq_heap q x)" for x
      using that unfolding re_queued_pending [OF i] re_queued_pending [OF inv]
        set_append_pair [OF m, THEN conjunct2] by simp
    ultimately have "waiting_ok q' ex (\<lparr>d_deadline = ?d, d_entry = e\<rparr> # live)"
      using wait f o unfolding waiting_ok_def by fastforce
    moreover have "tq_schedule q now request = Inr (Some \<lparr>d_deadline = ?d, d_entry = e\<rparr>, q')"
      using a 3 by (simp add: tq_schedule_eq Let_def)
    ultimately show ?thesis using that(2) i by (simp add: cell_inv_def)
  qed
qed

lemma cell_complete:
  assumes c: "cell_inv q ex live" and d: "d \<in> set live"
  obtains q' where "tq_complete q d = Inr q'" "cell_inv q' ex (remove1 d live)"
proof -
  have inv: "tq_inv q live" and wait: "waiting_ok q ex live" using c by (simp_all add: cell_inv_def)
  from tq_complete_ok [OF inv d] obtain q' where
    e: "tq_complete q d = Inr q'" and i: "tq_inv q' (remove1 d live)"
    and m: "mset (pending_timers q') = mset (pending_timers q) - {#(d_deadline d, d_entry d)#}"
    and w: "\<And>x. re_waker (tq_heap q' x) = re_waker (tq_heap q x)" by metis
  have live: "distinct live" "inj_on d_entry (set live)"
    using inv by (simp_all add: tq_inv_def owners_ok_def distinct_map)
  have "re_queued (tq_heap q' x)" if "re_queued (tq_heap q x)" "x \<noteq> d_entry d" for x
  proof -
    from that(1) obtain k where "(k, x) \<in># mset (pending_timers q)"
      unfolding re_queued_pending [OF inv] by auto
    then have "(k, x) \<in># mset (pending_timers q')"
      using that(2) unfolding m by (simp add: in_diff_count)
    then show ?thesis unfolding re_queued_pending [OF i] by force
  qed
  moreover have "d_entry x \<noteq> d_entry d" if "x \<in> set (remove1 d live)" for x
    using that d live by (auto dest: inj_onD)
  ultimately have "waiting_ok q' ex (remove1 d live)"
    using wait w live(1) by (auto simp: waiting_ok_def)
  then show ?thesis using that e i by (simp add: cell_inv_def)
qed

lemma cell_delay_poll:
  assumes c: "cell_inv q ex live" and d: "d \<in> set live"
  obtains q' where "delay_poll ctx i q d = Inr (Ready (), Polled, q')" "cell_inv q' ex (remove1 d live)"
      "aw_notified (re_waker (tq_heap q (d_entry d))) \<or> aw_state (re_waker (tq_heap q (d_entry d))) = NOTIFIED"
  | q' where "delay_poll ctx i q d = Inr (Pending, Polling i d, q')" "cell_inv q' ex live"
      "\<not> aw_notified (re_waker (tq_heap q (d_entry d)))"
      "aw_state (re_waker (tq_heap q (d_entry d))) \<noteq> NOTIFIED"
proof -
  have inv: "tq_inv q live" and wait: "waiting_ok q ex live" using c by (simp_all add: cell_inv_def)
  let ?e = "d_entry d"
  let ?w = "re_waker (tq_heap q ?e)"
  have ok: "aw_ok ?w" using inv by (simp add: tq_inv_def)
  from aw_poll_ok [OF ok, of "Some ctx"] obtain r w where p: "aw_poll (Some ctx) ?w = Inr (r, w)"
    and w: "aw_ok w" and r: "is_ready r \<longleftrightarrow> aw_notified ?w \<or> aw_state ?w = NOTIFIED"
    and n: "is_ready r \<Longrightarrow> aw_notified w" by metis
  let ?q = "q\<lparr>tq_heap := (tq_heap q)(?e := (tq_heap q ?e)\<lparr>re_waker := w\<rparr>)\<rparr>"
  have e: "tq_entry_poll (Some ctx) q ?e = Inr (r, ?q)" using p by (simp add: tq_entry_poll_def)
  have "waiting_ok ?q ex live"
    using wait r n by (auto simp: waiting_ok_def)
  then have cell: "cell_inv ?q ex live" using tq_inv_waker [OF inv w] by (simp add: cell_inv_def)
  show thesis
  proof (cases "is_ready r")
    case True
    from cell_complete [OF cell d] obtain q' where
      "tq_complete ?q d = Inr q'" "cell_inv q' ex (remove1 d live)" by metis
    then show ?thesis using that(1) [of q'] True r e by (simp add: delay_poll_def)
  next
    case False
    then show ?thesis using that(2) [of ?q] r e cell by (simp add: delay_poll_def)
  qed
qed

lemma cell_poll:
  assumes c: "cell_inv q ex live"
  obtains q' ex' where "tq_poll q current ex = Inr (q', ex')" "cell_inv q' ex' live"
proof -
  have inv: "tq_inv q live" and wait: "waiting_ok q ex live" using c by (simp_all add: cell_inv_def)
  let ?now = "max (tq_current q) current"
  from tq_poll_ok [OF inv, of current ex] obtain q' where
    p: "tq_poll q current ex = Inr (q', ex @ map snd (filter (due ?now) (pending_timers q)))"
    and pend: "pending_timers q' = filter (\<lambda>p. \<not> due ?now p) (pending_timers q)"
    and i: "tq_inv q' live"
    and w: "\<And>x. re_waker (tq_heap q' x) = re_waker (tq_heap q x)" by auto
  have "re_queued (tq_heap q' x) \<or> x \<in> set (map snd (filter (due ?now) (pending_timers q)))"
    if "re_queued (tq_heap q x)" for x
    using that unfolding re_queued_pending [OF i] re_queued_pending [OF inv] pend by auto
  then have "waiting_ok q' (ex @ map snd (filter (due ?now) (pending_timers q))) live"
    using wait w unfolding waiting_ok_def by (metis Un_iff set_append)
  then show ?thesis using that p i by (simp add: cell_inv_def)
qed

lemma cell_wake:
  assumes c: "cell_inv q (e # es) live"
  obtains f q' where "tq_entry_wake q e = Inr (f, q')" "cell_inv q' es live"
proof -
  have inv: "tq_inv q live" and wait: "waiting_ok q (e # es) live"
    using c by (simp_all add: cell_inv_def)
  have ok: "aw_ok (re_waker (tq_heap q e))" using inv by (simp add: tq_inv_def)
  from aw_wake_ok [OF ok] obtain f w where a: "aw_wake (re_waker (tq_heap q e)) = Inr (f, w)"
    and w: "aw_ok w" "aw_state w = NOTIFIED" by metis
  let ?q = "q\<lparr>tq_heap := (tq_heap q)(e := (tq_heap q e)\<lparr>re_waker := w\<rparr>)\<rparr>"
  have "waiting_ok ?q es live" using wait w(2) by (auto simp: waiting_ok_def)
  then show ?thesis
    using that [of f ?q] a tq_inv_waker [OF inv w(1)] by (simp add: tq_entry_wake_def cell_inv_def)
qed

end
