(* ===== verification/Timers.thy ===== *)
theory Timers
  imports Sleeps
begin

text \<open>
  What holds of the sleeps machine on every schedule, and the properties of timer queues
  and of sleeps.
\<close>

subsection \<open>The invariant of the machine\<close>

fun slot_delay :: "nat \<Rightarrow> sleep_state \<Rightarrow> delay list" where
  "slot_delay i (Polling j d) = (if j = i then [d] else [])"
| "slot_delay i (Start r) = []"
| "slot_delay i Polled = []"

definition live_delays :: "nat \<Rightarrow> sleep_state list \<Rightarrow> delay list" where
  "live_delays i sleeps = concat (map (slot_delay i) sleeps)"

lemma live_delays_simps [simp]:
  "live_delays i [] = []"
  "live_delays i (st # sts) = slot_delay i st @ live_delays i sts"
  "live_delays i (sts @ ts) = live_delays i sts @ live_delays i ts"
  by (simp_all add: live_delays_def)

lemma live_delays_update:
  "n < length sts \<Longrightarrow>
   mset (live_delays i (sts[n := st])) + mset (slot_delay i (sts ! n)) =
   mset (live_delays i sts) + mset (slot_delay i st)"
proof (induction sts arbitrary: n)
  case (Cons a sts)
  then show ?case by (cases n) (auto simp: ac_simps)
qed simp

lemma live_delays_mem: "d \<in> set (live_delays i sts) \<longleftrightarrow> Polling i d \<in> set sts"
proof (induction sts)
  case (Cons a sts)
  then show ?case by (cases a) auto
qed simp

fun slot_ok :: "nat \<Rightarrow> sleep_state \<Rightarrow> bool" where
  "slot_ok n (Polling j d) = (j < n)"
| "slot_ok n (Start r) = True"
| "slot_ok n Polled = True"

definition sleepers_inv :: "'w sleepers \<Rightarrow> bool" where
  "sleepers_inv s \<longleftrightarrow>
     sl_queues s \<noteq> [] \<and> length (sl_expired s) = length (sl_queues s) \<and>
     (\<forall>st \<in> set (sl_sleeps s). slot_ok (length (sl_queues s)) st) \<and>
     (\<forall>i < length (sl_queues s).
        cell_inv (sl_queues s ! i) (sl_expired s ! i) (live_delays i (sl_sleeps s)))"

lemma sleepers_inv_start: "0 < n \<Longrightarrow> sleepers_inv (sleepers_start n started)"
  by (simp add: sleepers_inv_def sleepers_start_def cell_inv_def tq_inv_new waiting_ok_def)

lemma sleepers_cell:
  "sleepers_inv s \<Longrightarrow> i < length (sl_queues s) \<Longrightarrow>
   cell_inv (sl_queues s ! i) (sl_expired s ! i) (live_delays i (sl_sleeps s))"
  by (simp add: sleepers_inv_def)

lemma sleepers_slot:
  "sleepers_inv s \<Longrightarrow> n < length (sl_sleeps s) \<Longrightarrow> slot_ok (length (sl_queues s)) (sl_sleeps s ! n)"
  by (simp add: sleepers_inv_def)

text \<open>One worker's queue changes: its part of the invariant is all that must be shown.\<close>

lemma sleepers_inv_queue:
  assumes inv: "sleepers_inv s" and i: "i < length (sl_queues s)"
    and c: "cell_inv q ex (live_delays i (sl_sleeps s))"
  shows "sleepers_inv (s\<lparr>sl_queues := (sl_queues s)[i := q], sl_expired := (sl_expired s)[i := ex]\<rparr>)"
  using assms by (simp add: sleepers_inv_def nth_list_update)

text \<open>A sleep moves between the slots with its queue.\<close>

lemma sleepers_inv_sleep:
  assumes inv: "sleepers_inv s" and i: "i < length (sl_queues s)" and n: "n < length (sl_sleeps s)"
    and ok: "slot_ok (length (sl_queues s)) st"
    and other: "\<And>j. j \<noteq> i \<Longrightarrow> slot_delay j st = [] \<and> slot_delay j (sl_sleeps s ! n) = []"
    and live: "mset live + mset (slot_delay i (sl_sleeps s ! n)) =
      mset (live_delays i (sl_sleeps s)) + mset (slot_delay i st)"
    and c: "cell_inv q (sl_expired s ! i) live"
  shows "sleepers_inv (s\<lparr>sl_queues := (sl_queues s)[i := q], sl_sleeps := (sl_sleeps s)[n := st]\<rparr>)"
    (is "sleepers_inv ?s")
proof -
  have upd: "mset (live_delays j ((sl_sleeps s)[n := st])) =
      (if j = i then mset live else mset (live_delays j (sl_sleeps s)))" for j
    using live_delays_update [OF n, of j st] live other [of j] by (cases "j = i") (simp_all, metis add_right_imp_eq)
  have "cell_inv (sl_queues ?s ! j) (sl_expired ?s ! j) (live_delays j (sl_sleeps ?s))"
    if j: "j < length (sl_queues ?s)" for j
  proof (cases "j = i")
    case True
    then show ?thesis
      using c i cell_inv_mset [THEN iffD1, of live "live_delays i ((sl_sleeps s)[n := st])"] upd [of i]
      by simp
  next
    case False
    then show ?thesis
      using sleepers_cell [OF inv, of j] j
        cell_inv_mset [THEN iffD1, of "live_delays j (sl_sleeps s)" "live_delays j ((sl_sleeps s)[n := st])"]
        upd [of j] by simp
  qed
  moreover have "\<forall>st \<in> set (sl_sleeps ?s). slot_ok (length (sl_queues ?s)) st"
    using inv ok set_update_subset_insert [of "sl_sleeps s" n st] by (auto simp: sleepers_inv_def)
  ultimately show ?thesis using inv by (simp add: sleepers_inv_def)
qed

subsection \<open>Every step keeps it and none panics\<close>

lemma queue_with_ok:
  assumes "0 < n" "case wi of Some i \<Rightarrow> i < n | None \<Rightarrow> True"
  obtains i where "queue_with wi rng n = Inr i" "i < n"
  using assms by (cases wi) (auto simp: queue_with_def)

lemma sleepers_poll_start:
  assumes inv: "sleepers_inv s" and n: "n < length (sl_sleeps s)" and st: "sl_sleeps s ! n = Start r"
    and wi: "case wi of Some i \<Rightarrow> i < length (sl_queues s) | None \<Rightarrow> True"
  obtains res st' qs ws where
    "sleep_poll ctx wi rng now (sl_queues s) (sl_sleeps s ! n) = Inr (res, st', qs, ws)"
    "sleepers_inv (s\<lparr>sl_queues := qs, sl_sleeps := (sl_sleeps s)[n := st']\<rparr>)"
proof -
  have "0 < length (sl_queues s)" using inv by (simp add: sleepers_inv_def)
  from queue_with_ok [OF this wi] obtain i where w: "queue_with wi rng (length (sl_queues s)) = Inr i"
    and i: "i < length (sl_queues s)" by metis
  let ?live = "live_delays i (sl_sleeps s)"
  from sleepers_cell [OF inv i] show thesis
  proof (cases rule: cell_schedule [where now = now and request = r])
    case (1 q')
    have "sleepers_inv (s\<lparr>sl_queues := (sl_queues s)[i := q'], sl_sleeps := (sl_sleeps s)[n := Polled]\<rparr>)"
      by (rule sleepers_inv_sleep [OF inv i n _ _ _ 1(2)]) (simp_all add: st)
    with 1(1) show ?thesis using w i st by (intro that) (simp_all add: sleep_poll_def)
  next
    case (2 d q')
    have "d \<in> set (d # ?live)" by simp
    from 2(2) this show ?thesis
    proof (cases rule: cell_delay_poll [where ctx = ctx and i = i])
      case (1 q2)
      have "sleepers_inv (s\<lparr>sl_queues := (sl_queues s)[i := q2], sl_sleeps := (sl_sleeps s)[n := Polled]\<rparr>)"
        by (rule sleepers_inv_sleep [OF inv i n _ _ _ 1(2)]) (simp_all add: st)
      with 1(1) 2(1) show ?thesis using w i st by (intro that) (simp_all add: sleep_poll_def)
    next
      case (2 q2)
      have "sleepers_inv (s\<lparr>sl_queues := (sl_queues s)[i := q2],
          sl_sleeps := (sl_sleeps s)[n := Polling i d]\<rparr>)"
        by (rule sleepers_inv_sleep [OF inv i n _ _ _ 2(2)]) (simp_all add: st i)
      with 2(1) \<open>tq_schedule _ _ _ = Inr (Some d, q')\<close> show ?thesis
        using w i st by (intro that) (simp_all add: sleep_poll_def)
    qed
  qed
qed

lemma sleepers_poll_polling:
  assumes inv: "sleepers_inv s" and n: "n < length (sl_sleeps s)" and st: "sl_sleeps s ! n = Polling i d"
  obtains res st' qs ws where
    "sleep_poll ctx wi rng now (sl_queues s) (sl_sleeps s ! n) = Inr (res, st', qs, ws)"
    "sleepers_inv (s\<lparr>sl_queues := qs, sl_sleeps := (sl_sleeps s)[n := st']\<rparr>)"
    "res = Ready () \<longleftrightarrow> aw_notified (re_waker (tq_heap (sl_queues s ! i) (d_entry d))) \<or>
       aw_state (re_waker (tq_heap (sl_queues s ! i) (d_entry d))) = NOTIFIED"
proof -
  have i: "i < length (sl_queues s)" using sleepers_slot [OF inv n] st by simp
  have "d \<in> set (live_delays i (sl_sleeps s))"
    using n st live_delays_mem nth_mem by metis
  from sleepers_cell [OF inv i] this show thesis
  proof (cases rule: cell_delay_poll [where ctx = ctx and i = i])
    case (1 q2)
    have "sleepers_inv (s\<lparr>sl_queues := (sl_queues s)[i := q2], sl_sleeps := (sl_sleeps s)[n := Polled]\<rparr>)"
      by (rule sleepers_inv_sleep [OF inv i n _ _ _ 1(2)])
         (use \<open>d \<in> set (live_delays i (sl_sleeps s))\<close> in \<open>simp_all add: st\<close>)
    moreover have "sleep_poll ctx wi rng now (sl_queues s) (sl_sleeps s ! n) =
        Inr (Ready (), Polled, (sl_queues s)[i := q2], [])"
      using 1(1) i st by (simp add: sleep_poll_def)
    ultimately show ?thesis using that 1(3) by simp
  next
    case (2 q2)
    have "sleepers_inv (s\<lparr>sl_queues := (sl_queues s)[i := q2], sl_sleeps := (sl_sleeps s)[n := Polling i d]\<rparr>)"
      by (rule sleepers_inv_sleep [OF inv i n _ _ _ 2(2)]) (simp_all add: st i)
    moreover have "sleep_poll ctx wi rng now (sl_queues s) (sl_sleeps s ! n) =
        Inr (Pending, Polling i d, (sl_queues s)[i := q2], [])"
      using 2(1) i st by (simp add: sleep_poll_def)
    ultimately show ?thesis using that 2(3,4) by simp
  qed
qed

lemma sleepers_poll:
  assumes inv: "sleepers_inv s" and n: "n < length (sl_sleeps s)"
    and wi: "case wi of Some i \<Rightarrow> i < length (sl_queues s) | None \<Rightarrow> True"
  obtains res st' qs ws where
    "sleep_poll ctx wi rng now (sl_queues s) (sl_sleeps s ! n) = Inr (res, st', qs, ws)"
    "sleepers_inv (s\<lparr>sl_queues := qs, sl_sleeps := (sl_sleeps s)[n := st']\<rparr>)"
proof (cases "sl_sleeps s ! n")
  case (Start r)
  from sleepers_poll_start [OF inv n this wi] that show ?thesis by metis
next
  case (Polling i d)
  from sleepers_poll_polling [OF inv n this] that show ?thesis by metis
next
  case Polled
  then have "(sl_sleeps s)[n := Polled] = sl_sleeps s" using list_update_id by metis
  then have "sleepers_inv (s\<lparr>sl_queues := sl_queues s, sl_sleeps := (sl_sleeps s)[n := Polled]\<rparr>)"
    using inv by simp
  moreover have "sleep_poll ctx wi rng now (sl_queues s) (sl_sleeps s ! n) =
      Inr (Ready (), Polled, sl_queues s, [])"
    using Polled by (simp add: sleep_poll_def)
  ultimately show ?thesis using that by blast
qed

lemma sleepers_drop:
  assumes inv: "sleepers_inv s" and n: "n < length (sl_sleeps s)"
  obtains st' qs where "sleep_drop (sl_queues s) (sl_sleeps s ! n) = Inr (st', qs)"
    "sleepers_inv (s\<lparr>sl_queues := qs, sl_sleeps := (sl_sleeps s)[n := st']\<rparr>)"
proof (cases "sl_sleeps s ! n")
  case (Polling i d)
  have i: "i < length (sl_queues s)" using sleepers_slot [OF inv n] Polling by simp
  have d: "d \<in> set (live_delays i (sl_sleeps s))"
    using n Polling live_delays_mem nth_mem by metis
  from cell_complete [OF sleepers_cell [OF inv i] d] obtain q where
    q: "tq_complete (sl_queues s ! i) d = Inr q"
      "cell_inv q (sl_expired s ! i) (remove1 d (live_delays i (sl_sleeps s)))" by metis
  have "sleepers_inv (s\<lparr>sl_queues := (sl_queues s)[i := q], sl_sleeps := (sl_sleeps s)[n := Polled]\<rparr>)"
    by (rule sleepers_inv_sleep [OF inv i n _ _ _ q(2)]) (use d in \<open>simp_all add: Polling\<close>)
  then show ?thesis using q(1) i Polling by (intro that) (simp_all add: sleep_drop_def)
next
  case (Start r)
  have i: "0 < length (sl_queues s)" using inv by (simp add: sleepers_inv_def)
  have "sleepers_inv (s\<lparr>sl_queues := (sl_queues s)[0 := sl_queues s ! 0],
      sl_sleeps := (sl_sleeps s)[n := Polled]\<rparr>)"
    by (rule sleepers_inv_sleep [OF inv i n _ _ _ sleepers_cell [OF inv i]]) (simp_all add: Start)
  then have "sleepers_inv (s\<lparr>sl_queues := sl_queues s, sl_sleeps := (sl_sleeps s)[n := Polled]\<rparr>)"
    unfolding list_update_id .
  moreover have "sleep_drop (sl_queues s) (sl_sleeps s ! n) = Inr (Polled, sl_queues s)"
    using Start by (simp add: sleep_drop_def)
  ultimately show ?thesis using that by blast
next
  case Polled
  then have "(sl_sleeps s)[n := Polled] = sl_sleeps s" using list_update_id by metis
  then have "sleepers_inv (s\<lparr>sl_queues := sl_queues s, sl_sleeps := (sl_sleeps s)[n := Polled]\<rparr>)"
    using inv by simp
  moreover have "sleep_drop (sl_queues s) (sl_sleeps s ! n) = Inr (Polled, sl_queues s)"
    using Polled by (simp add: sleep_drop_def)
  ultimately show ?thesis using that by blast
qed

lemma sleepers_step_ok:
  assumes inv: "sleepers_inv s"
  shows "sleepers_step a s = None \<or> (\<exists>s'. sleepers_step a s = Some (Inr s') \<and> sleepers_inv s')"
proof (cases a)
  case (New_Sleep r)
  then show ?thesis using inv by (auto simp: sleepers_inv_def)
next
  case (Poll_Sleep n ctx wi rng now)
  show ?thesis
  proof (cases "n < length (sl_sleeps s) \<and>
      (case wi of Some i \<Rightarrow> i < length (sl_queues s) | None \<Rightarrow> True)")
    case True
    then have n: "n < length (sl_sleeps s)"
      and wi: "case wi of Some i \<Rightarrow> i < length (sl_queues s) | None \<Rightarrow> True" by simp_all
    from sleepers_poll [OF inv n wi] obtain res st' qs ws where
      "sleep_poll ctx wi rng now (sl_queues s) (sl_sleeps s ! n) = Inr (res, st', qs, ws)"
      "sleepers_inv (s\<lparr>sl_queues := qs, sl_sleeps := (sl_sleeps s)[n := st']\<rparr>)" by metis
    then show ?thesis using True Poll_Sleep by simp
  qed (auto simp: Poll_Sleep)
next
  case (Drop_Sleep n)
  show ?thesis
  proof (cases "n < length (sl_sleeps s)")
    case True
    from sleepers_drop [OF inv True] obtain st' qs where
      "sleep_drop (sl_queues s) (sl_sleeps s ! n) = Inr (st', qs)"
      "sleepers_inv (s\<lparr>sl_queues := qs, sl_sleeps := (sl_sleeps s)[n := st']\<rparr>)" by metis
    then show ?thesis using True Drop_Sleep by simp
  qed (simp add: Drop_Sleep)
next
  case (Poll_Queue i current)
  show ?thesis
  proof (cases "i < length (sl_queues s)")
    case True
    from cell_poll [OF sleepers_cell [OF inv True]] obtain q ex where
      "tq_poll (sl_queues s ! i) current (sl_expired s ! i) = Inr (q, ex)"
      "cell_inv q ex (live_delays i (sl_sleeps s))" by metis
    then show ?thesis using Poll_Queue True sleepers_inv_queue [OF inv True] by simp
  qed (simp add: Poll_Queue)
next
  case (Process_Next i)
  show ?thesis
  proof (cases "i < length (sl_queues s)")
    case True
    note cell = sleepers_cell [OF inv True]
    show ?thesis
    proof (cases "sl_expired s ! i")
      case (Cons e es)
      from cell_wake [OF cell [unfolded Cons]] obtain f q where
        "tq_entry_wake (sl_queues s ! i) e = Inr (f, q)"
        "cell_inv q es (live_delays i (sl_sleeps s))" by metis
      then show ?thesis using Process_Next True Cons sleepers_inv_queue [OF inv True] by simp
    qed (simp add: Process_Next)
  qed (simp add: Process_Next)
qed

lemma sleepers_inv_reach: "reach sleepers_step s s' \<Longrightarrow> sleepers_inv s \<Longrightarrow> sleepers_inv s'"
proof (induction rule: reach.induct)
  case (reach_step t a t')
  then show ?case using sleepers_step_ok [of t a] by auto
qed

interpretation sleepers: safe_machine sleepers_step "sleepers_start (Suc n) started" sleepers_inv
  for n :: nat and started :: instant
proof
  show "sleepers_inv (sleepers_start (Suc n) started)" by (simp add: sleepers_inv_start)
next
  fix s :: "'w sleepers" and a s'
  assume "sleepers_inv s" "sleepers_step a s = Some (Inr s')"
  then show "sleepers_inv s'" using sleepers_step_ok [of s a] by auto
next
  fix s :: "'w sleepers" and a p
  assume "sleepers_inv s"
  then show "sleepers_step a s \<noteq> Some (Inl p)" using sleepers_step_ok [of s a] by auto
qed

subsection \<open>Processing expired entries\<close>

lemma process_steps:
  assumes "sleepers_inv s" "i < length (sl_queues s)"
  shows "\<exists>fs q'. expired_process (sl_queues s ! i) (sl_expired s ! i) = Inr (fs, q') \<and>
     run sleepers_step s (replicate (length (sl_expired s ! i)) (Process_Next i)) =
       Some (Inr (s\<lparr>sl_queues := (sl_queues s)[i := q'], sl_expired := (sl_expired s)[i := []]\<rparr>)) \<and>
     tq_tree q' = tq_tree (sl_queues s ! i)"
  using assms
proof (induction "sl_expired s ! i" arbitrary: s)
  case Nil
  have "(sl_expired s)[i := []] = sl_expired s" using Nil(1) list_update_id [of "sl_expired s" i] by simp
  then show ?case using Nil(1) [symmetric] by simp
next
  case (Cons e es)
  note ex = Cons.hyps(2) [symmetric]
  have li: "i < length (sl_expired s)" using Cons.prems by (simp add: sleepers_inv_def)
  from cell_wake [OF sleepers_cell [OF Cons.prems, unfolded ex]] obtain f q where
    w: "tq_entry_wake (sl_queues s ! i) e = Inr (f, q)"
    and c: "cell_inv q es (live_delays i (sl_sleeps s))" by metis
  let ?s = "s\<lparr>sl_queues := (sl_queues s)[i := q], sl_expired := (sl_expired s)[i := es]\<rparr>"
  have "sleepers_inv ?s" by (rule sleepers_inv_queue [OF Cons.prems c])
  moreover have "es = sl_expired ?s ! i" "i < length (sl_queues ?s)" using li Cons.prems(2) by simp_all
  ultimately obtain fs q' where p: "expired_process q es = Inr (fs, q')"
    and r: "run sleepers_step ?s (replicate (length es) (Process_Next i)) =
      Some (Inr (s\<lparr>sl_queues := (sl_queues s)[i := q'], sl_expired := (sl_expired s)[i := []]\<rparr>))"
    and t: "tq_tree q' = tq_tree q"
    using Cons.hyps(1) [of ?s] li Cons.prems(2) by auto
  have "sleepers_step (Process_Next i) s = Some (Inr ?s)" using w ex Cons.prems(2) by simp
  moreover have "tq_tree q = tq_tree (sl_queues s ! i)" using w by (auto simp: tq_entry_wake_def)
  ultimately show ?case using ex w p r t by simp
qed

lemma not_pending_not_queued:
  assumes "tq_inv q live" "d \<in> set live" "(d_deadline d, d_entry d) \<notin> set (pending_timers q)"
  shows "\<not> re_queued (tq_heap q (d_entry d))"
  using assms owners_deadline [OF assms(1,2)] re_queued_pending [OF assms(1)] by blast

text \<open>The whole life of a due sleep, from the worker's poll to the task's.\<close>

lemma due_sleep_runs:
  assumes inv: "sleepers_inv s" and n: "n < length (sl_sleeps s)"
    and st: "sl_sleeps s ! n = Polling i d" and due: "d_deadline d \<le> current"
  obtains s1 s2 where "sleepers_step (Poll_Queue i current) s = Some (Inr s1)"
    "run sleepers_step s1 (replicate (length (sl_expired s1 ! i)) (Process_Next i)) = Some (Inr s2)"
    "\<exists>st qs ws. sleep_poll ctx wi rng now (sl_queues s2) (sl_sleeps s2 ! n) = Inr (Ready (), st, qs, ws)"
proof -
  have i: "i < length (sl_queues s)" using sleepers_slot [OF inv n] st by simp
  have li: "i < length (sl_expired s)" using i inv by (simp add: sleepers_inv_def)
  have d: "d \<in> set (live_delays i (sl_sleeps s))" using n st live_delays_mem nth_mem by metis
  have qinv: "tq_inv (sl_queues s ! i) (live_delays i (sl_sleeps s))"
    using sleepers_cell [OF inv i] by (simp add: cell_inv_def)
  let ?now = "max (tq_current (sl_queues s ! i)) current"
  from tq_poll_ok [OF qinv, of current "sl_expired s ! i"] obtain q1 ex1 where
    p: "tq_poll (sl_queues s ! i) current (sl_expired s ! i) = Inr (q1, ex1)"
    and pend: "pending_timers q1 = filter (\<lambda>p. \<not> due ?now p) (pending_timers (sl_queues s ! i))"
    by auto
  let ?s1 = "s\<lparr>sl_queues := (sl_queues s)[i := q1], sl_expired := (sl_expired s)[i := ex1]\<rparr>"
  have step: "sleepers_step (Poll_Queue i current) s = Some (Inr ?s1)" using p i by simp
  then have inv1: "sleepers_inv ?s1" using sleepers_step_ok [OF inv, of "Poll_Queue i current"] by auto
  have i1: "i < length (sl_queues ?s1)" using i by simp
  from process_steps [OF inv1 i1] obtain q2 where
    r: "run sleepers_step ?s1 (replicate (length (sl_expired ?s1 ! i)) (Process_Next i)) =
      Some (Inr (?s1\<lparr>sl_queues := (sl_queues ?s1)[i := q2], sl_expired := (sl_expired ?s1)[i := []]\<rparr>))"
    and t: "tq_tree q2 = tq_tree (sl_queues ?s1 ! i)" by blast
  let ?s2 = "?s1\<lparr>sl_queues := (sl_queues ?s1)[i := q2], sl_expired := (sl_expired ?s1)[i := []]\<rparr>"
  have inv2: "sleepers_inv ?s2"
    using sleepers.run_no_panic_from [OF inv1] r
    by (metis reach_run_from reach_start sleepers_inv_reach inv1)
  have n2: "n < length (sl_sleeps ?s2)" and st2: "sl_sleeps ?s2 ! n = Polling i d" using n st by simp_all
  have cell2: "cell_inv q2 [] (live_delays i (sl_sleeps s))"
    using sleepers_cell [OF inv2, of i] i li by simp
  have "d_deadline d \<le> ?now" using due by (simp add: le_max_iff_disj)
  then have "(d_deadline d, d_entry d) \<notin> set (pending_timers q2)"
    using t pend i by auto
  then have "aw_notified (re_waker (tq_heap q2 (d_entry d))) \<or>
      aw_state (re_waker (tq_heap q2 (d_entry d))) = NOTIFIED"
    using cell2 not_pending_not_queued [of q2 "live_delays i (sl_sleeps s)" d] d
    by (auto simp: cell_inv_def waiting_ok_def)
  moreover obtain res st' qs ws where
    sp: "sleep_poll ctx wi rng now (sl_queues ?s2) (sl_sleeps ?s2 ! n) = Inr (res, st', qs, ws)"
    and res: "res = Ready () \<longleftrightarrow> aw_notified (re_waker (tq_heap (sl_queues ?s2 ! i) (d_entry d))) \<or>
       aw_state (re_waker (tq_heap (sl_queues ?s2 ! i) (d_entry d))) = NOTIFIED"
    by (rule sleepers_poll_polling [OF inv2 n2 st2]) (rule that)
  ultimately have "res = Ready ()" using i by simp
  with sp show thesis using that [OF step r] by blast
qed

end
