(* ===== verification/Timer_Properties.thy ===== *)
theory Timer_Properties
  imports Timers
begin

text \<open>The properties of timer queues and of sleeps.\<close>

lemmas timer_eval = sleepers_start_def sleep_poll_def queue_with_def tq_schedule_def tq_since_def
  tq_new_def try_u64_def as_millis_def tq_deadline_def checked_add64_def Let_def delay_poll_def
  shared_new_def tq_lower_expires_def nonzero64_def tq_alloc_entry_def tq_alloc_list_def
  cache_alloc_def cache_free_def tq_insert_def set_queued_def tq_entry_poll_def tq_entry_wake_def
  aw_poll_def aw_new_def raw_entry_default_def aw_check_def aw_cas_def aw_register_def aw_wake_def
  aw_fetch_notify_def tq_poll_def tq_poll_loop.simps tq_complete_def tq_unlink_def swap_remove_def
  MAX_CACHED_def swap_remove_first_def

text \<open>A queue with a 5 ms and a 7 ms timer, and a schedule on which a sleep waits.\<close>

definition two_timers :: "nat timer_queue" where
  "two_timers = (tq_new 0 :: nat timer_queue)\<lparr>tq_expires := 5, tq_tree := [(5, [0]), (7, [1])],
     tq_heap := (\<lambda>e. raw_entry_default\<lparr>re_queued := e < 2\<rparr>), tq_next := 2\<rparr>"

abbreviation two_delays :: "delay list" where
  "two_delays \<equiv> [\<lparr>d_deadline = 5, d_entry = 0\<rparr>, \<lparr>d_deadline = 7, d_entry = 1\<rparr>]"

lemma two_timers_inv: "tq_inv two_timers two_delays"
  by (auto simp: tq_inv_def two_timers_def tree_ok_def earliest_def queued_ok_def owners_ok_def
      raw_entry_default_def tq_new_def less_2_cases_iff)

lemma two_timers_pending: "pending_timers two_timers = [(5, 0), (7, 1)]"
  by (simp add: two_timers_def)

abbreviation run_sleeps :: "nat sleep_action list \<Rightarrow> nat sleepers res option" where
  "run_sleeps \<equiv> run sleepers_step (sleepers_start (Suc 0) 0)"

abbreviation one_sleep :: "nat sleep_action list" where
  "one_sleep \<equiv> [New_Sleep (Inr 5000000), Poll_Sleep 0 7 None 0 0]"

lemma one_sleep_runs:
  "\<exists>s. run_sleeps one_sleep = Some (Inr s) \<and> length (sl_sleeps s) = 1 \<and> length (sl_queues s) = 1 \<and>
       sl_sleeps s ! 0 = Polling 0 \<lparr>d_deadline = 5, d_entry = 0\<rparr>"
  by (simp add: timer_eval)

subsection \<open>Every schedule\<close>

text \<open>
  C9: no schedule of polling, dropping and creating sleeps on any number of workers, of
  polling their timer queues and of processing what expired, panics: the assertion that an
  expired entry is queued, the \<open>unreachable!\<close> of \<open>complete\<close>, the \<open>unwrap\<close>s on the list and
  on \<open>expires\<close> and the wakers' assertions never fail.
\<close>

theorem sleeps_never_panic:
  "run sleepers_step (sleepers_start (Suc workers) started) schedule \<noteq> Some (Inl p)"
  by (rule sleepers.run_no_panic)

text \<open>
  In every reachable state the published \<open>expires\<close> of a queue is the deadline of its
  earliest pending timer, and \<open>None\<close> exactly when it has no pending timer.
\<close>

theorem timer_expires_is_earliest:
  assumes "reach sleepers_step (sleepers_start (Suc workers) started) s" "i < length (sl_queues s)"
  shows "tq_expires_at (sl_queues s ! i) =
     (let deadlines = fst ` set (pending_timers (sl_queues s ! i))
      in if deadlines = {} then None else Some (Min deadlines))"
proof -
  let ?q = "sl_queues s ! i" and ?m = "tq_tree (sl_queues s ! i)"
  have inv: "tq_inv ?q (live_delays i (sl_sleeps s))"
    using sleepers_cell [OF sleepers.reach_inv [OF assms(1)] assms(2)] by (simp add: cell_inv_def)
  then have ok: "tree_ok ?m" and e: "tq_expires ?q = earliest ?m" by (simp_all add: tq_inv_def)
  show ?thesis
  proof (cases ?m)
    case Nil
    then show ?thesis using e by (simp add: tq_expires_at_def nonzero64_def earliest_def)
  next
    case (Cons p m)
    obtain d l where p: "p = (d, l)" by (cases p)
    have inv': "bt_inv ((d, l) # m)" and l: "l \<noteq> []" and d0: "d \<noteq> 0"
      using ok Cons p by (auto simp: tree_ok_def)
    have mem: "d \<in> fst ` set (bt_pairs ?m)" using l Cons p by (cases l) simp_all
    have "d \<le> k" if "k \<in> fst ` set (bt_pairs ?m)" for k
      using that Cons p bt_pairs_keys [OF inv', of k] by fastforce
    then have "Min (fst ` set (bt_pairs ?m)) = d" by (intro Min_eqI) (use mem in auto)
    moreover have "fst ` set (bt_pairs ?m) \<noteq> {}" using l Cons p by simp
    ultimately show ?thesis
      using e Cons p d0 by (simp add: tq_expires_at_def nonzero64_def earliest_def Let_def)
  qed
qed

theorem timer_expires_is_earliest_witness:
  "\<exists>s. run_sleeps one_sleep = Some (Inr s) \<and>
     tq_expires_at (sl_queues s ! 0) =
     (let deadlines = fst ` set (pending_timers (sl_queues s ! 0))
      in if deadlines = {} then None else Some (Min deadlines))"
proof -
  obtain s where r: "run_sleeps one_sleep = Some (Inr s)" and l: "0 < length (sl_queues s)"
    using one_sleep_runs by force
  show ?thesis by (intro exI conjI, rule r, rule timer_expires_is_earliest [OF run_reach [OF r] l])
qed

text \<open>
  C23: in every reachable state a timer queue is well formed: the deadlines of its tree are
  positive and strictly increasing and none is without entries, an entry is pending at most
  once and exactly when it is marked as queued, every pending entry belongs to a live delay,
  and the entries kept for reuse are distinct and belong to none.
\<close>

theorem timer_queues_are_well_formed:
  assumes "reach sleepers_step (sleepers_start (Suc workers) started) s" "i < length (sl_queues s)"
  shows "bt_inv (tq_tree (sl_queues s ! i)) \<and> (\<forall>(d, es) \<in> set (tq_tree (sl_queues s ! i)). es \<noteq> [] \<and> d \<noteq> 0) \<and>
     distinct (map snd (pending_timers (sl_queues s ! i))) \<and>
     (\<forall>e. re_queued (tq_heap (sl_queues s ! i) e) \<longleftrightarrow> e \<in> snd ` set (pending_timers (sl_queues s ! i))) \<and>
     snd ` set (pending_timers (sl_queues s ! i)) \<subseteq> d_entry ` set (live_delays i (sl_sleeps s)) \<and>
     distinct (tq_entry_cache (sl_queues s ! i)) \<and>
     d_entry ` set (live_delays i (sl_sleeps s)) \<inter> set (tq_entry_cache (sl_queues s ! i)) = {}"
proof -
  have inv: "tq_inv (sl_queues s ! i) (live_delays i (sl_sleeps s))"
    using sleepers_cell [OF sleepers.reach_inv [OF assms(1)] assms(2)] by (simp add: cell_inv_def)
  have tree: "tree_ok (tq_tree (sl_queues s ! i))" and queued: "queued_ok (sl_queues s ! i)"
    and owners: "owners_ok (sl_queues s ! i) (live_delays i (sl_sleeps s))"
    using inv by (simp_all add: tq_inv_def)
  have "snd ` set (pending_timers (sl_queues s ! i)) \<subseteq> d_entry ` set (live_delays i (sl_sleeps s))"
  proof clarify
    fix d e assume "(d, e) \<in> set (pending_timers (sl_queues s ! i))"
    then have "\<lparr>d_deadline = d, d_entry = e\<rparr> \<in> set (live_delays i (sl_sleeps s))"
      using owners unfolding owners_ok_def by blast
    then have "d_entry \<lparr>d_deadline = d, d_entry = e\<rparr> \<in> d_entry ` set (live_delays i (sl_sleeps s))" by (rule imageI)
    then show "snd (d, e) \<in> d_entry ` set (live_delays i (sl_sleeps s))" by simp
  qed
  then show ?thesis
    using tree queued owners unfolding tree_ok_def queued_ok_def owners_ok_def by (intro conjI) simp_all
qed

theorem timer_queues_are_well_formed_witness:
  "\<exists>s. run_sleeps one_sleep = Some (Inr s) \<and> distinct (map snd (pending_timers (sl_queues s ! 0)))"
proof -
  obtain s where r: "run_sleeps one_sleep = Some (Inr s)" and l: "0 < length (sl_queues s)"
    using one_sleep_runs by force
  have "distinct (map snd (pending_timers (sl_queues s ! 0)))"
    using timer_queues_are_well_formed [OF run_reach [OF r] l] by (elim conjE)
  then show ?thesis using r by (intro exI conjI)
qed

text \<open>
  C16: a sleep that waits is never forgotten. In every reachable state its entry is pending
  in its queue under its deadline, or has expired and is about to be woken, or its waker
  is already notified.
\<close>

theorem waiting_sleep_is_not_forgotten:
  assumes "reach sleepers_step (sleepers_start (Suc workers) started) s"
    "Polling i d \<in> set (sl_sleeps s)"
  shows "i < length (sl_queues s) \<and>
    ((d_deadline d, d_entry d) \<in> set (pending_timers (sl_queues s ! i)) \<or>
     d_entry d \<in> set (sl_expired s ! i) \<or>
     aw_notified (re_waker (tq_heap (sl_queues s ! i) (d_entry d))) \<or>
     aw_state (re_waker (tq_heap (sl_queues s ! i) (d_entry d))) = NOTIFIED)"
proof -
  have inv: "sleepers_inv s" by (rule sleepers.reach_inv [OF assms(1)])
  then have i: "i < length (sl_queues s)" using assms(2) by (auto simp: sleepers_inv_def)
  have d: "d \<in> set (live_delays i (sl_sleeps s))" using assms(2) by (simp add: live_delays_mem)
  have q: "tq_inv (sl_queues s ! i) (live_delays i (sl_sleeps s))"
    and w: "waiting_ok (sl_queues s ! i) (sl_expired s ! i) (live_delays i (sl_sleeps s))"
    using sleepers_cell [OF inv i] by (simp_all add: cell_inv_def)
  show ?thesis
    using i d w not_pending_not_queued [OF q d] unfolding waiting_ok_def by blast
qed

theorem waiting_sleep_is_not_forgotten_witness:
  "\<exists>s. run_sleeps one_sleep = Some (Inr s) \<and> 0 < length (sl_queues s) \<and>
     ((5, 0) \<in> set (pending_timers (sl_queues s ! 0)) \<or> 0 \<in> set (sl_expired s ! 0) \<or>
      aw_notified (re_waker (tq_heap (sl_queues s ! 0) 0)) \<or>
      aw_state (re_waker (tq_heap (sl_queues s ! 0) 0)) = NOTIFIED)"
proof -
  obtain s where r: "run_sleeps one_sleep = Some (Inr s)" and l: "length (sl_sleeps s) = 1"
    and p: "sl_sleeps s ! 0 = Polling 0 \<lparr>d_deadline = 5, d_entry = 0\<rparr>"
    using one_sleep_runs by blast
  from l have "sl_sleeps s = [sl_sleeps s ! 0]" by (cases "sl_sleeps s") auto
  then have "Polling 0 \<lparr>d_deadline = 5, d_entry = 0\<rparr> \<in> set (sl_sleeps s)" using p
    by (metis list.set_intros(1))
  from waiting_sleep_is_not_forgotten [OF run_reach [OF r] this] r show ?thesis by auto
qed

text \<open>
  C15: a due sleep completes. From any reachable state in which a sleep waits for a
  deadline that a worker's clock has reached, the worker's poll of the queue and the
  processing of what it expired run without blocking, and then the next poll of the sleep
  returns \<open>Ready\<close>.
\<close>

theorem due_sleep_completes:
  assumes "reach sleepers_step (sleepers_start (Suc workers) started) s"
    "n < length (sl_sleeps s)" "sl_sleeps s ! n = Polling i d" "d_deadline d \<le> current"
  shows "\<exists>s1 s2 st qs ws. sleepers_step (Poll_Queue i current) s = Some (Inr s1) \<and>
    run sleepers_step s1 (replicate (length (sl_expired s1 ! i)) (Process_Next i)) = Some (Inr s2) \<and>
    sleep_poll ctx wi rng now (sl_queues s2) (sl_sleeps s2 ! n) = Inr (Ready (), st, qs, ws)"
  using due_sleep_runs [OF sleepers.reach_inv [OF assms(1)] assms(2-4)] by metis

theorem due_sleep_completes_witness:
  "\<exists>s s1 s2 st qs ws. run_sleeps one_sleep = Some (Inr s) \<and>
    sleepers_step (Poll_Queue 0 9) s = Some (Inr s1) \<and>
    run sleepers_step s1 (replicate (length (sl_expired s1 ! 0)) (Process_Next 0)) = Some (Inr s2) \<and>
    sleep_poll 7 None 0 0 (sl_queues s2) (sl_sleeps s2 ! 0) = Inr (Ready (), st, qs, ws)"
proof -
  obtain s where r: "run_sleeps one_sleep = Some (Inr s)" and l: "length (sl_sleeps s) = 1"
    and p: "sl_sleeps s ! 0 = Polling 0 \<lparr>d_deadline = 5, d_entry = 0\<rparr>"
    using one_sleep_runs by blast
  have "d_deadline \<lparr>d_deadline = 5, d_entry = 0\<rparr> \<le> 9" by simp
  with due_sleep_completes [OF run_reach [OF r], of 0 0 _ 9 7 None 0 0] l p r show ?thesis by auto
qed

text \<open>
  \<open>Expired::process\<close> is the run of its single wake-ups: from a reachable state, waking
  the expired entries of a worker one by one ends in the state \<open>process\<close> computes, with
  nothing left to wake.
\<close>

theorem process_is_run_of_wakes:
  assumes "reach sleepers_step (sleepers_start (Suc workers) started) s" "i < length (sl_queues s)"
  shows "\<exists>fs q. expired_process (sl_queues s ! i) (sl_expired s ! i) = Inr (fs, q) \<and>
     run sleepers_step s (replicate (length (sl_expired s ! i)) (Process_Next i)) =
       Some (Inr (s\<lparr>sl_queues := (sl_queues s)[i := q], sl_expired := (sl_expired s)[i := []]\<rparr>))"
  using process_steps [OF sleepers.reach_inv [OF assms(1)] assms(2)] by metis

theorem process_is_run_of_wakes_witness:
  "\<exists>s fs q. run_sleeps (one_sleep @ [Poll_Queue 0 9]) = Some (Inr s) \<and>
     expired_process (sl_queues s ! 0) (sl_expired s ! 0) = Inr (fs, q) \<and>
     run sleepers_step s (replicate (length (sl_expired s ! 0)) (Process_Next 0)) =
       Some (Inr (s\<lparr>sl_queues := (sl_queues s)[0 := q], sl_expired := (sl_expired s)[0 := []]\<rparr>))"
proof -
  obtain s where r: "run_sleeps (one_sleep @ [Poll_Queue 0 9]) = Some (Inr s)"
    and l: "length (sl_queues s) = 1"
    by (simp add: timer_eval)
  then show ?thesis using process_is_run_of_wakes [OF run_reach [OF r], of 0] by auto
qed

subsection \<open>Single operations\<close>

text \<open>
  \<open>poll\<close> expires exactly the timers that are due, in the order of their deadlines: they
  are appended to the expired list, they leave the queue, and every other timer stays.
\<close>

theorem timer_poll_expires_exactly_the_due:
  fixes q :: "'w timer_queue"
  assumes "tq_inv q live"
  shows "\<exists>q' late. tq_poll q current expired = Inr (q', expired @ map snd late) \<and>
    mset (pending_timers q) = mset late + mset (pending_timers q') \<and>
    sorted (map fst late) \<and>
    (\<forall>t \<in> set late. fst t \<le> max (tq_current q) current) \<and>
    (\<forall>t \<in> set (pending_timers q'). max (tq_current q) current < fst t) \<and> tq_inv q' live"
proof -
  let ?now = "max (tq_current q) current"
  let ?late = "filter (due ?now) (pending_timers q)"
  from tq_poll_ok [OF assms, of current expired] obtain q' where
    p: "tq_poll q current expired = Inr (q', expired @ map snd ?late)"
    and r: "pending_timers q' = filter (\<lambda>p. \<not> due ?now p) (pending_timers q)"
    and i: "tq_inv q' live" by auto
  have "bt_inv (tq_tree q)" using assms by (simp add: tq_inv_def tree_ok_def)
  then have "sorted (map fst ?late)" using bt_pairs_sorted sorted_filter by blast
  moreover have "mset (pending_timers q) = mset ?late + mset (pending_timers q')"
    unfolding r by simp
  ultimately show ?thesis
    using p i r by (intro exI [where x = q'] exI [where x = ?late]) (auto simp: not_le)
qed

theorem timer_poll_expires_exactly_the_due_witness:
  "\<exists>q' late. tq_poll two_timers 6 [] = Inr (q', [] @ map snd late) \<and>
    mset (pending_timers two_timers) = mset late + mset (pending_timers q') \<and>
    sorted (map fst late) \<and>
    (\<forall>t \<in> set late. fst t \<le> max (tq_current two_timers) 6) \<and>
    (\<forall>t \<in> set (pending_timers q'). max (tq_current two_timers) 6 < fst t) \<and> tq_inv q' two_delays"
  by (rule timer_poll_expires_exactly_the_due [OF two_timers_inv])

text \<open>
  \<open>schedule\<close> refuses a zero duration and a deadline that is not in the future, and
  otherwise adds exactly one timer, under the requested deadline and on an entry that no
  live delay owns.
\<close>

theorem timer_schedule_adds_one:
  assumes "tq_inv q live"
  shows "let q1 = q\<lparr>tq_current := tq_since q now\<rparr>; deadline = tq_deadline q1 request in
    if request = Inr 0 then tq_schedule q now request = Inr (None, q)
    else if deadline \<le> tq_since q now then tq_schedule q now request = Inr (None, q1)
    else \<exists>e q'. tq_schedule q now request = Inr (Some \<lparr>d_deadline = deadline, d_entry = e\<rparr>, q') \<and>
      mset (pending_timers q') = add_mset (deadline, e) (mset (pending_timers q)) \<and>
      e \<notin> d_entry ` set live \<and> tq_inv q' (\<lparr>d_deadline = deadline, d_entry = e\<rparr> # live)"
proof -
  let ?q1 = "q\<lparr>tq_current := tq_since q now\<rparr>"
  let ?d = "tq_deadline ?q1 request"
  have inv: "tq_inv ?q1 live" using assms by simp
  have "\<exists>e q'. tq_schedule q now request = Inr (Some \<lparr>d_deadline = ?d, d_entry = e\<rparr>, q') \<and>
      mset (pending_timers q') = add_mset (?d, e) (mset (pending_timers q)) \<and>
      e \<notin> d_entry ` set live \<and> tq_inv q' (\<lparr>d_deadline = ?d, d_entry = e\<rparr> # live)"
    if c: "request \<noteq> Inr 0" "\<not> ?d \<le> tq_since q now"
  proof -
    have "?d \<noteq> 0" using c(2) by auto
    from tq_add_ok [OF inv this] obtain e q' where
      "tq_add ?d ?q1 = Inr (Some \<lparr>d_deadline = ?d, d_entry = e\<rparr>, q')"
      "tq_inv q' (\<lparr>d_deadline = ?d, d_entry = e\<rparr> # live)"
      "mset (pending_timers q') = add_mset (?d, e) (mset (pending_timers ?q1))"
      "e \<notin> d_entry ` set live" by metis
    moreover have "tq_schedule q now request = tq_add ?d ?q1"
      using c by (simp add: tq_schedule_eq Let_def)
    ultimately show ?thesis by auto
  qed
  then show ?thesis by (simp add: Let_def tq_schedule_eq)
qed

theorem timer_schedule_adds_one_witness:
  "let q1 = two_timers\<lparr>tq_current := tq_since two_timers 0\<rparr>; deadline = tq_deadline q1 (Inr 9000000) in
    if (Inr 9000000 :: delay_request) = Inr 0 then tq_schedule two_timers 0 (Inr 9000000) = Inr (None, two_timers)
    else if deadline \<le> tq_since two_timers 0 then tq_schedule two_timers 0 (Inr 9000000) = Inr (None, q1)
    else \<exists>e q'. tq_schedule two_timers 0 (Inr 9000000) =
        Inr (Some \<lparr>d_deadline = deadline, d_entry = e\<rparr>, q') \<and>
      mset (pending_timers q') = add_mset (deadline, e) (mset (pending_timers two_timers)) \<and>
      e \<notin> d_entry ` set two_delays \<and> tq_inv q' (\<lparr>d_deadline = deadline, d_entry = e\<rparr> # two_delays)"
  by (rule timer_schedule_adds_one [OF two_timers_inv])

text \<open>
  Completing a live delay, due or not, removes exactly its timer (if it is still
  pending), frees its entry for reuse, and keeps the queue well formed for the delays that
  are left.
\<close>

theorem timer_complete_removes_exactly:
  assumes "tq_inv q live" "d \<in> set live"
  shows "\<exists>q'. tq_complete q d = Inr q' \<and>
    mset (pending_timers q') = mset (pending_timers q) - {#(d_deadline d, d_entry d)#} \<and>
    tq_entry_cache q' = cache_free (d_entry d) (tq_entry_cache q) \<and>
    tq_inv q' (remove1 d live)"
  using tq_complete_ok [OF assms] by metis

theorem timer_complete_removes_exactly_witness:
  "\<exists>q'. tq_complete two_timers \<lparr>d_deadline = 5, d_entry = 0\<rparr> = Inr q' \<and>
    mset (pending_timers q') = mset (pending_timers two_timers) - {#(5, 0)#} \<and>
    tq_entry_cache q' = cache_free 0 (tq_entry_cache two_timers) \<and>
    tq_inv q' [\<lparr>d_deadline = 7, d_entry = 1\<rparr>]"
  using timer_complete_removes_exactly [OF two_timers_inv, of "\<lparr>d_deadline = 5, d_entry = 0\<rparr>"]
  by simp



subsection \<open>Recycled entries\<close>

text \<open>
  An entry goes back to the cache with its waker still notified, so a sleep that gets a
  recycled entry does not sleep: after a 5 ms sleep has completed, a new sleep of an hour on
  the same queue is \<open>Ready\<close> at its first poll.
\<close>

theorem recycled_entry_does_not_sleep:
  "\<exists>s st qs ws. run_sleeps (one_sleep @ [Poll_Queue 0 10, Process_Next 0,
       Poll_Sleep 0 7 None 0 10000000, New_Sleep (Inr 3600000000000)]) = Some (Inr s) \<and>
     sl_sleeps s = [Polled, Start (Inr 3600000000000)] \<and>
     sleep_poll 7 None 0 10000000 (sl_queues s) (sl_sleeps s ! 1) = Inr (Ready (), st, qs, ws)"
  by (simp add: timer_eval)

end
