(* ===== verification/Timeouts.thy ===== *)
theory Timeouts
  imports Timers
begin

text \<open>
  \<open>src/src/time/timeouts.rs\<close> and \<open>error.rs\<close>: a future raced against a sleep. The future is a
  parameter, a function from its state to the result of a poll and its next state.
\<close>

datatype elapsed = Elapsed

record 'f timeout =
  to_sleeper :: sleep_state
  to_future :: 'f

definition timeout_new :: "duration \<Rightarrow> 'f \<Rightarrow> 'f timeout" where
  "timeout_new d f = \<lparr>to_sleeper = sleep d, to_future = f\<rparr>"

definition timeout_at :: "instant \<Rightarrow> 'f \<Rightarrow> 'f timeout" where
  "timeout_at t f = \<lparr>to_sleeper = sleep_until t, to_future = f\<rparr>"

definition timeout_into_inner :: "'f timeout \<Rightarrow> 'f" where
  "timeout_into_inner t = to_future t"

text \<open>\<open>From<Elapsed> for io::Error\<close>.\<close>

definition elapsed_to_io :: "elapsed \<Rightarrow> io_error_kind" where
  "elapsed_to_io e = TimedOut"

definition timeout_poll :: "('f \<Rightarrow> 'a poll \<times> 'f) \<Rightarrow> 'w \<Rightarrow> nat option \<Rightarrow> usize \<Rightarrow> instant \<Rightarrow>
    'w timer_queue list \<Rightarrow> 'f timeout \<Rightarrow>
    ((elapsed + 'a) poll \<times> 'f timeout \<times> 'w timer_queue list \<times> 'w list) res" where
  "timeout_poll future ctx wi rng now qs t =
     (let (r, f) = future (to_future t); t1 = t\<lparr>to_future := f\<rparr>
      in case r of
           Ready v \<Rightarrow> Inr (Ready (Inr v), t1, qs, [])
         | Pending \<Rightarrow>
             rbind (sleep_poll ctx wi rng now qs (to_sleeper t1)) (\<lambda>(r2, st, qs', ws).
               Inr (case r2 of Ready _ \<Rightarrow> Ready (Inl Elapsed) | Pending \<Rightarrow> Pending,
                    t1\<lparr>to_sleeper := st\<rparr>, qs', ws)))"

text \<open>
  A timeout is the future's result when the future is ready, whatever the sleep, and
  \<open>Elapsed\<close> only when the future is pending and the sleep is over.
\<close>

theorem timeout_poll_prefers_the_future:
  assumes "timeout_poll future ctx wi rng now qs t = Inr (res, t', qs', ws)"
  shows "(case fst (future (to_future t)) of
       Ready v \<Rightarrow> res = Ready (Inr v) \<and> to_sleeper t' = to_sleeper t \<and> qs' = qs
     | Pending \<Rightarrow> (\<exists>r. sleep_poll ctx wi rng now qs (to_sleeper t) = Inr (r, to_sleeper t', qs', ws) \<and>
         res = (if is_ready r then Ready (Inl Elapsed) else Pending)))
     \<and> to_future t' = snd (future (to_future t))"
proof -
  obtain r f where f: "future (to_future t) = (r, f)" by (cases "future (to_future t)")
  show ?thesis
  proof (cases r)
    case (Ready v)
    with assms f show ?thesis by (auto simp: timeout_poll_def)
  next
    case Pending
    with assms f obtain r2 st where
      p: "sleep_poll ctx wi rng now qs (to_sleeper t) = Inr (r2, st, qs', ws)"
      and e: "res = (case r2 of Ready _ \<Rightarrow> Ready (Inl Elapsed) | Pending \<Rightarrow> Pending)"
        "t' = t\<lparr>to_future := f, to_sleeper := st\<rparr>"
      by (auto simp: timeout_poll_def)
    then show ?thesis using f Pending by (cases r2) simp_all
  qed
qed

theorem timeout_poll_prefers_the_future_witness:
  "\<exists>res t'. timeout_poll (\<lambda>n. (if n = 0 then Ready CHR ''x'' else Pending, n - 1)) (7::nat) None 0 0
       [tq_new 0] (timeout_new 5000000 (0::nat)) = Inr (res, t', [tq_new 0], []) \<and>
     res = Ready (Inr CHR ''x'') \<and> to_sleeper t' = Start (Inr 5000000) \<and> to_future t' = 0"
proof -
  let ?f = "\<lambda>n::nat. (if n = 0 then Ready CHR ''x'' else Pending, n - 1)"
  have "timeout_poll ?f (7::nat) None 0 0 [tq_new 0] (timeout_new 5000000 (0::nat)) =
      Inr (Ready (Inr CHR ''x''), timeout_new 5000000 0, [tq_new 0], [])"
    by (simp add: timeout_poll_def timeout_new_def)
  from this timeout_poll_prefers_the_future [OF this] show ?thesis
    by (simp add: timeout_new_def sleep_def)
qed

text \<open>
  A due timeout elapses: when the sleeper of a timeout waits for a deadline that the
  worker's clock has reached, then after the worker's poll and processing the next poll of
  the timeout returns \<open>Elapsed\<close>, if the future is still pending.
\<close>

theorem due_timeout_elapses:
  assumes "reach sleepers_step (sleepers_start (Suc workers) started) s"
    "n < length (sl_sleeps s)" "sl_sleeps s ! n = Polling i d" "d_deadline d \<le> current"
    "future (to_future t) = (Pending, f)"
  shows "\<exists>s1 s2 t' qs ws. sleepers_step (Poll_Queue i current) s = Some (Inr s1) \<and>
    run sleepers_step s1 (replicate (length (sl_expired s1 ! i)) (Process_Next i)) = Some (Inr s2) \<and>
    timeout_poll future ctx wi rng now (sl_queues s2) (t\<lparr>to_sleeper := sl_sleeps s2 ! n\<rparr>) =
      Inr (Ready (Inl Elapsed), t', qs, ws)"
proof -
  obtain s1 s2 where r: "sleepers_step (Poll_Queue i current) s = Some (Inr s1)"
    "run sleepers_step s1 (replicate (length (sl_expired s1 ! i)) (Process_Next i)) = Some (Inr s2)"
    and p: "\<exists>st qs ws. sleep_poll ctx wi rng now (sl_queues s2) (sl_sleeps s2 ! n) = Inr (Ready (), st, qs, ws)"
    by (rule due_sleep_runs [OF sleepers.reach_inv [OF assms(1)] assms(2-4)]) (rule that)
  from p obtain st qs ws where
    "sleep_poll ctx wi rng now (sl_queues s2) (sl_sleeps s2 ! n) = Inr (Ready (), st, qs, ws)" by blast
  then have "timeout_poll future ctx wi rng now (sl_queues s2) (t\<lparr>to_sleeper := sl_sleeps s2 ! n\<rparr>) =
      Inr (Ready (Inl Elapsed), t\<lparr>to_future := f, to_sleeper := st\<rparr>, qs, ws)"
    using assms(5) by (simp add: timeout_poll_def)
  with r show ?thesis by blast
qed

abbreviation one_timeout :: "nat sleep_action list" where
  "one_timeout \<equiv> [New_Sleep (Inr 5000000), Poll_Sleep 0 7 None 0 0]"

lemma one_timeout_runs:
  "\<exists>s. run sleepers_step (sleepers_start (Suc 0) 0) one_timeout = Some (Inr s) \<and>
     length (sl_sleeps s) = 1 \<and> sl_sleeps s ! 0 = Polling 0 \<lparr>d_deadline = 5, d_entry = 0\<rparr>"
  by (simp add: sleepers_start_def sleep_poll_def queue_with_def tq_schedule_def tq_since_def
      tq_new_def try_u64_def as_millis_def tq_deadline_def checked_add64_def Let_def delay_poll_def
      shared_new_def tq_lower_expires_def nonzero64_def tq_alloc_entry_def tq_alloc_list_def
      cache_alloc_def tq_insert_def set_queued_def tq_entry_poll_def aw_poll_def aw_new_def
      raw_entry_default_def aw_check_def aw_cas_def aw_register_def)

theorem due_timeout_elapses_witness:
  "\<exists>s s1 s2 t' qs ws. run sleepers_step (sleepers_start (Suc 0) 0) one_timeout = Some (Inr s) \<and>
    sleepers_step (Poll_Queue 0 9) s = Some (Inr s1) \<and>
    run sleepers_step s1 (replicate (length (sl_expired s1 ! 0)) (Process_Next 0)) = Some (Inr s2) \<and>
    timeout_poll (\<lambda>u. (Pending :: char poll, u)) 7 None 0 0 (sl_queues s2)
      ((timeout_new 5000000 ())\<lparr>to_sleeper := sl_sleeps s2 ! 0\<rparr>) =
      Inr (Ready (Inl Elapsed), t', qs, ws)"
proof -
  obtain s where r: "run sleepers_step (sleepers_start (Suc 0) 0) one_timeout = Some (Inr s)"
    and l: "length (sl_sleeps s) = 1"
    and p: "sl_sleeps s ! 0 = Polling 0 \<lparr>d_deadline = 5, d_entry = 0\<rparr>"
    using one_timeout_runs by blast
  have n: "0 < length (sl_sleeps s)" and d: "d_deadline \<lparr>d_deadline = 5, d_entry = 0\<rparr> \<le> 9"
    using l by simp_all
  from r due_timeout_elapses [OF run_reach [OF r] n p d, of "\<lambda>u. (Pending :: char poll, u)"
      "timeout_new 5000000 ()" "()" 7 None 0 0]
  show ?thesis by auto
qed

end
