(* ===== verification/Waker_Storage.thy ===== *)
theory Waker_Storage
  imports Atomic_Waker
begin

text \<open>
  \<open>src/src/net/internal/wakers.rs\<close>: the storage that hands out pairs of wakers under 32-bit
  indices, in blocks that are allocated on demand and never freed. The numbers of entries
  per block and of blocks depend on \<open>size_of\<close> and are parameters.
\<close>

subsection \<open>Indices\<close>

datatype waker_kind = Read | Write

record waker_index =
  wi_block :: u16
  wi_entry :: u16

definition index_into_usize :: "waker_index \<Rightarrow> usize" where
  "index_into_usize i = (push_bit 16 (ucast (wi_block i)) :: usize) OR ucast (wi_entry i)"

definition try_u16 :: "usize \<Rightarrow> u16 option" where
  "try_u16 v = (if unat v < 2 ^ 16 then Some (ucast v) else None)"

definition index_from_usize :: "usize \<Rightarrow> waker_index res" where
  "index_from_usize value =
     rbind (unwrap (try_u16 (drop_bit 16 value AND 0xffff))) (\<lambda>block.
     rbind (unwrap (try_u16 (value AND 0xffff))) (\<lambda>entry.
       Inr \<lparr>wi_block = block, wi_entry = entry\<rparr>))"

subsection \<open>State\<close>

type_synonym 'w waker_entry = "waker_kind \<Rightarrow> 'w atomic_waker"
type_synonym 'w waker_block = "'w waker_entry list"

record 'w waker_storage =
  ws_array :: "'w waker_block option list option"
  ws_next_block :: u16
  ws_available :: "waker_index list"

definition ws_new :: "'w waker_storage" where
  "ws_new = \<lparr>ws_array = None, ws_next_block = 0, ws_available = []\<rparr>"

definition EMPTY_ENTRY :: "'w waker_entry" where
  "EMPTY_ENTRY = (\<lambda>kind. aw_new)"

subsection \<open>Operations\<close>

text \<open>\<open>VecDeque::pop_back\<close>.\<close>

definition pop_back :: "'a list \<Rightarrow> ('a \<times> 'a list) option" where
  "pop_back xs = (if xs = [] then None else Some (last xs, butlast xs))"

definition block_indices :: "nat \<Rightarrow> u16 \<Rightarrow> waker_index list" where
  "block_indices num_entries block =
     map (\<lambda>e. \<lparr>wi_block = block, wi_entry = of_nat e\<rparr>) (rev [0..<num_entries])"

definition ws_alloc :: "nat \<Rightarrow> nat \<Rightarrow> 'w waker_storage \<Rightarrow>
    (waker_index option \<times> 'w waker_storage) res" where
  "ws_alloc num_blocks num_entries ws =
     (case pop_back (ws_available ws) of
        Some (i, rest) \<Rightarrow> Inr (Some i, ws\<lparr>ws_available := rest\<rparr>)
      | None \<Rightarrow>
          let ws1 = (case ws_array ws of
                       None \<Rightarrow> ws\<lparr>ws_array := Some (replicate num_blocks None)\<rparr>
                     | Some a \<Rightarrow> ws)
          in rbind (unwrap (ws_array ws1)) (\<lambda>array.
             if unat (ws_next_block ws1) = num_blocks then Inr (None, ws1)
             else if length array \<le> unat (ws_next_block ws1) then Inl Index_Out_Of_Bounds
             else if 2 ^ 16 < num_entries then Inl Unwrap_None
             else if 2 ^ 16 \<le> unat (ws_next_block ws1) + 1 then Inl Arithmetic_Overflow
             else
               let array' = array[unat (ws_next_block ws1) := Some (replicate num_entries EMPTY_ENTRY)];
                   available = ws_available ws1 @ block_indices num_entries (ws_next_block ws1);
                   ws2 = ws1\<lparr>ws_array := Some array', ws_next_block := ws_next_block ws1 + 1\<rparr>
               in Inr (case pop_back available of
                         Some (i, rest) \<Rightarrow> (Some i, ws2\<lparr>ws_available := rest\<rparr>)
                       | None \<Rightarrow> (None, ws2\<lparr>ws_available := available\<rparr>))))"

definition ws_free :: "waker_index \<Rightarrow> 'w waker_storage \<Rightarrow> 'w waker_storage" where
  "ws_free i ws = ws\<lparr>ws_available := ws_available ws @ [i]\<rparr>"

text \<open>\<open>with\<close>: the entry under an index, and the storage after its wakers changed.\<close>

definition ws_get :: "waker_index \<Rightarrow> 'w waker_storage \<Rightarrow> 'w waker_entry res" where
  "ws_get i ws =
     rbind (unwrap (ws_array ws)) (\<lambda>array.
     rbind (index array (unat (wi_block i))) (\<lambda>slot.
     rbind (unwrap slot) (\<lambda>block.
       index block (unat (wi_entry i)))))"

definition ws_put :: "waker_index \<Rightarrow> 'w waker_entry \<Rightarrow> 'w waker_storage \<Rightarrow> 'w waker_storage" where
  "ws_put i e ws =
     (case ws_array ws of
        None \<Rightarrow> ws
      | Some array \<Rightarrow>
          (case array ! unat (wi_block i) of
             None \<Rightarrow> ws
           | Some block \<Rightarrow>
               ws\<lparr>ws_array := Some (array[unat (wi_block i) := Some (block[unat (wi_entry i) := e])])\<rparr>))"

definition ws_with :: "waker_index \<Rightarrow> ('w waker_entry \<Rightarrow> ('r \<times> 'w waker_entry) res) \<Rightarrow>
    'w waker_storage \<Rightarrow> ('r \<times> 'w waker_storage) res" where
  "ws_with i f ws =
     rbind (ws_get i ws) (\<lambda>e. rbind (f e) (\<lambda>(r, e'). Inr (r, ws_put i e' ws)))"

subsection \<open>Indices fit into tokens\<close>

lemma and_ffff: "(x :: usize) AND 0xffff = take_bit 16 x"
  by (simp add: take_bit_eq_mask mask_eq_exp_minus_1)

lemma unat_and_ffff: "unat ((x :: usize) AND 0xffff) < 2 ^ 16"
  unfolding and_ffff unsigned_take_bit_eq by (rule take_bit_nat_less_exp)

lemma index_from_usize_ok:
  "index_from_usize v = Inr \<lparr>wi_block = ucast (drop_bit 16 v), wi_entry = ucast v\<rparr>"
proof -
  have "ucast (drop_bit 16 v AND 0xffff) = (ucast (drop_bit 16 v) :: u16)"
    "ucast (v AND 0xffff) = (ucast v :: u16)"
    unfolding and_ffff by (simp_all add: unsigned_take_bit_eq bit_eq_iff bit_take_bit_iff bit_simps)
  then show ?thesis
    using unat_and_ffff by (simp add: index_from_usize_def try_u16_def)
qed

lemma index_round_trip: "index_from_usize (index_into_usize i) = Inr i"
proof -
  have high: "\<not> bit (wi_entry i) (16 + n)" for n
    using bit_imp_le_length [of "wi_entry i" "16 + n"] by auto
  have "ucast (drop_bit 16 (index_into_usize i)) = wi_block i"
    by (rule bit_word_eqI) (auto simp: index_into_usize_def bit_simps high)
  moreover have "ucast (index_into_usize i) = wi_entry i"
    by (rule bit_word_eqI) (auto simp: index_into_usize_def bit_simps)
  ultimately show ?thesis by (simp add: index_from_usize_ok)
qed

lemma index_token_small: "unat (index_into_usize i) < 2 ^ 32"
proof -
  have "index_into_usize i = take_bit 32 (index_into_usize i)"
    by (rule bit_word_eqI) (auto simp: index_into_usize_def bit_simps bit_take_bit_iff dest: bit_imp_le_length)
  then show ?thesis by (metis unsigned_take_bit_eq take_bit_nat_less_exp)
qed

subsection \<open>The invariant\<close>

text \<open>The indices of the blocks allocated so far.\<close>

definition in_blocks :: "nat \<Rightarrow> 'w waker_storage \<Rightarrow> waker_index \<Rightarrow> bool" where
  "in_blocks num_entries ws i \<longleftrightarrow>
     unat (wi_block i) < unat (ws_next_block ws) \<and> unat (wi_entry i) < num_entries"

definition blocks_ok :: "nat \<Rightarrow> nat \<Rightarrow> 'w waker_storage \<Rightarrow> bool" where
  "blocks_ok num_blocks num_entries ws \<longleftrightarrow>
     unat (ws_next_block ws) \<le> num_blocks \<and>
     (case ws_array ws of
        None \<Rightarrow> ws_next_block ws = 0
      | Some array \<Rightarrow> length array = num_blocks \<and>
          (\<forall>b < unat (ws_next_block ws). \<exists>block. array ! b = Some block \<and>
             length block = num_entries \<and> (\<forall>e \<in> set block. \<forall>kind. aw_ok (e kind))))"

text \<open>Every index of an allocated block is either available or live, and never both.\<close>

definition ws_inv :: "nat \<Rightarrow> nat \<Rightarrow> 'w waker_storage \<Rightarrow> waker_index list \<Rightarrow> bool" where
  "ws_inv num_blocks num_entries ws live \<longleftrightarrow>
     blocks_ok num_blocks num_entries ws \<and> distinct (live @ ws_available ws) \<and>
     set (live @ ws_available ws) = {i. in_blocks num_entries ws i}"

abbreviation sizes_ok :: "nat \<Rightarrow> nat \<Rightarrow> bool" where
  "sizes_ok num_blocks num_entries \<equiv>
     0 < num_blocks \<and> num_blocks < 2 ^ 16 \<and> 0 < num_entries \<and> num_entries \<le> 2 ^ 16"

lemma ws_inv_new: "ws_inv num_blocks num_entries ws_new []"
  by (simp add: ws_inv_def blocks_ok_def ws_new_def in_blocks_def)

lemma ws_inv_mset:
  assumes "mset live = mset live'"
  shows "ws_inv nb ne ws live = ws_inv nb ne ws live'"
proof -
  have "mset (live @ ws_available ws) = mset (live' @ ws_available ws)" using assms by simp
  then show ?thesis
    using mset_eq_imp_distinct_iff mset_eq_setD unfolding ws_inv_def by metis
qed

lemma pop_back_Some:
  "pop_back xs = Some (x, ys) \<longleftrightarrow> xs = ys @ [x]"
  by (cases xs rule: rev_cases) (auto simp: pop_back_def)

lemma pop_back_None: "pop_back xs = None \<longleftrightarrow> xs = []"
  by (simp add: pop_back_def)

lemma in_blocks_available [simp]:
  "in_blocks ne (ws\<lparr>ws_available := a\<rparr>) i = in_blocks ne ws i"
  by (simp add: in_blocks_def)

lemma blocks_ok_available [simp]:
  "blocks_ok nb ne (ws\<lparr>ws_available := a\<rparr>) = blocks_ok nb ne ws"
  by (simp add: blocks_ok_def cong: option.case_cong)

lemma set_block_indices:
  assumes "ne \<le> 2 ^ 16"
  shows "set (block_indices ne b) = {i. wi_block i = b \<and> unat (wi_entry i) < ne}"
proof (rule set_eqI)
  fix i
  show "i \<in> set (block_indices ne b) \<longleftrightarrow> i \<in> {i. wi_block i = b \<and> unat (wi_entry i) < ne}"
  proof
    assume "i \<in> set (block_indices ne b)"
    then obtain e where "e < ne" "i = \<lparr>wi_block = b, wi_entry = of_nat e\<rparr>"
      by (auto simp: block_indices_def)
    then show "i \<in> {i. wi_block i = b \<and> unat (wi_entry i) < ne}"
      using assms unat_of_nat16 [of e] by simp
  next
    assume "i \<in> {i. wi_block i = b \<and> unat (wi_entry i) < ne}"
    then have "i = \<lparr>wi_block = b, wi_entry = of_nat (unat (wi_entry i))\<rparr>" "unat (wi_entry i) < ne"
      by simp_all
    then show "i \<in> set (block_indices ne b)"
      unfolding block_indices_def set_map set_rev set_upt by (intro image_eqI) simp_all
  qed
qed

lemma distinct_block_indices: "ne \<le> 2 ^ 16 \<Longrightarrow> distinct (block_indices ne b)"
proof -
  assume ne: "ne \<le> 2 ^ 16"
  have "inj_on (\<lambda>e. \<lparr>wi_block = b, wi_entry = of_nat e\<rparr>) {0..<ne}"
  proof (rule inj_onI)
    fix x y assume "x \<in> {0..<ne}" "y \<in> {0..<ne}"
      and "\<lparr>wi_block = b, wi_entry = of_nat x\<rparr> = \<lparr>wi_block = b, wi_entry = of_nat y\<rparr>"
    then have "(of_nat x :: u16) = of_nat y" "x < 2 ^ 16" "y < 2 ^ 16" using ne by auto
    then show "x = y" using unat_of_nat16 by metis
  qed
  then show ?thesis by (simp add: block_indices_def distinct_map)
qed

subsection \<open>The operations keep it\<close>

lemma ws_alloc_cached:
  assumes inv: "ws_inv nb ne ws live" and a: "ws_available ws = rest @ [i]"
  shows "ws_alloc nb ne ws = Inr (Some i, ws\<lparr>ws_available := rest\<rparr>)"
    "ws_inv nb ne (ws\<lparr>ws_available := rest\<rparr>) (i # live)"
proof -
  show "ws_alloc nb ne ws = Inr (Some i, ws\<lparr>ws_available := rest\<rparr>)"
    using a by (simp add: ws_alloc_def pop_back_def)
  have "distinct (live @ rest @ [i])" and "set (live @ rest @ [i]) = {i. in_blocks ne ws i}"
    and "blocks_ok nb ne ws"
    using inv a by (simp_all add: ws_inv_def)
  then show "ws_inv nb ne (ws\<lparr>ws_available := rest\<rparr>) (i # live)"
    by (auto simp: ws_inv_def)
qed

text \<open>Allocating a new block.\<close>

definition ws_grow :: "nat \<Rightarrow> nat \<Rightarrow> 'w waker_storage \<Rightarrow> 'w waker_storage" where
  "ws_grow nb ne ws =
     (let array = (case ws_array ws of None \<Rightarrow> replicate nb None | Some a \<Rightarrow> a)
      in ws\<lparr>ws_array := Some (array[unat (ws_next_block ws) := Some (replicate ne EMPTY_ENTRY)]),
            ws_next_block := ws_next_block ws + 1,
            ws_available := block_indices ne (ws_next_block ws)\<rparr>)"

lemma ws_grow_inv:
  assumes inv: "ws_inv nb ne ws live" and sz: "sizes_ok nb ne"
    and a: "ws_available ws = []" and n: "unat (ws_next_block ws) < nb"
  shows "ws_inv nb ne (ws_grow nb ne ws) live"
proof -
  let ?n = "ws_next_block ws" and ?ws = "ws_grow nb ne ws"
  let ?array = "case ws_array ws of None \<Rightarrow> replicate nb None | Some a \<Rightarrow> a"
  have b: "blocks_ok nb ne ws" and d: "distinct live" and s: "set live = {i. in_blocks ne ws i}"
    using inv a by (simp_all add: ws_inv_def)
  have n1: "unat (?n + 1) = Suc (unat ?n)" using n sz unat_add16 [of ?n 1] by simp
  have next': "ws_next_block ?ws = ?n + 1" and av: "ws_available ?ws = block_indices ne ?n"
    and arr: "ws_array ?ws = Some (?array[unat ?n := Some (replicate ne EMPTY_ENTRY)])"
    by (simp_all add: ws_grow_def Let_def)
  have len: "length ?array = nb" using b by (simp add: blocks_ok_def split: option.splits)
  have old: "\<exists>block. ?array ! k = Some block \<and> length block = ne \<and>
      (\<forall>e \<in> set block. \<forall>kind. aw_ok (e kind))" if "k < unat ?n" for k
    using b that by (auto simp: blocks_ok_def split: option.splits)
  have "blocks_ok nb ne ?ws"
    unfolding blocks_ok_def arr next' n1
    using n len old by (auto simp: nth_list_update EMPTY_ENTRY_def less_Suc_eq)
  moreover have "distinct (live @ ws_available ?ws)"
    using d s sz by (auto simp: av distinct_block_indices set_block_indices in_blocks_def)
  moreover have "set (live @ ws_available ?ws) = {i. in_blocks ne ?ws i}"
    using s sz by (auto simp: av set_block_indices in_blocks_def next' n1 less_Suc_eq word_unat_eq_iff)
  ultimately show ?thesis by (simp add: ws_inv_def)
qed

lemma ws_alloc_grow:
  assumes inv: "ws_inv nb ne ws live" and sz: "sizes_ok nb ne"
    and a: "ws_available ws = []" and n: "unat (ws_next_block ws) < nb"
  shows "ws_alloc nb ne ws = ws_alloc nb ne (ws_grow nb ne ws)"
proof -
  let ?n = "ws_next_block ws"
  have "block_indices ne ?n \<noteq> []" using sz by (simp add: block_indices_def)
  moreover have "blocks_ok nb ne ws" using inv by (simp add: ws_inv_def)
  ultimately show ?thesis
    using a n sz
    by (cases "ws_array ws")
       (auto simp: ws_alloc_def ws_grow_def pop_back_def Let_def blocks_ok_def)
qed

lemma ws_alloc_full:
  assumes inv: "ws_inv nb ne ws live" and sz: "sizes_ok nb ne"
    and a: "ws_available ws = []" and n: "unat (ws_next_block ws) = nb"
  shows "ws_alloc nb ne ws = Inr (None, ws)"
proof -
  obtain array where "ws_array ws = Some array"
    using inv sz n by (auto simp: ws_inv_def blocks_ok_def split: option.splits)
  then show ?thesis using a n by (simp add: ws_alloc_def pop_back_def)
qed

lemma ws_alloc_ok:
  assumes inv: "ws_inv nb ne ws live" and sz: "sizes_ok nb ne"
  obtains i ws' where "ws_alloc nb ne ws = Inr (Some i, ws')" "ws_inv nb ne ws' (i # live)"
  | "ws_alloc nb ne ws = Inr (None, ws)" "ws_available ws = []" "unat (ws_next_block ws) = nb"
proof (cases "ws_available ws" rule: rev_cases)
  case (snoc rest i)
  then show ?thesis using ws_alloc_cached [OF inv snoc] that(1) by blast
next
  case Nil
  have b: "blocks_ok nb ne ws" using inv by (simp add: ws_inv_def)
  show ?thesis
  proof (cases "unat (ws_next_block ws) = nb")
    case True
    then obtain a where "ws_array ws = Some a"
      using b sz by (auto simp: blocks_ok_def split: option.splits)
    then have "ws_alloc nb ne ws = Inr (None, ws)"
      using Nil True by (simp add: ws_alloc_def pop_back_def)
    then show ?thesis using that(2) Nil True by blast
  next
    case False
    then have n: "unat (ws_next_block ws) < nb" using b by (simp add: blocks_ok_def)
    have "ws_available (ws_grow nb ne ws) \<noteq> []" using sz by (simp add: ws_grow_def block_indices_def)
    then obtain rest i where "ws_available (ws_grow nb ne ws) = rest @ [i]"
      by (metis rev_exhaust)
    from ws_alloc_cached [OF ws_grow_inv [OF inv sz Nil n] this] ws_alloc_grow [OF inv sz Nil n]
    show ?thesis using that(1) by metis
  qed
qed

lemma ws_free_ok:
  assumes inv: "ws_inv nb ne ws live" and i: "i \<in> set live"
  shows "ws_inv nb ne (ws_free i ws) (remove1 i live)"
proof -
  have d: "distinct (live @ ws_available ws)" and s: "set (live @ ws_available ws) = {i. in_blocks ne ws i}"
    and b: "blocks_ok nb ne ws"
    using inv by (simp_all add: ws_inv_def)
  have "mset (remove1 i live @ ws_available ws @ [i]) = mset (live @ ws_available ws)"
    using i by simp
  then have "distinct (remove1 i live @ ws_available ws @ [i])"
    and "set (remove1 i live @ ws_available ws @ [i]) = set (live @ ws_available ws)"
    using d mset_eq_imp_distinct_iff mset_eq_setD by metis+
  then show ?thesis using b s by (simp add: ws_inv_def ws_free_def)
qed

lemma ws_get_ok:
  assumes "blocks_ok nb ne ws" "in_blocks ne ws i"
  obtains array block where "ws_array ws = Some array" "unat (wi_block i) < length array"
    "array ! unat (wi_block i) = Some block" "unat (wi_entry i) < length block"
    "ws_get i ws = Inr (block ! unat (wi_entry i))" "\<And>kind. aw_ok ((block ! unat (wi_entry i)) kind)"
proof -
  from assms obtain array where a: "ws_array ws = Some array"
    by (cases "ws_array ws") (auto simp: blocks_ok_def in_blocks_def)
  then obtain block where b: "array ! unat (wi_block i) = Some block" "length block = ne"
    "\<forall>e \<in> set block. \<forall>kind. aw_ok (e kind)"
    and l: "unat (wi_block i) < length array"
    using assms by (auto simp: blocks_ok_def in_blocks_def)
  moreover have e: "unat (wi_entry i) < length block" using assms(2) b by (simp add: in_blocks_def)
  ultimately show ?thesis using that a by (simp add: ws_get_def)
qed

lemma ws_put_ok:
  assumes "blocks_ok nb ne ws" "in_blocks ne ws i" "\<And>kind. aw_ok (e kind)"
  shows "blocks_ok nb ne (ws_put i e ws)" "ws_next_block (ws_put i e ws) = ws_next_block ws"
    "ws_available (ws_put i e ws) = ws_available ws" "ws_get i (ws_put i e ws) = Inr e"
    "\<And>j. in_blocks ne ws j \<Longrightarrow> j \<noteq> i \<Longrightarrow> ws_get j (ws_put i e ws) = ws_get j ws"
proof -
  from assms(1,2) obtain array block where a: "ws_array ws = Some array"
    "unat (wi_block i) < length array" "array ! unat (wi_block i) = Some block"
    "unat (wi_entry i) < length block" by (rule ws_get_ok) (rule that)
  let ?array = "array[unat (wi_block i) := Some (block[unat (wi_entry i) := e])]"
  have put: "ws_put i e ws = ws\<lparr>ws_array := Some ?array\<rparr>" using a by (simp add: ws_put_def)
  have old: "\<forall>b < unat (ws_next_block ws). \<exists>block. array ! b = Some block \<and>
      length block = ne \<and> (\<forall>e \<in> set block. \<forall>kind. aw_ok (e kind))"
    and len: "length array = nb" "unat (ws_next_block ws) \<le> nb"
    using assms(1) a by (simp_all add: blocks_ok_def)
  have blk: "length block = ne" "\<forall>x \<in> set block. \<forall>kind. aw_ok (x kind)"
    using old a(3) assms(2) by (auto simp: in_blocks_def)
  have "\<forall>x \<in> set (block[unat (wi_entry i) := e]). \<forall>kind. aw_ok (x kind)"
    using blk(2) assms(3) set_update_subset_insert [of block _ e] by auto
  then have "\<exists>bl. ?array ! b = Some bl \<and> length bl = ne \<and> (\<forall>e \<in> set bl. \<forall>kind. aw_ok (e kind))"
    if "b < unat (ws_next_block ws)" for b
    using old blk(1) that a(2) by (cases "b = unat (wi_block i)") auto
  then show "blocks_ok nb ne (ws_put i e ws)"
    using len unfolding put blocks_ok_def by simp
  show "ws_next_block (ws_put i e ws) = ws_next_block ws"
    "ws_available (ws_put i e ws) = ws_available ws" by (simp_all add: put)
  show "ws_get i (ws_put i e ws) = Inr e" using a by (simp add: put ws_get_def)
  fix j assume j: "in_blocks ne ws j" "j \<noteq> i"
  show "ws_get j (ws_put i e ws) = ws_get j ws"
  proof (cases "wi_block j = wi_block i")
    case True
    then have "unat (wi_entry j) \<noteq> unat (wi_entry i)" using j(2) by (auto simp: word_unat_eq_iff)
    then show ?thesis using True a j blk by (simp add: put ws_get_def in_blocks_def index_def)
  next
    case False
    then have "unat (wi_block j) \<noteq> unat (wi_block i)" by (simp add: word_unat_eq_iff)
    then show ?thesis using a by (simp add: put ws_get_def index_def)
  qed
qed

lemma ws_inv_put:
  assumes "ws_inv nb ne ws live" "in_blocks ne ws i" "\<And>kind. aw_ok (e kind)"
  shows "ws_inv nb ne (ws_put i e ws) live"
proof -
  have b: "blocks_ok nb ne ws" using assms(1) by (simp add: ws_inv_def)
  note p = ws_put_ok [OF b assms(2,3)]
  show ?thesis using assms(1) p by (simp add: ws_inv_def in_blocks_def)
qed

end
