(* ===== verification/Net_Poller.thy ===== *)
theory Net_Poller
  imports Waker_Storage
begin

text \<open>
  \<open>src/src/net/internal/poller.rs\<close>: the I/O driver shared by all workers. The selector, the
  registry and the signal of the \<open>mio\<close> crate are not modelled: what a call to them returns
  is an argument of the operation that makes it. \<open>np_selector\<close> is the flag of the try-lock.
\<close>

record 'w net_poller =
  np_pending :: usize
  np_storage :: "'w waker_storage"
  np_selector :: bool

definition SIGNAL_TOKEN :: usize where "SIGNAL_TOKEN = - 1"

definition np_new :: "'w net_poller" where
  "np_new = \<lparr>np_pending = 0, np_storage = ws_new, np_selector = False\<rparr>"

text \<open>\<open>register\<close>: \<open>registered\<close> is the result of the registry.\<close>

definition np_register :: "nat \<Rightarrow> nat \<Rightarrow> unit io_result \<Rightarrow> 'w net_poller \<Rightarrow>
    (waker_index io_result \<times> 'w net_poller) res" where
  "np_register nb ne registered p =
     rbind (ws_alloc nb ne (np_storage p)) (\<lambda>(slot, ws).
       let p1 = p\<lparr>np_storage := ws\<rparr>
       in Inr (case slot of
                 None \<Rightarrow> (Inl OutOfMemory, p1)
               | Some i \<Rightarrow>
                   (case registered of
                      Inr _ \<Rightarrow> (Inr i, p1)
                    | Inl error \<Rightarrow> (Inl error, p1\<lparr>np_storage := ws_free i ws\<rparr>))))"

definition np_deregister :: "waker_index \<Rightarrow> 'w net_poller \<Rightarrow> 'w net_poller" where
  "np_deregister i p = p\<lparr>np_storage := ws_free i (np_storage p)\<rparr>"

definition np_with_wakers :: "waker_index \<Rightarrow> ('w waker_entry \<Rightarrow> ('r \<times> 'w waker_entry) res) \<Rightarrow>
    'w net_poller \<Rightarrow> ('r \<times> 'w net_poller) res" where
  "np_with_wakers i f p =
     rbind (ws_with i f (np_storage p)) (\<lambda>(r, ws). Inr (r, p\<lparr>np_storage := ws\<rparr>))"

definition io_pending_begin :: "'w net_poller \<Rightarrow> 'w net_poller res" where
  "io_pending_begin p =
     rbind (rassert (np_pending p \<noteq> - 1)) (\<lambda>_. Inr (p\<lparr>np_pending := np_pending p + 1\<rparr>))"

definition io_pending_complete :: "'w net_poller \<Rightarrow> 'w net_poller res" where
  "io_pending_complete p =
     rbind (rassert (np_pending p \<noteq> 0)) (\<lambda>_. Inr (p\<lparr>np_pending := np_pending p - 1\<rparr>))"

text \<open>\<open>notify\<close>: \<open>woken\<close> is the result of the signal.\<close>

definition np_notify :: "unit io_result \<Rightarrow> unit res" where
  "np_notify woken = (case woken of Inr u \<Rightarrow> Inr () | Inl e \<Rightarrow> Inl Expect_Failed)"

text \<open>\<open>try_poll\<close> returns whether a guard was taken; dropping the guard unlocks.\<close>

definition np_try_poll :: "'w net_poller \<Rightarrow> bool \<times> 'w net_poller" where
  "np_try_poll p =
     (if np_pending p = 0 then (False, p)
      else if np_selector p then (False, p)
      else (True, p\<lparr>np_selector := True\<rparr>))"

definition np_drop_guard :: "'w net_poller \<Rightarrow> 'w net_poller" where
  "np_drop_guard p = p\<lparr>np_selector := False\<rparr>"

text \<open>\<open>PollGuard::poll\<close>: select again while it is interrupted.\<close>

partial_function (option) guard_poll :: "('s \<Rightarrow> unit io_result \<times> 's) \<Rightarrow> 's \<Rightarrow> 's option" where
  "guard_poll select s =
     (let (r, s') = select s in if r = Inl Interrupted then guard_poll select s' else Some s')"

subsection \<open>Events\<close>

record poll_event =
  ev_token :: usize
  ev_readable :: bool
  ev_writable :: bool

definition wake_kind :: "waker_kind \<Rightarrow> 'w waker_entry \<Rightarrow> ('w list \<times> 'w waker_entry) res" where
  "wake_kind kind e =
     rbind (aw_wake (e kind)) (\<lambda>(f, w).
       Inr (case f of None \<Rightarrow> [] | Some c \<Rightarrow> [c], e(kind := w)))"

definition process_event :: "poll_event \<Rightarrow> 'w net_poller \<Rightarrow> ('w list \<times> 'w net_poller) res" where
  "process_event ev p =
     (if ev_token ev = SIGNAL_TOKEN then Inr ([], p)
      else rbind (index_from_usize (ev_token ev)) (\<lambda>i.
        np_with_wakers i (\<lambda>e.
          rbind (if ev_readable ev then wake_kind Read e else Inr ([], e)) (\<lambda>(ws1, e1).
          rbind (if ev_writable ev then wake_kind Write e1 else Inr ([], e1)) (\<lambda>(ws2, e2).
            Inr (ws1 @ ws2, e2)))) p))"

fun process_events :: "poll_event list \<Rightarrow> 'w net_poller \<Rightarrow> ('w list \<times> 'w net_poller) res" where
  "process_events [] p = Inr ([], p)"
| "process_events (ev # evs) p =
     rbind (process_event ev p) (\<lambda>(ws1, p1).
     rbind (process_events evs p1) (\<lambda>(ws2, p2). Inr (ws1 @ ws2, p2)))"

subsection \<open>Facts\<close>

lemma guard_poll_returns:
  assumes "\<And>j. j < n \<Longrightarrow> fst (select (((snd \<circ> select) ^^ j) s)) = Inl Interrupted"
    and "fst (select (((snd \<circ> select) ^^ n) s)) \<noteq> Inl Interrupted"
  shows "guard_poll select s = Some (((snd \<circ> select) ^^ Suc n) s)"
  using assms
proof (induction n arbitrary: s)
  case 0
  then show ?case by (cases "select s") (simp add: guard_poll.simps [of select s])
next
  case (Suc n)
  obtain r s' where s: "select s = (r, s')" by (cases "select s")
  have r: "r = Inl Interrupted" using Suc.prems(1) [of 0] s by simp
  have st: "((snd \<circ> select) ^^ j) s' = ((snd \<circ> select) ^^ Suc j) s" for j
    using s by (simp add: funpow_swap1)
  have "guard_poll select s' = Some (((snd \<circ> select) ^^ Suc n) s')"
  proof (rule Suc.IH)
    show "fst (select (((snd \<circ> select) ^^ j) s')) = Inl Interrupted" if "j < n" for j
      unfolding st using Suc.prems(1) [of "Suc j"] that by blast
    show "fst (select (((snd \<circ> select) ^^ n) s')) \<noteq> Inl Interrupted"
      unfolding st by (rule Suc.prems(2))
  qed
  moreover have "guard_poll select s = guard_poll select s'"
    using s r by (simp add: guard_poll.simps [of select s])
  ultimately show ?case unfolding st by (simp only:)
qed

lemma wake_kind_ok:
  assumes "aw_ok (e kind)"
  obtains ws w where "wake_kind kind e = Inr (ws, e(kind := w))" "aw_ok w" "aw_state w = NOTIFIED"
    "aw_notified w = aw_notified (e kind)"
proof -
  from aw_wake_ok [OF assms] obtain f w where "aw_wake (e kind) = Inr (f, w)" "aw_ok w"
    "aw_state w = NOTIFIED" "aw_notified w = aw_notified (e kind)" by metis
  then show ?thesis using that [of "case f of None \<Rightarrow> [] | Some c \<Rightarrow> [c]" w] by (simp add: wake_kind_def)
qed

text \<open>
  Running an operation on the wakers of a valid index: it cannot fail in the storage, and
  it changes that entry only.
\<close>

lemma np_with_wakers_ok:
  assumes inv: "ws_inv nb ne (np_storage p) live" and i: "in_blocks ne (np_storage p) i"
    and f: "\<And>e. ws_get i (np_storage p) = Inr e \<Longrightarrow> (\<And>kind. aw_ok (e kind)) \<Longrightarrow>
      \<exists>r e'. f e = Inr (r, e') \<and> (\<forall>kind. aw_ok (e' kind)) \<and> P r e e'"
  obtains r e e' where "np_with_wakers i f p = Inr (r, p\<lparr>np_storage := ws_put i e' (np_storage p)\<rparr>)"
    "ws_inv nb ne (ws_put i e' (np_storage p)) live" "P r e e'"
    "ws_get i (np_storage p) = Inr e" "ws_get i (ws_put i e' (np_storage p)) = Inr e'"
    "\<And>j. in_blocks ne (np_storage p) j \<Longrightarrow> j \<noteq> i \<Longrightarrow>
       ws_get j (ws_put i e' (np_storage p)) = ws_get j (np_storage p)"
    "\<And>j. in_blocks ne (ws_put i e' (np_storage p)) j = in_blocks ne (np_storage p) j"
proof -
  have b: "blocks_ok nb ne (np_storage p)" using inv by (simp add: ws_inv_def)
  obtain e where g: "ws_get i (np_storage p) = Inr e" and ok: "\<And>kind. aw_ok (e kind)"
    using ws_get_ok [OF b i] by metis
  from f [OF g ok] obtain r e' where r: "f e = Inr (r, e')" and ok': "\<And>kind. aw_ok (e' kind)"
    and P: "P r e e'" by blast
  note put = ws_put_ok [OF b i ok']
  show ?thesis
    by (rule that [of r e' e])
       (use r g P put ws_inv_put [OF inv i ok'] in
         \<open>simp_all add: np_with_wakers_def ws_with_def in_blocks_def\<close>)
qed

end
