(* ===== verification/Pollable.thy ===== *)
theory Pollable
  imports Net_Poller
begin

text \<open>
  \<open>src/src/net/internal/pollable.rs\<close>: a source registered with the net poller, whose I/O is
  retried when the poller wakes it. The two budgets and pending flags are functions of the
  waker kind. The source is not modelled: the results of the I/O are a parameter.
\<close>

definition BUDGET :: u8 where "BUDGET = 128"

record pollable =
  pl_index :: waker_index
  pl_budgets :: "waker_kind \<Rightarrow> u8"
  pl_pendings :: "waker_kind \<Rightarrow> bool"

definition pollable_new :: "nat \<Rightarrow> nat \<Rightarrow> unit io_result \<Rightarrow> 'w net_poller \<Rightarrow>
    (pollable io_result \<times> 'w net_poller) res" where
  "pollable_new nb ne registered p =
     rbind (np_register nb ne registered p) (\<lambda>(r, p').
       Inr (case r of
              Inl e \<Rightarrow> Inl e
            | Inr i \<Rightarrow> Inr \<lparr>pl_index = i, pl_budgets = (\<lambda>kind. BUDGET), pl_pendings = (\<lambda>kind. False)\<rparr>, p'))"

subsection \<open>\<open>poll_io\<close>\<close>

text \<open>
  The head of an iteration: poll the waker, keep the pending count, charge the budget.
  \<open>Ready\<close> lets the iteration go on to the I/O; the list holds the wakers called.
\<close>

definition poll_waker :: "waker_kind \<Rightarrow> 'w option \<Rightarrow> waker_index \<Rightarrow> 'w net_poller \<Rightarrow>
    (unit poll \<times> 'w net_poller) res" where
  "poll_waker kind ctx i =
     np_with_wakers i (\<lambda>e. rbind (aw_poll ctx (e kind)) (\<lambda>(r, w). Inr (r, e(kind := w))))"

definition charge_budget :: "waker_kind \<Rightarrow> 'w option \<Rightarrow> pollable \<Rightarrow> unit poll \<times> 'w list \<times> pollable" where
  "charge_budget kind ctx pl =
     (case ctx of
        None \<Rightarrow> (Ready (), [], pl)
      | Some c \<Rightarrow>
          let budget = pl_budgets pl kind;
              new_budget = (if budget = 0 then None else Some (budget - 1));
              pl' = pl\<lparr>pl_budgets := (pl_budgets pl)(kind :=
                       case new_budget of Some b \<Rightarrow> b | None \<Rightarrow> BUDGET)\<rparr>
          in if new_budget = None then (Pending, [c], pl') else (Ready (), [], pl'))"

definition poll_io_enter :: "waker_kind \<Rightarrow> 'w option \<Rightarrow> pollable \<Rightarrow> 'w net_poller \<Rightarrow>
    (unit poll \<times> 'w list \<times> pollable \<times> 'w net_poller) res" where
  "poll_io_enter kind ctx pl p =
     (let is_pending = pl_pendings pl kind in
      rbind (poll_waker kind ctx (pl_index pl) p) (\<lambda>(r, p1).
        if r = Pending
        then rbind (if \<not> is_pending then io_pending_begin p1 else Inr p1) (\<lambda>p2.
               Inr (Pending, [], pl\<lparr>pl_pendings := (pl_pendings pl)(kind := True)\<rparr>, p2))
        else rbind (if is_pending then io_pending_complete p1 else Inr p1) (\<lambda>p2.
               let pl1 = pl\<lparr>pl_pendings := (pl_pendings pl)(kind := False)\<rparr>;
                   (r', ws, pl2) = charge_budget kind ctx pl1
               in Inr (r', ws, pl2, p2))))"

text \<open>What one result of the I/O leads to: ask again, reset the waker and poll it, or done.\<close>

datatype 'a io_next = Again | Retry | Done "'a io_result"

definition reset_waker :: "waker_kind \<Rightarrow> waker_index \<Rightarrow> 'w net_poller \<Rightarrow> 'w net_poller res" where
  "reset_waker kind i p =
     rbind (np_with_wakers i (\<lambda>e. rbind (aw_reset (e kind)) (\<lambda>w. Inr ((), e(kind := w)))) p)
       (\<lambda>(u, p1). Inr p1)"

definition poll_io_outcome :: "waker_kind \<Rightarrow> 'a io_result \<Rightarrow> pollable \<Rightarrow> 'w net_poller \<Rightarrow>
    ('a io_next \<times> 'w net_poller) res" where
  "poll_io_outcome kind r pl p =
     (if r = Inl Interrupted then Inr (Again, p)
      else if r = Inl WouldBlock
      then rbind (reset_waker kind (pl_index pl) p) (\<lambda>p1. Inr (Retry, p1))
      else Inr (Done r, p))"

text \<open>
  The two loops, with nothing else moving: \<open>do_io\<close> maps its state to a result and a new
  state. \<open>None\<close> is a call that never returns.
\<close>

partial_function (option) do_io_loop :: "('s \<Rightarrow> 'a io_result \<times> 's) \<Rightarrow> 's \<Rightarrow> ('a io_result \<times> 's) option" where
  "do_io_loop do_io s =
     (let (r, s') = do_io s in if r = Inl Interrupted then do_io_loop do_io s' else Some (r, s'))"

partial_function (option) poll_io :: "waker_kind \<Rightarrow> 'w option \<Rightarrow> ('s \<Rightarrow> 'a io_result \<times> 's) \<Rightarrow>
    pollable \<Rightarrow> 'w net_poller \<Rightarrow> 's \<Rightarrow>
    ('a io_result poll \<times> 'w list \<times> pollable \<times> 'w net_poller \<times> 's) res option" where
  "poll_io kind ctx do_io pl p s =
     (case poll_io_enter kind ctx pl p of
        Inl e \<Rightarrow> Some (Inl e)
      | Inr (r, ws, pl1, p1) \<Rightarrow>
          if r = Pending then Some (Inr (Pending, ws, pl1, p1, s))
          else Option.bind (do_io_loop do_io s) (\<lambda>(out, s1).
            case poll_io_outcome kind out pl1 p1 of
              Inl e \<Rightarrow> Some (Inl e)
            | Inr (Done v, p2) \<Rightarrow> Some (Inr (Ready v, ws, pl1, p2, s1))
            | Inr (_, p2) \<Rightarrow> poll_io kind ctx do_io pl1 p2 s1))"

definition try_io :: "waker_kind \<Rightarrow> ('s \<Rightarrow> 'a io_result \<times> 's) \<Rightarrow> pollable \<Rightarrow> 'w net_poller \<Rightarrow> 's \<Rightarrow>
    ('a io_result \<times> 'w list \<times> pollable \<times> 'w net_poller \<times> 's) res option" where
  "try_io kind do_io pl p s =
     map_option (\<lambda>result. rbind result (\<lambda>(r, rest).
         Inr (case r of Ready v \<Rightarrow> v | Pending \<Rightarrow> Inl WouldBlock, rest)))
       (poll_io kind None do_io pl p s)"

text \<open>\<open>PollFuture::poll\<close>; \<open>done\<close> tells that the future gave its result already.\<close>

definition poll_future_poll :: "waker_kind \<Rightarrow> 'w \<Rightarrow> ('s \<Rightarrow> 'a io_result \<times> 's) \<Rightarrow> bool \<Rightarrow>
    pollable \<Rightarrow> 'w net_poller \<Rightarrow> 's \<Rightarrow>
    ('a io_result poll \<times> bool \<times> 'w list \<times> pollable \<times> 'w net_poller \<times> 's) res option" where
  "poll_future_poll kind ctx do_io completed pl p s =
     (if completed then Some (Inl Expect_Failed)
      else map_option (\<lambda>result. rbind result (\<lambda>(r, rest). Inr (r, is_ready r, rest)))
             (poll_io kind (Some ctx) do_io pl p s))"

subsection \<open>Dropping\<close>

definition complete_if :: "bool \<Rightarrow> 'w net_poller \<Rightarrow> 'w net_poller res" where
  "complete_if b p = (if b then io_pending_complete p else Inr p)"

definition pollable_drop :: "pollable \<Rightarrow> 'w net_poller \<Rightarrow> ('w list \<times> 'w net_poller) res" where
  "pollable_drop pl p =
     rbind (np_with_wakers (pl_index pl) (\<lambda>e.
         rbind (wake_kind Read e) (\<lambda>(ws1, e1).
         rbind (wake_kind Write e1) (\<lambda>(ws2, e2). Inr (ws1 @ ws2, e2)))) p) (\<lambda>(ws, p1).
     rbind (complete_if (pl_pendings pl Read) p1) (\<lambda>p2.
     rbind (complete_if (pl_pendings pl Write) p2) (\<lambda>p3.
       Inr (ws, np_deregister (pl_index pl) p3))))"

end
