(* ===== verification/Net_Machine.thy ===== *)
theory Net_Machine
  imports Pollable
begin

text \<open>
  The net poller with its pollables: tasks poll their I/O, one call per pollable and waker
  kind at a time, workers deliver events, and each step of a call of \<open>poll_io\<close> interleaves
  with all the others.
\<close>

subsection \<open>The machine\<close>

text \<open>Where a call of \<open>poll_io\<close> is: not running, about to do its I/O, or about to poll again.\<close>

datatype 'w io_pc = Io_Idle | At_Io "'w option" | At_Retry "'w option"

record 'w net =
  nm_poller :: "'w net_poller"
  nm_pollables :: "pollable option list"
  nm_pcs :: "nat \<Rightarrow> waker_kind \<Rightarrow> 'w io_pc"

datatype 'w net_action =
    Register "unit io_result"
  | Poll_Start nat waker_kind "'w option"
  | Poll_Again nat waker_kind
  | Io_Outcome nat waker_kind "unit io_result"
  | Drop_Pollable nat
  | Net_Event poll_event

definition net_start :: "'w net" where
  "net_start = \<lparr>nm_poller = np_new, nm_pollables = [], nm_pcs = (\<lambda>n kind. Io_Idle)\<rparr>"

definition net_pollable :: "nat \<Rightarrow> 'w net \<Rightarrow> pollable option" where
  "net_pollable n s = (if n < length (nm_pollables s) then nm_pollables s ! n else None)"

definition set_pc :: "nat \<Rightarrow> waker_kind \<Rightarrow> 'w io_pc \<Rightarrow> 'w net \<Rightarrow> 'w net" where
  "set_pc n kind pc s = s\<lparr>nm_pcs := (nm_pcs s)(n := (nm_pcs s n)(kind := pc))\<rparr>"

definition net_enter :: "nat \<Rightarrow> waker_kind \<Rightarrow> 'w option \<Rightarrow> 'w net \<Rightarrow> 'w net res option" where
  "net_enter n kind ctx s =
     (case net_pollable n s of
        None \<Rightarrow> None
      | Some pl \<Rightarrow>
          Some (rbind (poll_io_enter kind ctx pl (nm_poller s)) (\<lambda>(r, ws, pl', p).
            Inr (set_pc n kind (if r = Pending then Io_Idle else At_Io ctx)
                   (s\<lparr>nm_poller := p, nm_pollables := (nm_pollables s)[n := Some pl']\<rparr>)))))"

definition event_valid :: "nat \<Rightarrow> 'w net \<Rightarrow> poll_event \<Rightarrow> bool" where
  "event_valid ne s ev \<longleftrightarrow> ev_token ev = SIGNAL_TOKEN \<or>
     (\<exists>i. index_from_usize (ev_token ev) = Inr i \<and> in_blocks ne (np_storage (nm_poller s)) i)"

fun net_step :: "nat \<Rightarrow> nat \<Rightarrow> 'w net_action \<Rightarrow> 'w net \<Rightarrow> 'w net res option" where
  "net_step nb ne (Register registered) s =
     Some (rbind (pollable_new nb ne registered (nm_poller s)) (\<lambda>(r, p).
       Inr (case r of
              Inl e \<Rightarrow> s\<lparr>nm_poller := p\<rparr>
            | Inr pl \<Rightarrow> s\<lparr>nm_poller := p, nm_pollables := nm_pollables s @ [Some pl]\<rparr>)))"
| "net_step nb ne (Poll_Start n kind ctx) s =
     (if nm_pcs s n kind = Io_Idle then net_enter n kind ctx s else None)"
| "net_step nb ne (Poll_Again n kind) s =
     (case nm_pcs s n kind of At_Retry ctx \<Rightarrow> net_enter n kind ctx s | _ \<Rightarrow> None)"
| "net_step nb ne (Io_Outcome n kind r) s =
     (case (net_pollable n s, nm_pcs s n kind) of
        (Some pl, At_Io ctx) \<Rightarrow>
          Some (rbind (poll_io_outcome kind r pl (nm_poller s)) (\<lambda>(next, p).
            Inr (set_pc n kind
                   (case next of Again \<Rightarrow> At_Io ctx | Retry \<Rightarrow> At_Retry ctx | Done v \<Rightarrow> Io_Idle)
                   (s\<lparr>nm_poller := p\<rparr>))))
      | _ \<Rightarrow> None)"
| "net_step nb ne (Drop_Pollable n) s =
     (case net_pollable n s of
        None \<Rightarrow> None
      | Some pl \<Rightarrow>
          if nm_pcs s n Read = Io_Idle \<and> nm_pcs s n Write = Io_Idle
          then Some (rbind (pollable_drop pl (nm_poller s)) (\<lambda>(ws, p).
                 Inr (s\<lparr>nm_poller := p, nm_pollables := (nm_pollables s)[n := None]\<rparr>)))
          else None)"
| "net_step nb ne (Net_Event ev) s =
     (if event_valid ne s ev
      then Some (rbind (process_event ev (nm_poller s)) (\<lambda>(ws, p). Inr (s\<lparr>nm_poller := p\<rparr>)))
      else None)"

subsection \<open>Counting pending flags\<close>

definition flag_count :: "pollable \<Rightarrow> nat" where
  "flag_count pl = of_bool (pl_pendings pl Read) + of_bool (pl_pendings pl Write)"

fun slot_count :: "pollable option \<Rightarrow> nat" where
  "slot_count None = 0"
| "slot_count (Some pl) = flag_count pl"

definition pending_count :: "pollable option list \<Rightarrow> nat" where
  "pending_count pls = sum_list (map slot_count pls)"

fun slot_index :: "pollable option \<Rightarrow> waker_index list" where
  "slot_index None = []"
| "slot_index (Some pl) = [pl_index pl]"

definition live_indices :: "pollable option list \<Rightarrow> waker_index list" where
  "live_indices pls = concat (map slot_index pls)"

lemma live_indices_simps [simp]:
  "live_indices [] = []" "live_indices (pls @ pls') = live_indices pls @ live_indices pls'"
  "live_indices (x # pls) = slot_index x @ live_indices pls"
  by (simp_all add: live_indices_def)

lemma pending_count_simps [simp]:
  "pending_count [] = 0" "pending_count (pls @ pls') = pending_count pls + pending_count pls'"
  "pending_count (x # pls) = slot_count x + pending_count pls"
  by (simp_all add: pending_count_def)

lemma pending_count_update:
  "n < length pls \<Longrightarrow>
   pending_count (pls[n := x]) + slot_count (pls ! n) = pending_count pls + slot_count x"
proof (induction pls arbitrary: n)
  case (Cons a pls)
  show ?case
  proof (cases n)
    case (Suc m)
    then show ?thesis using Cons.IH [of m] Cons.prems by simp
  qed simp
qed simp

lemma live_indices_update:
  "n < length pls \<Longrightarrow>
   mset (live_indices (pls[n := x])) + mset (slot_index (pls ! n)) =
   mset (live_indices pls) + mset (slot_index x)"
proof (induction pls arbitrary: n)
  case (Cons a pls)
  show ?case
  proof (cases n)
    case (Suc m)
    then have "mset (live_indices (pls[m := x])) + mset (slot_index (pls ! m)) =
        mset (live_indices pls) + mset (slot_index x)" using Cons by simp
    then have "mset (slot_index a) + (mset (live_indices (pls[m := x])) + mset (slot_index (pls ! m))) =
        mset (slot_index a) + (mset (live_indices pls) + mset (slot_index x))" by (rule arg_cong)
    then show ?thesis using Suc by (simp add: ac_simps)
  qed (simp add: ac_simps)
qed simp

lemma live_indices_mem:
  "i \<in> set (live_indices pls) \<longleftrightarrow> (\<exists>pl. Some pl \<in> set pls \<and> pl_index pl = i)"
proof (induction pls)
  case (Cons a pls)
  then show ?case by (cases a) auto
qed simp

lemma slot_count_le: "slot_count x \<le> 2 * length (slot_index x)"
  by (cases x) (auto simp: flag_count_def)

lemma pending_count_le: "pending_count pls \<le> 2 * length (live_indices pls)"
proof (induction pls)
  case (Cons a pls)
  then show ?case using slot_count_le [of a] by simp
qed simp

lemma flag_count_set:
  "flag_count (pl\<lparr>pl_pendings := (pl_pendings pl)(kind := b)\<rparr>) + of_bool (pl_pendings pl kind) =
   flag_count pl + of_bool b"
  by (cases kind) (auto simp: flag_count_def)

lemma flag_count_ge: "pl_pendings pl kind \<Longrightarrow> 1 \<le> flag_count pl"
  by (cases kind) (auto simp: flag_count_def)

lemma flag_count_budgets [simp]: "flag_count (pl\<lparr>pl_budgets := b\<rparr>) = flag_count pl"
  by (simp add: flag_count_def)

text \<open>There are at most \<open>2 ^ 32\<close> indices, so the count of flags stays far below the word size.\<close>

lemma distinct_indices_length:
  assumes "distinct (is :: waker_index list)"
  shows "length is \<le> 2 ^ 32"
proof -
  let ?f = "\<lambda>i. unat (index_into_usize i)"
  have inj: "inj ?f"
  proof (rule injI)
    fix i j assume "?f i = ?f j"
    then have "index_into_usize i = index_into_usize j" by (simp add: word_unat_eq_iff)
    then show "i = j" using index_round_trip by (metis sum.inject(2))
  qed
  have "?f ` set is \<subseteq> {..<2 ^ 32}" using index_token_small by auto
  then have "card (?f ` set is) \<le> 2 ^ 32" using card_mono [of "{..<2 ^ 32::nat}"] by fastforce
  then show ?thesis
    using assms inj by (simp add: card_image inj_on_subset distinct_card)
qed

lemma io_pending_begin_ok:
  assumes "unat (np_pending p) \<le> 2 ^ 33"
  shows "io_pending_begin p = Inr (p\<lparr>np_pending := np_pending p + 1\<rparr>)"
    "unat (np_pending p + 1) = unat (np_pending p) + 1"
proof -
  show u: "unat (np_pending p + 1) = unat (np_pending p) + 1"
    using assms unat_add64 [of "np_pending p" 1] by simp
  then have "np_pending p \<noteq> - 1" by auto
  then show "io_pending_begin p = Inr (p\<lparr>np_pending := np_pending p + 1\<rparr>)"
    by (simp add: io_pending_begin_def)
qed

lemma io_pending_complete_ok:
  assumes "1 \<le> unat (np_pending p)"
  shows "io_pending_complete p = Inr (p\<lparr>np_pending := np_pending p - 1\<rparr>)"
    "unat (np_pending p - 1) + 1 = unat (np_pending p)"
proof -
  have "np_pending p \<noteq> 0" using assms by auto
  then show "io_pending_complete p = Inr (p\<lparr>np_pending := np_pending p - 1\<rparr>)"
    by (simp add: io_pending_complete_def)
  show "unat (np_pending p - 1) + 1 = unat (np_pending p)"
    using \<open>np_pending p \<noteq> 0\<close> assms unat_minus_one [of "np_pending p"] by simp
qed

subsection \<open>The operations on one pollable\<close>

text \<open>How often a waker can still let a poll through.\<close>

definition wake_weight :: "'w atomic_waker \<Rightarrow> nat" where
  "wake_weight w = of_bool (aw_notified w) + of_bool (aw_state w = NOTIFIED)"

lemma aw_poll_weight:
  assumes "aw_ok w" "aw_poll ctx w = Inr (Ready (), w')"
  shows "wake_weight w = Suc (of_bool (aw_state w' = NOTIFIED))"
proof -
  consider "aw_notified w" | "\<not> aw_notified w" "aw_state w = NOTIFIED"
    | "\<not> aw_notified w" "aw_state w = EMPTY \<or> aw_state w = WAITING"
    using assms(1) by (auto simp: aw_ok_def)
  then show ?thesis
  proof cases
    case 1
    then have "w' = w" using assms(2) by (simp add: aw_poll_notified)
    then show ?thesis using 1 by (simp add: wake_weight_def)
  next
    case 2
    then have "aw_state w' = EMPTY" using assms(2) by (auto simp: aw_poll_woken)
    then show ?thesis using 2 by (simp add: wake_weight_def)
  next
    case 3
    then show ?thesis using assms(2) by (simp add: aw_poll_idle)
  qed
qed

lemma poll_waker_ok:
  assumes inv: "ws_inv nb ne (np_storage p) live" and i: "in_blocks ne (np_storage p) i"
  obtains r e w where
    "poll_waker kind ctx i p = Inr (r, p\<lparr>np_storage := ws_put i (e(kind := w)) (np_storage p)\<rparr>)"
    "ws_get i (np_storage p) = Inr e" "\<And>k. aw_ok ((e(kind := w)) k)"
    "r = Ready () \<longleftrightarrow> aw_notified (e kind) \<or> aw_state (e kind) = NOTIFIED"
    "r = Ready () \<Longrightarrow> aw_notified w"
    "r = Ready () \<Longrightarrow> wake_weight (e kind) = Suc (of_bool (aw_state w = NOTIFIED))"
proof -
  have b: "blocks_ok nb ne (np_storage p)" using inv by (simp add: ws_inv_def)
  obtain e where g: "ws_get i (np_storage p) = Inr e" and ok: "\<And>k. aw_ok (e k)"
    using ws_get_ok [OF b i] by metis
  from aw_poll_ok [OF ok, of ctx kind] obtain r w where "aw_poll ctx (e kind) = Inr (r, w)" "aw_ok w"
    "is_ready r \<longleftrightarrow> aw_notified (e kind) \<or> aw_state (e kind) = NOTIFIED"
    "is_ready r \<Longrightarrow> aw_notified w" by metis
  moreover from this(1) have "r = Ready () \<Longrightarrow> wake_weight (e kind) = Suc (of_bool (aw_state w = NOTIFIED))"
    using aw_poll_weight [OF ok] by blast
  ultimately show ?thesis
    using g ok by (intro that [of r e w])
      (simp_all add: poll_waker_def np_with_wakers_def ws_with_def is_ready_iff poll_unit_neq [symmetric] del: poll_unit_neq)
qed

lemma charge_budget_pollable:
  "charge_budget kind ctx pl = (r, ws, pl') \<Longrightarrow>
   pl_index pl' = pl_index pl \<and> flag_count pl' = flag_count pl \<and> pl_pendings pl' = pl_pendings pl"
  by (auto simp: charge_budget_def Let_def flag_count_def split: option.splits if_splits)

lemma poll_io_enter_ok:
  assumes inv: "ws_inv nb ne (np_storage p) live" and i: "in_blocks ne (np_storage p) (pl_index pl)"
    and lo: "flag_count pl \<le> unat (np_pending p)" and hi: "unat (np_pending p) \<le> 2 ^ 33"
  obtains r ws pl' p' e w where "poll_io_enter kind ctx pl p = Inr (r, ws, pl', p')"
    "pl_index pl' = pl_index pl" "np_storage p' = ws_put (pl_index pl) (e(kind := w)) (np_storage p)"
    "ws_get (pl_index pl) (np_storage p) = Inr e" "\<And>k. aw_ok ((e(kind := w)) k)"
    "r = Ready () \<Longrightarrow> aw_notified w"
    "unat (np_pending p') + flag_count pl = unat (np_pending p) + flag_count pl'"
    "np_selector p' = np_selector p"
    "r = Ready () \<Longrightarrow> flag_count pl' \<le> flag_count pl"
    "r = Ready () \<Longrightarrow> wake_weight (e kind) = Suc (of_bool (aw_state w = NOTIFIED))"
proof -
  from poll_waker_ok [OF inv i, of kind ctx] obtain r e w where
    pw: "poll_waker kind ctx (pl_index pl) p =
      Inr (r, p\<lparr>np_storage := ws_put (pl_index pl) (e(kind := w)) (np_storage p)\<rparr>)"
    and g: "ws_get (pl_index pl) (np_storage p) = Inr e" "\<And>k. aw_ok ((e(kind := w)) k)"
    and n: "r = Ready () \<Longrightarrow> aw_notified w"
      "r = Ready () \<Longrightarrow> wake_weight (e kind) = Suc (of_bool (aw_state w = NOTIFIED))" by metis
  let ?p1 = "p\<lparr>np_storage := ws_put (pl_index pl) (e(kind := w)) (np_storage p)\<rparr>"
  let ?set = "\<lambda>b. pl\<lparr>pl_pendings := (pl_pendings pl)(kind := b)\<rparr>"
  show thesis
  proof (cases "r = Pending")
    case True
    show ?thesis
    proof (cases "pl_pendings pl kind")
      case p: True
      then have "poll_io_enter kind ctx pl p = Inr (Pending, [], ?set True, ?p1)"
        using pw True by (simp add: poll_io_enter_def)
      then show ?thesis
        by (rule that) (use g flag_count_set [of pl kind True] p in \<open>simp_all del: fun_upd_apply\<close>)
    next
      case np: False
      have "io_pending_begin ?p1 = Inr (?p1\<lparr>np_pending := np_pending p + 1\<rparr>)"
        using io_pending_begin_ok(1) [of ?p1] hi by simp
      then have "poll_io_enter kind ctx pl p =
          Inr (Pending, [], ?set True, ?p1\<lparr>np_pending := np_pending p + 1\<rparr>)"
        using pw True np by (simp add: poll_io_enter_def)
      then show ?thesis
        by (rule that) (use g flag_count_set [of pl kind True] np io_pending_begin_ok(2) [of p] hi in \<open>simp_all del: fun_upd_apply\<close>)
    qed
  next
    case False
    then have ready: "r = Ready ()" by (cases r) auto
    obtain r' ws pl2 where c: "charge_budget kind ctx (?set False) = (r', ws, pl2)"
      by (cases "charge_budget kind ctx (?set False)")
    note cb = charge_budget_pollable [OF c]
    show ?thesis
    proof (cases "pl_pendings pl kind")
      case pend: True
      then have one: "1 \<le> unat (np_pending p)" using flag_count_ge [OF pend] lo by simp
      have "io_pending_complete ?p1 = Inr (?p1\<lparr>np_pending := np_pending p - 1\<rparr>)"
        using io_pending_complete_ok(1) [of ?p1] one by simp
      then have "poll_io_enter kind ctx pl p =
          Inr (r', ws, pl2, ?p1\<lparr>np_pending := np_pending p - 1\<rparr>)"
        using pw pend ready c by (simp add: poll_io_enter_def)
      then show ?thesis
        by (rule that)
           (use g n ready cb flag_count_set [of pl kind False] pend io_pending_complete_ok(2) [OF one] in \<open>simp_all del: fun_upd_apply\<close>)
    next
      case np: False
      then have "poll_io_enter kind ctx pl p = Inr (r', ws, pl2, ?p1)"
        using pw ready c by (simp add: poll_io_enter_def)
      then show ?thesis
        by (rule that) (use g n ready cb flag_count_set [of pl kind False] np in \<open>simp_all del: fun_upd_apply\<close>)
    qed
  qed
qed

lemma reset_waker_ok:
  assumes g: "ws_get i (np_storage p) = Inr e" and n: "aw_notified (e kind)" and ok: "\<And>k. aw_ok (e k)"
  shows "reset_waker kind i p =
      Inr (p\<lparr>np_storage := ws_put i (e(kind := (e kind)\<lparr>aw_notified := False\<rparr>)) (np_storage p)\<rparr>)"
    "\<And>k. aw_ok ((e(kind := (e kind)\<lparr>aw_notified := False\<rparr>)) k)"
  using g ok aw_reset_ok [OF ok n]
  by (simp_all add: reset_waker_def np_with_wakers_def ws_with_def)

lemma wake_both_ok:
  assumes ok: "\<And>k. aw_ok (e k)"
  obtains ws e' where
    "rbind (if r then wake_kind Read e else Inr ([], e)) (\<lambda>(ws1, e1).
       rbind (if w then wake_kind Write e1 else Inr ([], e1)) (\<lambda>(ws2, e2). Inr (ws1 @ ws2, e2))) =
     Inr (ws, e')" "\<And>k. aw_ok (e' k)" "\<And>k. aw_notified (e' k) = aw_notified (e k)"
    "r \<Longrightarrow> aw_state (e' Read) = NOTIFIED" "w \<Longrightarrow> aw_state (e' Write) = NOTIFIED"
proof -
  obtain ws1 e1 where 1: "(if r then wake_kind Read e else Inr ([], e)) = Inr (ws1, e1)"
    "\<And>k. aw_ok (e1 k)" "\<And>k. aw_notified (e1 k) = aw_notified (e k)"
    "r \<Longrightarrow> aw_state (e1 Read) = NOTIFIED"
  proof (cases r)
    case True
    obtain ws x where "wake_kind Read e = Inr (ws, e(Read := x))"
      "aw_ok x" "aw_state x = NOTIFIED" "aw_notified x = aw_notified (e Read)"
      by (rule wake_kind_ok [OF ok, of Read]) (rule that)
    then show ?thesis using that [of ws "e(Read := x)"] True ok by simp
  qed (use that [of "[]" e] ok in simp)
  obtain ws2 e2 where 2: "(if w then wake_kind Write e1 else Inr ([], e1)) = Inr (ws2, e2)"
    "\<And>k. aw_ok (e2 k)" "\<And>k. aw_notified (e2 k) = aw_notified (e1 k)"
    "w \<Longrightarrow> aw_state (e2 Write) = NOTIFIED" "e2 Read = e1 Read"
  proof (cases w)
    case True
    obtain ws x where "wake_kind Write e1 = Inr (ws, e1(Write := x))"
      "aw_ok x" "aw_state x = NOTIFIED" "aw_notified x = aw_notified (e1 Write)"
      by (rule wake_kind_ok [OF 1(2), of Write]) (rule that)
    then show ?thesis using that [of ws "e1(Write := x)"] True 1(2) by simp
  qed (use that [of "[]" e1] 1(2) in simp)
  show ?thesis
    by (rule that [of "ws1 @ ws2" e2]) (use 1 2 in simp_all)
qed

end
