(* ===== verification/Net_Proofs.thy ===== *)
theory Net_Proofs
  imports Net_Machine
begin

text \<open>The invariant of the net machine, that every step keeps it, and that none panics.\<close>

subsection \<open>What a step leaves alone\<close>

definition notified_at :: "'w waker_storage \<Rightarrow> waker_index \<Rightarrow> waker_kind \<Rightarrow> bool" where
  "notified_at ws i kind = (case ws_get i ws of Inr e \<Rightarrow> aw_notified (e kind) | Inl p \<Rightarrow> False)"

lemma ws_get_available [simp]: "ws_get j (ws\<lparr>ws_available := a\<rparr>) = ws_get j ws"
  by (simp add: ws_get_def)

lemma ws_get_free [simp]: "ws_get j (ws_free i ws) = ws_get j ws"
  by (simp add: ws_free_def)

lemma ws_get_grow:
  assumes "ws_inv nb ne ws live" "in_blocks ne ws j"
  shows "ws_get j (ws_grow nb ne ws) = ws_get j ws"
proof -
  have b: "blocks_ok nb ne ws" using assms(1) by (simp add: ws_inv_def)
  obtain array where a: "ws_array ws = Some array" using ws_get_ok [OF b assms(2)] by metis
  have "unat (wi_block j) \<noteq> unat (ws_next_block ws)" using assms(2) by (simp add: in_blocks_def)
  then show ?thesis using a by (simp add: ws_grow_def ws_get_def index_def)
qed

text \<open>Allocation, with what it does to the entries in use.\<close>

lemma ws_alloc_frame:
  assumes inv: "ws_inv nb ne ws live" and sz: "sizes_ok nb ne"
  obtains i ws' where "ws_alloc nb ne ws = Inr (Some i, ws')" "ws_inv nb ne ws' (i # live)"
    "\<And>j. in_blocks ne ws j \<Longrightarrow> ws_get j ws' = ws_get j ws \<and> in_blocks ne ws' j"
  | "ws_alloc nb ne ws = Inr (None, ws)"
proof (cases "ws_available ws" rule: rev_cases)
  case (snoc rest i)
  show ?thesis
    by (rule that(1) [OF ws_alloc_cached [OF inv snoc]]) simp
next
  case Nil
  show ?thesis
  proof (cases "unat (ws_next_block ws) = nb")
    case True
    then show ?thesis using that(2) ws_alloc_full [OF inv sz Nil] by blast
  next
    case False
    then have n: "unat (ws_next_block ws) < nb" using inv by (simp add: ws_inv_def blocks_ok_def)
    have "ws_available (ws_grow nb ne ws) \<noteq> []" using sz by (simp add: ws_grow_def block_indices_def)
    then obtain rest i where r: "ws_available (ws_grow nb ne ws) = rest @ [i]" by (metis rev_exhaust)
    have "unat (ws_next_block ws + 1) = Suc (unat (ws_next_block ws))"
      using n sz unat_add16 [of "ws_next_block ws" 1] by simp
    then have "in_blocks ne (ws_grow nb ne ws) j" if "in_blocks ne ws j" for j
      using that by (simp add: in_blocks_def ws_grow_def)
    then show ?thesis
      using that(1) [of i "(ws_grow nb ne ws)\<lparr>ws_available := rest\<rparr>"]
        ws_alloc_cached [OF ws_grow_inv [OF inv sz Nil n] r] ws_alloc_grow [OF inv sz Nil n]
        ws_get_grow [OF inv] by simp
  qed
qed

lemma live_indices_distinct:
  "distinct (live_indices pls) \<Longrightarrow> n < length pls \<Longrightarrow> m < length pls \<Longrightarrow> pls ! n = Some a \<Longrightarrow>
   pls ! m = Some b \<Longrightarrow> n \<noteq> m \<Longrightarrow> pl_index a \<noteq> pl_index b"
proof (induction pls arbitrary: n m)
  case (Cons x pls)
  have tail: "pl_index c \<in> set (live_indices pls)" if "k < length pls" "pls ! k = Some c" for k c
    using that nth_mem by (fastforce simp: live_indices_mem)
  show ?case
  proof (cases n)
    case 0
    then obtain k where "m = Suc k" using Cons.prems by (cases m) auto
    then show ?thesis using Cons.prems 0 tail [of k b] by auto
  next
    case (Suc k)
    show ?thesis
    proof (cases m)
      case 0
      then show ?thesis using Cons.prems Suc tail [of k a] by auto
    next
      case (Suc l)
      then show ?thesis using Cons.IH [of k l] Cons.prems \<open>n = Suc k\<close> by auto
    qed
  qed
qed simp

subsection \<open>The invariant\<close>

abbreviation net_storage :: "'w net \<Rightarrow> 'w waker_storage" where
  "net_storage s \<equiv> np_storage (nm_poller s)"

definition net_inv :: "nat \<Rightarrow> nat \<Rightarrow> 'w net \<Rightarrow> bool" where
  "net_inv nb ne s \<longleftrightarrow>
     ws_inv nb ne (net_storage s) (live_indices (nm_pollables s)) \<and>
     unat (np_pending (nm_poller s)) = pending_count (nm_pollables s) \<and>
     (\<forall>n pl kind ctx. net_pollable n s = Some pl \<longrightarrow> nm_pcs s n kind = At_Io ctx \<longrightarrow>
        notified_at (net_storage s) (pl_index pl) kind) \<and>
     (\<forall>n \<ge> length (nm_pollables s). \<forall>kind. nm_pcs s n kind = Io_Idle)"

lemma net_inv_start: "net_inv nb ne net_start"
  by (simp add: net_inv_def net_start_def np_new_def ws_inv_new net_pollable_def)

lemma net_inv_pollable:
  assumes inv: "net_inv nb ne s" and pl: "net_pollable n s = Some pl"
  shows "n < length (nm_pollables s)" "nm_pollables s ! n = Some pl"
    "pl_index pl \<in> set (live_indices (nm_pollables s))"
    "in_blocks ne (net_storage s) (pl_index pl)"
    "flag_count pl \<le> unat (np_pending (nm_poller s))" "unat (np_pending (nm_poller s)) \<le> 2 ^ 33"
proof -
  show n: "n < length (nm_pollables s)" and x: "nm_pollables s ! n = Some pl"
    using pl by (auto simp: net_pollable_def split: if_splits)
  then have "Some pl \<in> set (nm_pollables s)" by (metis nth_mem)
  then show i: "pl_index pl \<in> set (live_indices (nm_pollables s))" by (auto simp: live_indices_mem)
  have w: "ws_inv nb ne (net_storage s) (live_indices (nm_pollables s))"
    and c: "unat (np_pending (nm_poller s)) = pending_count (nm_pollables s)"
    using inv by (simp_all add: net_inv_def)
  show "in_blocks ne (net_storage s) (pl_index pl)" using w i by (auto simp: ws_inv_def)
  show "flag_count pl \<le> unat (np_pending (nm_poller s))"
    using pending_count_update [OF n, of None] x c by simp
  have "distinct (live_indices (nm_pollables s))" using w by (simp add: ws_inv_def)
  then have "length (live_indices (nm_pollables s)) \<le> 2 ^ 32" by (rule distinct_indices_length)
  then show "unat (np_pending (nm_poller s)) \<le> 2 ^ 33"
    using pending_count_le [of "nm_pollables s"] c by simp
qed

lemma notified_at_put:
  assumes inv: "ws_inv nb ne ws live" and i: "in_blocks ne ws i" and e: "\<And>k. aw_ok (e k)"
  shows "notified_at (ws_put i e ws) i k = aw_notified (e k)"
    "in_blocks ne ws j \<Longrightarrow> j \<noteq> i \<Longrightarrow> notified_at (ws_put i e ws) j k = notified_at ws j k"
proof -
  have b: "blocks_ok nb ne ws" using inv by (simp add: ws_inv_def)
  show "notified_at (ws_put i e ws) i k = aw_notified (e k)"
    using ws_put_ok(4) [OF b i e] by (simp add: notified_at_def)
  show "notified_at (ws_put i e ws) j k = notified_at ws j k" if "in_blocks ne ws j" "j \<noteq> i"
    using ws_put_ok(5) [OF b i e that] by (simp add: notified_at_def)
qed

text \<open>The entry of one pollable changes, its flags and its count with them.\<close>

lemma net_inv_entry:
  assumes inv: "net_inv nb ne s" and pl: "net_pollable n s = Some pl"
    and i': "pl_index pl' = pl_index pl" and e: "\<And>k. aw_ok (e k)"
    and st: "np_storage p = ws_put (pl_index pl) e (net_storage s)"
    and cnt: "unat (np_pending p) + flag_count pl = unat (np_pending (nm_poller s)) + flag_count pl'"
    and this': "\<And>k ctx. pcs n k = At_Io ctx \<Longrightarrow> aw_notified (e k)"
    and others: "\<And>m. m \<noteq> n \<Longrightarrow> pcs m = nm_pcs s m"
  shows "net_inv nb ne (s\<lparr>nm_poller := p, nm_pollables := (nm_pollables s)[n := Some pl'], nm_pcs := pcs\<rparr>)"
    (is "net_inv nb ne ?s")
proof -
  note P = net_inv_pollable [OF inv pl]
  have w: "ws_inv nb ne (net_storage s) (live_indices (nm_pollables s))"
    and c: "unat (np_pending (nm_poller s)) = pending_count (nm_pollables s)"
    using inv by (simp_all add: net_inv_def)
  have m: "mset (live_indices ((nm_pollables s)[n := Some pl'])) = mset (live_indices (nm_pollables s))"
    using live_indices_update [OF P(1), of "Some pl'"] P(2) i' by simp
  have "ws_inv nb ne (np_storage p) (live_indices ((nm_pollables s)[n := Some pl']))"
    unfolding ws_inv_mset [OF m] st by (rule ws_inv_put [OF w P(4) e])
  moreover have "unat (np_pending p) = pending_count ((nm_pollables s)[n := Some pl'])"
    using pending_count_update [OF P(1), of "Some pl'"] P(2) cnt c by simp
  moreover have "notified_at (np_storage p) (pl_index q) kind"
    if q: "net_pollable m ?s = Some q" and a: "nm_pcs ?s m kind = At_Io ctx" for m q kind ctx
  proof (cases "m = n")
    case True
    then have "q = pl'" using q P(1) by (simp add: net_pollable_def)
    then show ?thesis
      using a True this' [of kind ctx] i' notified_at_put(1) [OF w P(4) e] by (simp add: st)
  next
    case False
    then have q': "net_pollable m s = Some q" using q by (auto simp: net_pollable_def split: if_splits)
    note Q = net_inv_pollable [OF inv q']
    have "distinct (live_indices (nm_pollables s))" using w by (simp add: ws_inv_def)
    then have "pl_index q \<noteq> pl_index pl"
      using live_indices_distinct Q(1,2) P(1,2) False by metis
    moreover have "notified_at (net_storage s) (pl_index q) kind"
      using inv q' a others [OF False] by (simp add: net_inv_def)
    ultimately show ?thesis using notified_at_put(2) [OF w P(4) e Q(4)] by (simp add: st)
  qed
  moreover have "\<forall>m \<ge> length (nm_pollables ?s). \<forall>kind. nm_pcs ?s m kind = Io_Idle"
    using inv P(1) others by (auto simp: net_inv_def)
  ultimately show ?thesis unfolding net_inv_def by simp
qed

lemma np_with_wakers_eq:
  "ws_get i (np_storage p) = Inr e \<Longrightarrow> f e = Inr (r, e') \<Longrightarrow>
   np_with_wakers i f p = Inr (r, p\<lparr>np_storage := ws_put i e' (np_storage p)\<rparr>)"
  by (simp add: np_with_wakers_def ws_with_def)

lemma complete_both_ok:
  assumes "flag_count pl \<le> unat (np_pending p)"
  shows "\<exists>p3. rbind (complete_if (pl_pendings pl Read) p) (\<lambda>p2. complete_if (pl_pendings pl Write) p2) = Inr p3 \<and>
    np_storage p3 = np_storage p \<and> unat (np_pending p3) + flag_count pl = unat (np_pending p)"
proof -
  have step: "\<exists>p'. complete_if b q = Inr p' \<and> np_storage p' = np_storage q \<and>
      unat (np_pending p') + of_bool b = unat (np_pending q)"
    if "of_bool b \<le> unat (np_pending q)" for b and q :: "'a net_poller"
    using that io_pending_complete_ok [of q] by (cases b) (simp_all add: complete_if_def)
  have "of_bool (pl_pendings pl Read) \<le> unat (np_pending p)" using assms by (simp add: flag_count_def)
  from step [OF this] obtain p2 where 1: "complete_if (pl_pendings pl Read) p = Inr p2"
    "np_storage p2 = np_storage p" "unat (np_pending p2) + of_bool (pl_pendings pl Read) = unat (np_pending p)"
    by blast
  then have "of_bool (pl_pendings pl Write) \<le> unat (np_pending p2)" using assms by (simp add: flag_count_def)
  from step [OF this] 1 show ?thesis by (auto simp: flag_count_def)
qed

subsection \<open>Every step\<close>

definition net_moves :: "nat \<Rightarrow> nat \<Rightarrow> 'w net_action \<Rightarrow> 'w net \<Rightarrow> bool" where
  "net_moves nb ne a s \<longleftrightarrow>
     net_step nb ne a s = None \<or> (\<exists>s'. net_step nb ne a s = Some (Inr s') \<and> net_inv nb ne s')"

lemma net_inv_pcs:
  assumes "net_inv nb ne s" "\<And>m k ctx. pcs m k = At_Io ctx \<Longrightarrow> nm_pcs s m k = At_Io ctx"
    "\<And>m k. length (nm_pollables s) \<le> m \<Longrightarrow> pcs m k = Io_Idle"
  shows "net_inv nb ne (s\<lparr>nm_pcs := pcs\<rparr>)"
proof -
  have "net_pollable n (s\<lparr>nm_pcs := pcs\<rparr>) = net_pollable n s" for n by (simp add: net_pollable_def)
  then show ?thesis using assms unfolding net_inv_def by simp
qed

lemma net_enter_ok:
  assumes inv: "net_inv nb ne s"
  shows "net_enter n kind ctx s = None \<or> (\<exists>s'. net_enter n kind ctx s = Some (Inr s') \<and> net_inv nb ne s')"
proof (cases "net_pollable n s")
  case None
  then show ?thesis by (simp add: net_enter_def)
next
  case (Some pl)
  note P = net_inv_pollable [OF inv Some]
  have w: "ws_inv nb ne (net_storage s) (live_indices (nm_pollables s))"
    using inv by (simp add: net_inv_def)
  obtain r ws pl' p' e w' where en: "poll_io_enter kind ctx pl (nm_poller s) = Inr (r, ws, pl', p')"
    and i: "pl_index pl' = pl_index pl"
    and st: "np_storage p' = ws_put (pl_index pl) (e(kind := w')) (net_storage s)"
    and g: "ws_get (pl_index pl) (net_storage s) = Inr e"
    and ok: "\<And>k. aw_ok ((e(kind := w')) k)" and nt: "r = Ready () \<Longrightarrow> aw_notified w'"
    and cnt: "unat (np_pending p') + flag_count pl = unat (np_pending (nm_poller s)) + flag_count pl'"
    by (rule poll_io_enter_ok [OF w P(4,5,6), of kind ctx]) (rule that)
  let ?pcs = "(nm_pcs s)(n := (nm_pcs s n)(kind := if r = Pending then Io_Idle else At_Io ctx))"
  have "aw_notified ((e(kind := w')) k)" if "?pcs n k = At_Io c" for k c
  proof (cases "k = kind")
    case True
    then have "r = Ready ()" using that by (cases r) auto
    then show ?thesis using nt True by simp
  next
    case False
    then have "nm_pcs s n k = At_Io c" using that by simp
    then have "notified_at (net_storage s) (pl_index pl) k" using inv Some by (simp add: net_inv_def)
    then show ?thesis using g False by (simp add: notified_at_def)
  qed
  then have "net_inv nb ne (s\<lparr>nm_poller := p', nm_pollables := (nm_pollables s)[n := Some pl'], nm_pcs := ?pcs\<rparr>)"
    by (rule net_inv_entry [OF inv Some i ok st cnt]) simp_all
  then show ?thesis using Some en by (simp add: net_enter_def set_pc_def)
qed

lemma net_outcome_ok:
  assumes inv: "net_inv nb ne s"
  shows "net_moves nb ne (Io_Outcome n kind r) s"
proof (cases "\<exists>pl ctx. net_pollable n s = Some pl \<and> nm_pcs s n kind = At_Io ctx")
  case False
  then show ?thesis by (auto simp: net_moves_def split: option.splits io_pc.splits)
next
  case True
  then obtain pl ctx where pl: "net_pollable n s = Some pl" and pc: "nm_pcs s n kind = At_Io ctx" by blast
  note P = net_inv_pollable [OF inv pl]
  let ?i = "pl_index pl"
  have w: "ws_inv nb ne (net_storage s) (live_indices (nm_pollables s))"
    using inv by (simp add: net_inv_def)
  have b: "blocks_ok nb ne (net_storage s)" using w by (simp add: ws_inv_def)
  obtain e where g: "ws_get ?i (net_storage s) = Inr e" and ok: "\<And>k. aw_ok (e k)"
    using ws_get_ok [OF b P(4)] by metis
  have nt: "aw_notified (e k)" if "nm_pcs s n k = At_Io c" for k c
  proof -
    have "notified_at (net_storage s) ?i k" using inv pl that by (simp add: net_inv_def)
    then show ?thesis using g by (simp add: notified_at_def)
  qed
  have same: "(nm_pollables s)[n := Some pl] = nm_pollables s"
    using P(2) list_update_id [of "nm_pollables s" n] by simp
  let ?pcs = "\<lambda>pc. (nm_pcs s)(n := (nm_pcs s n)(kind := pc))"
  show ?thesis
  proof (cases "r = Inl WouldBlock")
    case True
    let ?e = "e(kind := (e kind)\<lparr>aw_notified := False\<rparr>)"
    let ?p = "(nm_poller s)\<lparr>np_storage := ws_put ?i ?e (net_storage s)\<rparr>"
    note rs = reset_waker_ok [OF g nt [OF pc] ok]
    have "net_inv nb ne (s\<lparr>nm_poller := ?p, nm_pollables := (nm_pollables s)[n := Some pl],
        nm_pcs := ?pcs (At_Retry ctx)\<rparr>)"
      by (rule net_inv_entry [where e = ?e and p = ?p, OF inv pl refl rs(2)]) (use nt in \<open>auto split: if_splits\<close>)
    then have "net_inv nb ne (set_pc n kind (At_Retry ctx) (s\<lparr>nm_poller := ?p\<rparr>))"
      using same by (simp add: set_pc_def)
    then show ?thesis using pl pc True rs(1) by (simp add: net_moves_def poll_io_outcome_def)
  next
    case False
    let ?pc = "if r = Inl Interrupted then At_Io ctx else Io_Idle"
    have "net_inv nb ne (s\<lparr>nm_pcs := ?pcs ?pc\<rparr>)"
      by (rule net_inv_pcs [OF inv]) (use pc P(1) inv in \<open>auto simp: net_inv_def split: if_splits\<close>)
    then have "net_inv nb ne (set_pc n kind ?pc s)" by (simp add: set_pc_def)
    then show ?thesis using pl pc False by (auto simp: net_moves_def poll_io_outcome_def)
  qed
qed

lemma net_drop_ok:
  assumes inv: "net_inv nb ne s"
  shows "net_moves nb ne (Drop_Pollable n) s"
proof (cases "\<exists>pl. net_pollable n s = Some pl \<and> nm_pcs s n Read = Io_Idle \<and> nm_pcs s n Write = Io_Idle")
  case False
  then show ?thesis by (auto simp: net_moves_def split: option.splits)
next
  case True
  then obtain pl where pl: "net_pollable n s = Some pl"
    and idle: "nm_pcs s n Read = Io_Idle" "nm_pcs s n Write = Io_Idle" by blast
  note P = net_inv_pollable [OF inv pl]
  let ?i = "pl_index pl" and ?live = "live_indices (nm_pollables s)"
  have w: "ws_inv nb ne (net_storage s) ?live" and c: "unat (np_pending (nm_poller s)) = pending_count (nm_pollables s)"
    using inv by (simp_all add: net_inv_def)
  have b: "blocks_ok nb ne (net_storage s)" using w by (simp add: ws_inv_def)
  obtain e where g: "ws_get ?i (net_storage s) = Inr e" and ok: "\<And>k. aw_ok (e k)"
    using ws_get_ok [OF b P(4)] by metis
  obtain ws e' where wk: "rbind (wake_kind Read e) (\<lambda>(ws1, e1).
      rbind (wake_kind Write e1) (\<lambda>(ws2, e2). Inr (ws1 @ ws2, e2))) = Inr (ws, e')"
    and ok': "\<And>k. aw_ok (e' k)"
    using wake_both_ok [of e True True] ok by (metis (no_types, lifting))
  let ?p1 = "(nm_poller s)\<lparr>np_storage := ws_put ?i e' (net_storage s)\<rparr>"
  have 1: "np_with_wakers ?i (\<lambda>e. rbind (wake_kind Read e) (\<lambda>(ws1, e1).
      rbind (wake_kind Write e1) (\<lambda>(ws2, e2). Inr (ws1 @ ws2, e2)))) (nm_poller s) = Inr (ws, ?p1)"
    by (rule np_with_wakers_eq, rule g, rule wk)
  obtain p3 where 2: "rbind (complete_if (pl_pendings pl Read) ?p1)
      (\<lambda>p2. complete_if (pl_pendings pl Write) p2) = Inr p3"
    and 3: "np_storage p3 = np_storage ?p1" "unat (np_pending p3) + flag_count pl = unat (np_pending ?p1)"
    using complete_both_ok [of pl ?p1] P(5) by auto
  have drop: "pollable_drop pl (nm_poller s) = Inr (ws, np_deregister ?i p3)"
    using 1 2 by (auto simp: pollable_drop_def rbind_def split: sum.splits)
  let ?s = "s\<lparr>nm_poller := np_deregister ?i p3, nm_pollables := (nm_pollables s)[n := None]\<rparr>"
  have m: "mset (live_indices ((nm_pollables s)[n := None])) = mset (remove1 ?i ?live)"
    using live_indices_update [OF P(1), of None] P(2,3) by (metis add_diff_cancel_right' mset_remove1
        slot_index.simps mset.simps add.right_neutral mset_single_iff_right)
  have wi: "ws_inv nb ne (net_storage ?s) (live_indices (nm_pollables ?s))"
    using ws_free_ok [OF ws_inv_put [where e = e', OF w P(4) ok'] P(3)] 3(1)
    by (simp add: np_deregister_def ws_inv_mset [OF m])
  moreover have "unat (np_pending (nm_poller ?s)) = pending_count (nm_pollables ?s)"
    using pending_count_update [OF P(1), of None] P(2) 3(2) c by (simp add: np_deregister_def)
  moreover have "notified_at (net_storage ?s) (pl_index q) kind"
    if q: "net_pollable m ?s = Some q" and a: "nm_pcs ?s m kind = At_Io ctx" for m q kind ctx
  proof -
    have "m \<noteq> n" using q P(1) by (auto simp: net_pollable_def)
    then have q': "net_pollable m s = Some q" using q by (auto simp: net_pollable_def split: if_splits)
    note Q = net_inv_pollable [OF inv q']
    have "distinct ?live" using w by (simp add: ws_inv_def)
    then have "pl_index q \<noteq> ?i" using live_indices_distinct Q(1,2) P(1,2) \<open>m \<noteq> n\<close> by metis
    moreover have "notified_at (net_storage s) (pl_index q) kind"
      using inv q' a by (simp add: net_inv_def)
    ultimately show ?thesis
      using notified_at_put(2) [OF w P(4) ok' Q(4)] 3(1) by (simp add: np_deregister_def notified_at_def)
  qed
  moreover have "\<forall>m \<ge> length (nm_pollables ?s). \<forall>kind. nm_pcs ?s m kind = Io_Idle"
    using inv by (simp add: net_inv_def)
  ultimately have "net_inv nb ne ?s" unfolding net_inv_def by blast
  then show ?thesis using pl idle drop by (simp add: net_moves_def)
qed

lemma process_event_ok:
  assumes w: "ws_inv nb ne (np_storage p) live" and tok: "ev_token ev \<noteq> SIGNAL_TOKEN"
    and i: "index_from_usize (ev_token ev) = Inr i" "in_blocks ne (np_storage p) i"
  obtains ws e e' where "process_event ev p = Inr (ws, p\<lparr>np_storage := ws_put i e' (np_storage p)\<rparr>)"
    "ws_get i (np_storage p) = Inr e" "\<And>k. aw_ok (e' k)" "\<And>k. aw_notified (e' k) = aw_notified (e k)"
    "ev_readable ev \<Longrightarrow> aw_state (e' Read) = NOTIFIED" "ev_writable ev \<Longrightarrow> aw_state (e' Write) = NOTIFIED"
proof -
  from w have b: "blocks_ok nb ne (np_storage p)" by (simp add: ws_inv_def)
  obtain e where g: "ws_get i (np_storage p) = Inr e" and ok: "\<And>k. aw_ok (e k)"
    using ws_get_ok [OF b i(2)] by metis
  obtain ws e' where wk: "rbind (if ev_readable ev then wake_kind Read e else Inr ([], e)) (\<lambda>(ws1, e1).
       rbind (if ev_writable ev then wake_kind Write e1 else Inr ([], e1)) (\<lambda>(ws2, e2). Inr (ws1 @ ws2, e2))) =
     Inr (ws, e')" and ok': "\<And>k. aw_ok (e' k)" and nt: "\<And>k. aw_notified (e' k) = aw_notified (e k)"
    and st: "ev_readable ev \<Longrightarrow> aw_state (e' Read) = NOTIFIED"
      "ev_writable ev \<Longrightarrow> aw_state (e' Write) = NOTIFIED"
    by (rule wake_both_ok [where r = "ev_readable ev" and w = "ev_writable ev", OF ok]) (rule that)
  have "process_event ev p = Inr (ws, p\<lparr>np_storage := ws_put i e' (np_storage p)\<rparr>)"
    unfolding process_event_def using tok i(1) np_with_wakers_eq [OF g, of _ ws e'] wk by simp
  then show ?thesis by (rule that) (use g ok' nt st in blast)+
qed

lemma net_event_ok:
  assumes inv: "net_inv nb ne s"
  shows "net_moves nb ne (Net_Event ev) s"
proof (cases "event_valid ne s ev \<and> ev_token ev \<noteq> SIGNAL_TOKEN")
  case False
  then show ?thesis using inv by (auto simp: net_moves_def process_event_def)
next
  case True
  then have valid: "event_valid ne s ev" and tok: "ev_token ev \<noteq> SIGNAL_TOKEN" by blast+
  then obtain i where i: "index_from_usize (ev_token ev) = Inr i" "in_blocks ne (net_storage s) i"
    by (auto simp: event_valid_def)
  have w: "ws_inv nb ne (net_storage s) (live_indices (nm_pollables s))"
    using inv by (simp add: net_inv_def)
  obtain ws e e' where
    pe: "process_event ev (nm_poller s) = Inr (ws, (nm_poller s)\<lparr>np_storage := ws_put i e' (net_storage s)\<rparr>)"
    and g: "ws_get i (net_storage s) = Inr e" and ok': "\<And>k. aw_ok (e' k)"
    and nt: "\<And>k. aw_notified (e' k) = aw_notified (e k)"
    by (rule process_event_ok [OF w tok i]) (rule that)
  let ?p = "(nm_poller s)\<lparr>np_storage := ws_put i e' (net_storage s)\<rparr>"
  have "notified_at (ws_put i e' (net_storage s)) (pl_index q) kind"
    if q: "net_pollable m s = Some q" and a: "nm_pcs s m kind = At_Io ctx" for m q kind ctx
  proof -
    note Q = net_inv_pollable [OF inv q]
    have n: "notified_at (net_storage s) (pl_index q) kind" using inv q a by (simp add: net_inv_def)
    show ?thesis
    proof (cases "pl_index q = i")
      case True
      then show ?thesis
        using n g nt notified_at_put(1) [OF w i(2) ok'] by (simp add: notified_at_def [of "net_storage s"])
    next
      case False
      then show ?thesis using n notified_at_put(2) [OF w i(2) ok' Q(4)] by simp
    qed
  qed
  moreover have "net_pollable m (s\<lparr>nm_poller := ?p\<rparr>) = net_pollable m s" for m
    by (simp add: net_pollable_def)
  ultimately have "net_inv nb ne (s\<lparr>nm_poller := ?p\<rparr>)"
    using inv ws_inv_put [where e = e', OF w i(2) ok'] by (simp add: net_inv_def)
  then show ?thesis using valid pe by (simp add: net_moves_def)
qed

lemma net_register_ok:
  assumes inv: "net_inv nb ne s" and sz: "sizes_ok nb ne"
  shows "net_moves nb ne (Register r) s"
proof -
  let ?live = "live_indices (nm_pollables s)"
  have w: "ws_inv nb ne (net_storage s) ?live" using inv by (simp add: net_inv_def)
  have gp: "net_pollable m (s\<lparr>nm_poller := p\<rparr>) = net_pollable m s" for m p
    by (simp add: net_pollable_def)
  show ?thesis
  proof (cases rule: ws_alloc_frame [OF w sz])
    case (1 i ws')
    have frame: "notified_at ws' (pl_index q) kind"
      if q: "net_pollable m s = Some q" and a: "nm_pcs s m kind = At_Io ctx" for m q kind ctx
    proof -
      note Q = net_inv_pollable [OF inv q]
      have "notified_at (net_storage s) (pl_index q) kind" using inv q a by (simp add: net_inv_def)
      then show ?thesis using 1(3) [OF Q(4)] by (simp add: notified_at_def)
    qed
    show ?thesis
    proof (cases r)
      case (Inl err)
      let ?s = "s\<lparr>nm_poller := (nm_poller s)\<lparr>np_storage := ws_free i ws'\<rparr>\<rparr>"
      have "ws_inv nb ne (ws_free i ws') ?live" using ws_free_ok [OF 1(2), of i] by simp
      then have "net_inv nb ne ?s"
        using inv frame gp by (simp add: net_inv_def notified_at_def [of "ws_free i ws'"]
            notified_at_def [of ws'])
      then show ?thesis
        using 1(1) Inl by (simp add: net_moves_def pollable_new_def np_register_def Let_def)
    next
      case (Inr u)
      let ?pl = "\<lparr>pl_index = i, pl_budgets = (\<lambda>kind. BUDGET), pl_pendings = (\<lambda>kind. False)\<rparr>"
      let ?s = "s\<lparr>nm_poller := (nm_poller s)\<lparr>np_storage := ws'\<rparr>,
          nm_pollables := nm_pollables s @ [Some ?pl]\<rparr>"
      have m: "mset (?live @ [i]) = mset (i # ?live)" by simp
      have "ws_inv nb ne (net_storage ?s) (live_indices (nm_pollables ?s))"
        using 1(2) by (simp add: ws_inv_mset [OF m])
      moreover have "unat (np_pending (nm_poller ?s)) = pending_count (nm_pollables ?s)"
        using inv by (simp add: net_inv_def flag_count_def)
      moreover have "notified_at (net_storage ?s) (pl_index q) kind"
        if q: "net_pollable m ?s = Some q" and a: "nm_pcs ?s m kind = At_Io ctx" for m q kind ctx
      proof -
        have "m < length (nm_pollables s)"
          using a inv by (cases "m < length (nm_pollables s)") (auto simp: net_inv_def)
        then have "net_pollable m s = Some q" using q by (auto simp: net_pollable_def nth_append split: if_splits)
        then show ?thesis using frame a by simp
      qed
      moreover have "\<forall>m \<ge> length (nm_pollables ?s). \<forall>kind. nm_pcs ?s m kind = Io_Idle"
        using inv by (simp add: net_inv_def)
      ultimately have "net_inv nb ne ?s" unfolding net_inv_def by blast
      then show ?thesis
        using 1(1) Inr by (simp add: net_moves_def pollable_new_def np_register_def Let_def)
    qed
  next
    case 2
    then show ?thesis
      using inv by (simp add: net_moves_def pollable_new_def np_register_def Let_def)
  qed
qed

lemma net_step_ok:
  assumes inv: "net_inv nb ne s" and sz: "sizes_ok nb ne"
  shows "net_moves nb ne a s"
proof (cases a)
  case (Register r)
  then show ?thesis using net_register_ok [OF inv sz] by simp
next
  case (Poll_Start n kind ctx)
  then show ?thesis using net_enter_ok [OF inv, of n kind ctx] by (auto simp: net_moves_def)
next
  case (Poll_Again n kind)
  then show ?thesis
    using net_enter_ok [OF inv, of n kind] by (cases "nm_pcs s n kind") (auto simp: net_moves_def)
next
  case (Io_Outcome n kind r)
  then show ?thesis using net_outcome_ok [OF inv] by simp
next
  case (Drop_Pollable n)
  then show ?thesis using net_drop_ok [OF inv] by simp
next
  case (Net_Event ev)
  then show ?thesis using net_event_ok [OF inv] by simp
qed

lemma net_safe_machine:
  assumes sz: "sizes_ok nb ne"
  shows "safe_machine (net_step nb ne) net_start (net_inv nb ne :: 'w net \<Rightarrow> bool)"
proof
  show "net_inv nb ne (net_start :: 'w net)" by (rule net_inv_start)
next
  fix s :: "'w net" and a s'
  assume "net_inv nb ne s" "net_step nb ne a s = Some (Inr s')"
  then show "net_inv nb ne s'" using net_step_ok [OF _ sz, of s a] by (auto simp: net_moves_def)
next
  fix s :: "'w net" and a p
  assume "net_inv nb ne s"
  then show "net_step nb ne a s \<noteq> Some (Inl p)"
    using net_step_ok [OF _ sz, of s a] by (auto simp: net_moves_def)
qed

text \<open>
  The machine on the block sizes of the runtime (64-byte entries, 8-byte references in
  chunks of 64 KiB), and on any sizes that fit into the index.
\<close>

abbreviation BLOCKS :: nat where "BLOCKS \<equiv> 8192"
abbreviation ENTRIES :: nat where "ENTRIES \<equiv> 1024"

interpretation net: safe_machine "net_step BLOCKS ENTRIES" net_start "net_inv BLOCKS ENTRIES"
  by (rule net_safe_machine) simp

lemma net_reach_inv:
  "sizes_ok nb ne \<Longrightarrow> reach (net_step nb ne) net_start s \<Longrightarrow> net_inv nb ne s"
  by (rule invariant_machine.reach_inv [OF safe_machine.axioms(1) [OF net_safe_machine]])

subsection \<open>A call of \<open>poll_io\<close> returns\<close>

lemma do_io_loop_result:
  assumes "do_io_loop do_io s = Some y"
  shows "fst y \<noteq> Inl Interrupted"
  by (rule do_io_loop.raw_induct [where P = "\<lambda>do_io s y. fst y \<noteq> Inl Interrupted", OF _ assms])
     (auto simp: Let_def split: prod.splits if_splits)

lemma poll_io_total:
  assumes "ws_inv nb ne (np_storage p) live" "in_blocks ne (np_storage p) (pl_index pl)"
    "flag_count pl \<le> unat (np_pending p)" "unat (np_pending p) \<le> 2 ^ 33"
    "\<And>s. do_io_loop do_io s \<noteq> None"
  shows "\<exists>result. poll_io kind ctx do_io pl p s = Some (Inr result)"
proof -
  have "\<exists>result. poll_io kind ctx do_io pl p s = Some (Inr result)"
    if "ws_inv nb ne (np_storage p) live" "in_blocks ne (np_storage p) (pl_index pl)"
      "flag_count pl \<le> unat (np_pending p)" "unat (np_pending p) \<le> 2 ^ 33"
      "ws_get (pl_index pl) (np_storage p) = Inr e" "wake_weight (e kind) \<le> n" for n pl p s e
    using that
  proof (induction n arbitrary: pl p s e rule: less_induct)
    case (less n)
    obtain r ws pl' p' w where en: "poll_io_enter kind ctx pl p = Inr (r, ws, pl', p')"
      and i: "pl_index pl' = pl_index pl"
      and st: "np_storage p' = ws_put (pl_index pl) (e(kind := w)) (np_storage p)"
      and ok: "\<And>k. aw_ok ((e(kind := w)) k)" and nt: "r = Ready () \<Longrightarrow> aw_notified w"
      and cnt: "unat (np_pending p') + flag_count pl = unat (np_pending p) + flag_count pl'"
      and fl: "r = Ready () \<Longrightarrow> flag_count pl' \<le> flag_count pl"
      and wt: "r = Ready () \<Longrightarrow> wake_weight (e kind) = Suc (of_bool (aw_state w = NOTIFIED))"
      by (rule poll_io_enter_ok [OF less.prems(1-4), of kind ctx])
         (use less.prems(5) that in \<open>metis (no_types, lifting) sum.inject(2)\<close>)
    show ?case
    proof (cases "r = Pending")
      case True
      then show ?thesis using en by (simp add: poll_io.simps [of kind ctx do_io pl p s])
    next
      case False
      then have ready: "r = Ready ()" by (cases r) auto
      obtain out s1 where io: "do_io_loop do_io s = Some (out, s1)"
        using assms(5) [of s] by (cases "do_io_loop do_io s") auto
      have out: "out \<noteq> Inl Interrupted" using do_io_loop_result [OF io] by simp
      show ?thesis
      proof (cases "out = Inl WouldBlock")
        case False
        then show ?thesis
          using en ready io out
          by (simp add: poll_io.simps [of kind ctx do_io pl p s] poll_io_outcome_def)
      next
        case True
        have b: "blocks_ok nb ne (np_storage p)" using less.prems(1) by (simp add: ws_inv_def)
        note put = ws_put_ok [where e = "e(kind := w)", OF b less.prems(2) ok]
        have g: "ws_get (pl_index pl') (np_storage p') = Inr (e(kind := w))"
          unfolding i st by (rule put(4))
        have nw: "aw_notified ((e(kind := w)) kind)" using nt ready by simp
        let ?e = "e(kind := w\<lparr>aw_notified := False\<rparr>)"
        let ?p2 = "p'\<lparr>np_storage := ws_put (pl_index pl') ?e (np_storage p')\<rparr>"
        have rs: "reset_waker kind (pl_index pl') p' = Inr ?p2" and ok2: "\<And>k. aw_ok (?e k)"
          using reset_waker_ok [where e = "e(kind := w)", OF g nw ok]
          by (simp_all only: fun_upd_upd fun_upd_same)
        have inv': "ws_inv nb ne (np_storage p') live"
          unfolding st by (rule ws_inv_put [where e = "e(kind := w)", OF less.prems(1,2) ok])
        have in': "in_blocks ne (np_storage p') (pl_index pl')"
          using less.prems(2) put(2) by (simp add: in_blocks_def st i)
        have b': "blocks_ok nb ne (np_storage p')" using inv' by (simp add: ws_inv_def)
        note put' = ws_put_ok [where e = ?e, OF b' in' ok2]
        have "poll_io kind ctx do_io pl p s = poll_io kind ctx do_io pl' ?p2 s1"
          using en ready io True rs
          by (simp add: poll_io.simps [of kind ctx do_io pl p s] poll_io_outcome_def)
        moreover have "\<exists>result. poll_io kind ctx do_io pl' ?p2 s1 = Some (Inr result)"
        proof (rule less.IH)
          show "wake_weight (?e kind) < n"
            using less.prems(6) wt [OF ready] by (simp add: wake_weight_def)
          show "ws_inv nb ne (np_storage ?p2) live"
            using ws_inv_put [where e = ?e, OF inv' in' ok2] by simp
          show "in_blocks ne (np_storage ?p2) (pl_index pl')"
            using in' put'(2) by (simp add: in_blocks_def)
          show "flag_count pl' \<le> unat (np_pending ?p2)" using cnt less.prems(3) by simp
          show "unat (np_pending ?p2) \<le> 2 ^ 33" using cnt less.prems(4) fl [OF ready] by simp
          show "ws_get (pl_index pl') (np_storage ?p2) = Inr ?e" using put'(4) by simp
        qed simp
        ultimately show ?thesis by simp
      qed
    qed
  qed
  moreover obtain e where "ws_get (pl_index pl) (np_storage p) = Inr e"
    using ws_get_ok [OF _ assms(2)] assms(1) unfolding ws_inv_def by metis
  ultimately show ?thesis using assms(1-4) by blast
qed

end
