(* ===== verification/Net_Properties.thy ===== *)
theory Net_Properties
  imports Net_Proofs
begin

text \<open>The properties of the waker storage, of pollables and of the net poller.\<close>

lemmas net_eval = net_start_def np_new_def ws_new_def pollable_new_def np_register_def ws_alloc_def
  pop_back_def block_indices_def EMPTY_ENTRY_def Let_def net_pollable_def net_enter_def set_pc_def
  poll_io_enter_def poll_waker_def np_with_wakers_def ws_with_def ws_get_def ws_put_def
  charge_budget_def io_pending_begin_def io_pending_complete_def pollable_drop_def wake_kind_def
  complete_if_def np_deregister_def ws_free_def aw_poll_def aw_check_def aw_cas_def aw_register_def
  aw_wake_def aw_fetch_notify_def aw_new_def aw_reset_def reset_waker_def poll_io_outcome_def
  process_event_def event_valid_def in_blocks_def index_from_usize_def try_u16_def SIGNAL_TOKEN_def
  BUDGET_def

subsection \<open>Waker storage\<close>

text \<open>
  A waker index survives the trip through a token of the selector, and no index has
  the token that is reserved for the signal.
\<close>

theorem waker_index_round_trip:
  "index_from_usize (index_into_usize i) = Inr i \<and> index_into_usize i \<noteq> SIGNAL_TOKEN"
proof -
  have "unat SIGNAL_TOKEN = 2 ^ 64 - 1"
    by (simp add: SIGNAL_TOKEN_def unsigned_minus_1_eq_mask mask_eq_exp_minus_1)
  then have "index_into_usize i \<noteq> SIGNAL_TOKEN" using index_token_small [of i] by auto
  then show ?thesis by (simp add: index_round_trip)
qed

lemma card_indices:
  assumes "nb < 2 ^ 16" "ne \<le> 2 ^ 16"
  shows "card {i :: waker_index. unat (wi_block i) < nb \<and> unat (wi_entry i) < ne} = nb * ne"
proof -
  let ?f = "\<lambda>(b, e). \<lparr>wi_block = of_nat b, wi_entry = of_nat e\<rparr>"
  have "inj_on ?f ({..<nb} \<times> {..<ne})"
  proof (rule inj_onI, clarsimp)
    fix b e b' e' assume *: "b < nb" "e < ne" "b' < nb" "e' < ne"
      "(of_nat b :: u16) = of_nat b'" "(of_nat e :: u16) = of_nat e'"
    have "b < 2 ^ 16" "b' < 2 ^ 16" "e < 2 ^ 16" "e' < 2 ^ 16" using * assms by linarith+
    then show "b = b' \<and> e = e'" using *(5,6) unat_of_nat16 by metis
  qed
  moreover have "?f ` ({..<nb} \<times> {..<ne}) = {i :: waker_index. unat (wi_block i) < nb \<and> unat (wi_entry i) < ne}"
  proof (intro equalityI subsetI)
    fix i assume "i \<in> ?f ` ({..<nb} \<times> {..<ne})"
    then obtain b e where "b < nb" "e < ne" "i = \<lparr>wi_block = of_nat b, wi_entry = of_nat e\<rparr>" by auto
    then show "i \<in> {i :: waker_index. unat (wi_block i) < nb \<and> unat (wi_entry i) < ne}"
      using assms unat_of_nat16 [of b] unat_of_nat16 [of e] by simp
  next
    fix i assume i: "i \<in> {i :: waker_index. unat (wi_block i) < nb \<and> unat (wi_entry i) < ne}"
    have "i = ?f (unat (wi_block i), unat (wi_entry i))" by simp
    then show "i \<in> ?f ` ({..<nb} \<times> {..<ne})" using i by (intro image_eqI) auto
  qed
  ultimately have "card {i :: waker_index. unat (wi_block i) < nb \<and> unat (wi_entry i) < ne} = card ({..<nb} \<times> {..<ne})"
    using card_image [of ?f "{..<nb} \<times> {..<ne}"] by simp
  then show ?thesis by simp
qed

text \<open>
  The waker storage hands out an index that no live registration has and whose entry
  exists, and it refuses only when every index of every block is live.
\<close>

theorem waker_alloc_is_fresh:
  fixes ws :: "'w waker_storage"
  assumes "ws_inv nb ne ws live" "sizes_ok nb ne"
  shows "(\<exists>i ws' e. ws_alloc nb ne ws = Inr (Some i, ws') \<and> i \<notin> set live \<and>
        ws_inv nb ne ws' (i # live) \<and> ws_get i ws' = Inr e) \<or>
     (ws_alloc nb ne ws = Inr (None, ws) \<and> length live = nb * ne)"
  using assms
proof (cases rule: ws_alloc_ok)
  case (1 i ws')
  then have "i \<notin> set live" and i: "in_blocks ne ws' i" and b: "blocks_ok nb ne ws'"
    by (auto simp: ws_inv_def)
  moreover obtain e where "ws_get i ws' = Inr e" using ws_get_ok [OF b i] by metis
  ultimately show ?thesis using 1 by blast
next
  case 2
  have "set live = {i :: waker_index. unat (wi_block i) < nb \<and> unat (wi_entry i) < ne}" and d: "distinct live"
    using assms(1) 2 by (simp_all add: ws_inv_def in_blocks_def)
  then have "length live = nb * ne" using card_indices assms(2) distinct_card [OF d] by simp
  then show ?thesis using 2 by simp
qed

theorem waker_alloc_is_fresh_witness:
  "(\<exists>i ws' e. ws_alloc 2 3 (ws_new :: nat waker_storage) = Inr (Some i, ws') \<and> i \<notin> set [] \<and>
        ws_inv 2 3 ws' [i] \<and> ws_get i ws' = Inr e) \<or>
     (ws_alloc 2 3 (ws_new :: nat waker_storage) = Inr (None, ws_new) \<and> length ([]::waker_index list) = 2 * 3)"
  by (rule waker_alloc_is_fresh [OF ws_inv_new]) simp

subsection \<open>Every schedule\<close>


text \<open>
  In every reachable state the pending count of the net poller is the number of
  pending flags of the live pollables; a worker that finds it zero, and does not select,
  misses no pollable that waits.
\<close>

theorem net_pending_counts_waiters:
  assumes "reach (net_step nb ne) net_start s" "sizes_ok nb ne"
  shows "unat (np_pending (nm_poller s)) = pending_count (nm_pollables s) \<and>
    (np_pending (nm_poller s) = 0 \<longleftrightarrow>
      (\<forall>n pl kind. net_pollable n s = Some pl \<longrightarrow> \<not> pl_pendings pl kind))"
proof -
  have inv: "net_inv nb ne s" by (rule net_reach_inv [OF assms(2,1)])
  then have c: "unat (np_pending (nm_poller s)) = pending_count (nm_pollables s)"
    by (simp add: net_inv_def)
  have flags: "flag_count pl = 0 \<longleftrightarrow> (\<forall>kind. \<not> pl_pendings pl kind)" for pl
    by (auto simp: flag_count_def) (metis waker_kind.exhaust)
  have "pending_count (nm_pollables s) = 0 \<longleftrightarrow> (\<forall>x \<in> set (nm_pollables s). slot_count x = 0)"
    by (simp add: pending_count_def sum_list_eq_0_iff)
  also have "\<dots> \<longleftrightarrow> (\<forall>n pl. net_pollable n s = Some pl \<longrightarrow> flag_count pl = 0)"
  proof -
    have "Some pl \<in> set (nm_pollables s) \<longleftrightarrow> (\<exists>n. net_pollable n s = Some pl)" for pl
      by (auto simp: net_pollable_def in_set_conv_nth)
    moreover have "(\<forall>x \<in> set (nm_pollables s). slot_count x = 0) \<longleftrightarrow>
        (\<forall>pl. Some pl \<in> set (nm_pollables s) \<longrightarrow> flag_count pl = 0)"
    proof (intro iffI ballI allI impI)
      fix x assume a: "\<forall>pl. Some pl \<in> set (nm_pollables s) \<longrightarrow> flag_count pl = 0"
        and x: "x \<in> set (nm_pollables s)"
      show "slot_count x = 0" using a x by (cases x) simp_all
    qed fastforce
    ultimately show ?thesis by blast
  qed
  finally have "pending_count (nm_pollables s) = 0 \<longleftrightarrow>
      (\<forall>n pl kind. net_pollable n s = Some pl \<longrightarrow> \<not> pl_pendings pl kind)"
    using flags by blast
  then show ?thesis using c by (simp add: unat_eq_zero [symmetric])
qed

theorem net_pending_counts_waiters_witness:
  "\<exists>s. run (net_step 1 1) (net_start :: nat net) [Register (Inr ()), Poll_Start 0 Read (Some 7)] = Some (Inr s) \<and>
    np_pending (nm_poller s) = 1 \<and>
    unat (np_pending (nm_poller s)) = pending_count (nm_pollables s) \<and>
    (np_pending (nm_poller s) = 0 \<longleftrightarrow>
      (\<forall>n pl kind. net_pollable n s = Some pl \<longrightarrow> \<not> pl_pendings pl kind))"
proof -
  obtain s where r: "run (net_step 1 1) (net_start :: nat net)
      [Register (Inr ()), Poll_Start 0 Read (Some 7)] = Some (Inr s)"
    and p: "np_pending (nm_poller s) = 1"
    by (simp add: net_eval)
  show ?thesis using net_pending_counts_waiters [OF run_reach [OF r]] r p by auto
qed

subsection \<open>A call of \<open>poll_io\<close>\<close>


lemma one_source_runs:
  "\<exists>s. run (net_step 1 1) (net_start :: nat net) [Register (Inr ())] = Some (Inr s) \<and>
     net_pollable 0 s = Some \<lparr>pl_index = \<lparr>wi_block = 0, wi_entry = 0\<rparr>,
       pl_budgets = (\<lambda>kind. BUDGET), pl_pendings = (\<lambda>kind. False)\<rparr>"
  by (simp add: net_eval)


fun charges :: "nat \<Rightarrow> waker_kind \<Rightarrow> 'w \<Rightarrow> pollable \<Rightarrow> unit poll list \<times> pollable" where
  "charges 0 kind c pl = ([], pl)"
| "charges (Suc n) kind c pl =
     (let (r, ws, pl1) = charge_budget kind (Some c) pl; (rs, pl2) = charges n kind c pl1
      in (r # rs, pl2))"

lemma charges_budget:
  "n \<le> unat (pl_budgets pl kind) \<Longrightarrow>
   fst (charges n kind c pl) = replicate n (Ready ()) \<and>
   pl_budgets (snd (charges n kind c pl)) kind = pl_budgets pl kind - of_nat n"
proof (induction n arbitrary: pl)
  case (Suc n)
  have nz: "pl_budgets pl kind \<noteq> 0" using Suc.prems by auto
  let ?pl = "pl\<lparr>pl_budgets := (pl_budgets pl)(kind := pl_budgets pl kind - 1)\<rparr>"
  have "n \<le> unat (pl_budgets ?pl kind)" using Suc.prems nz by (simp add: unat_minus_one)
  from Suc.IH [OF this] nz show ?case
    by (cases "charges n kind c ?pl") (simp add: charge_budget_def Let_def diff_diff_eq)
qed simp

text \<open>
  With a context, every poll that reaches the I/O costs one unit of the budget: of a
  pollable with a full budget 128 polls in a row go on to the I/O, and the next one yields,
  wakes its own task and refills the budget.
\<close>

theorem budget_forces_a_yield:
  assumes "pl_budgets pl kind = BUDGET"
  shows "fst (charges 128 kind c pl) = replicate 128 (Ready ()) \<and>
    (\<exists>pl'. charge_budget kind (Some c) (snd (charges 128 kind c pl)) = (Pending, [c], pl') \<and>
       pl_budgets pl' kind = BUDGET)"
proof -
  have b: "128 \<le> unat (pl_budgets pl kind)" using assms by (simp add: BUDGET_def)
  have "pl_budgets (snd (charges 128 kind c pl)) kind = 0"
    using charges_budget [OF b, of c] assms by (simp add: BUDGET_def)
  then show ?thesis using charges_budget [OF b, of c] by (simp add: charge_budget_def Let_def)
qed

theorem budget_forces_a_yield_witness:
  "\<exists>pl :: pollable. pl_budgets pl Read = BUDGET \<and>
     fst (charges 128 Read (3::nat) pl) = replicate 128 (Ready ())"
  using budget_forces_a_yield [of "\<lparr>pl_index = \<lparr>wi_block = 0, wi_entry = 0\<rparr>,
    pl_budgets = (\<lambda>kind. BUDGET), pl_pendings = (\<lambda>kind. False)\<rparr>" Read "3::nat"]
  by (metis pollable.select_convs(2))

subsection \<open>Events and resets\<close>

text \<open>
  C17: an event that arrives while a call does its I/O is not lost: when the I/O then answers
  \<open>WouldBlock\<close> and the call resets its waker, polling the waker again is \<open>Ready\<close>, so the
  call tries the I/O again instead of sleeping.
\<close>

theorem event_during_io_is_not_lost:
  assumes "reach (net_step nb ne) net_start s" "sizes_ok nb ne"
    "net_pollable n s = Some pl" "nm_pcs s n kind = At_Io ctx"
    "ev_token ev \<noteq> SIGNAL_TOKEN" "index_from_usize (ev_token ev) = Inr (pl_index pl)"
    "if kind = Read then ev_readable ev else ev_writable ev"
  shows "\<exists>s1 s2 p. net_step nb ne (Net_Event ev) s = Some (Inr s1) \<and>
    net_step nb ne (Io_Outcome n kind (Inl WouldBlock)) s1 = Some (Inr s2) \<and>
    nm_pcs s2 n kind = At_Retry ctx \<and>
    poll_waker kind ctx (pl_index pl) (nm_poller s2) = Inr (Ready (), p)"
proof -
  have inv: "net_inv nb ne s" by (rule net_reach_inv [OF assms(2,1)])
  let ?i = "pl_index pl"
  note P = net_inv_pollable [OF inv assms(3)]
  have w: "ws_inv nb ne (net_storage s) (live_indices (nm_pollables s))"
    using inv by (simp add: net_inv_def)
  have b: "blocks_ok nb ne (net_storage s)" using w by (simp add: ws_inv_def)
  obtain ws e e' where
    pe: "process_event ev (nm_poller s) = Inr (ws, (nm_poller s)\<lparr>np_storage := ws_put ?i e' (net_storage s)\<rparr>)"
    and g: "ws_get ?i (net_storage s) = Inr e" and ok: "\<And>k. aw_ok (e' k)"
    and nt: "\<And>k. aw_notified (e' k) = aw_notified (e k)"
    and st: "ev_readable ev \<Longrightarrow> aw_state (e' Read) = NOTIFIED"
      "ev_writable ev \<Longrightarrow> aw_state (e' Write) = NOTIFIED"
    by (rule process_event_ok [OF w assms(5,6) P(4)]) (rule that)
  let ?p1 = "(nm_poller s)\<lparr>np_storage := ws_put ?i e' (net_storage s)\<rparr>"
  let ?s1 = "s\<lparr>nm_poller := ?p1\<rparr>"
  have "event_valid ne s ev" using assms(6) P(4) by (auto simp: event_valid_def)
  then have 1: "net_step nb ne (Net_Event ev) s = Some (Inr ?s1)" using pe by simp
  have nk: "aw_state (e' kind) = NOTIFIED" using st assms(7) by (cases kind) simp_all
  have "notified_at (net_storage s) ?i kind" using inv assms(3,4) by (simp add: net_inv_def)
  then have n': "aw_notified (e' kind)" using g nt by (simp add: notified_at_def)
  note put = ws_put_ok [where e = e', OF b P(4) ok]
  have g1: "ws_get ?i (np_storage ?p1) = Inr e'" using put(4) by simp
  let ?e = "e'(kind := (e' kind)\<lparr>aw_notified := False\<rparr>)"
  let ?p2 = "?p1\<lparr>np_storage := ws_put ?i ?e (np_storage ?p1)\<rparr>"
  note rs = reset_waker_ok [OF g1 n' ok]
  let ?s2 = "set_pc n kind (At_Retry ctx) (?s1\<lparr>nm_poller := ?p2\<rparr>)"
  have "net_pollable n ?s1 = Some pl" using assms(3) by (auto simp: net_pollable_def split: if_splits)
  then have 2: "net_step nb ne (Io_Outcome n kind (Inl WouldBlock)) ?s1 = Some (Inr ?s2)"
    using assms(4) rs(1) by (simp add: poll_io_outcome_def)
  have w2: "ws_inv nb ne (np_storage ?p1) (live_indices (nm_pollables s))"
    using ws_inv_put [where e = e', OF w P(4) ok] by simp
  have i2: "in_blocks ne (np_storage ?p1) ?i" using P(4) put(2) by (simp add: in_blocks_def)
  have b2: "blocks_ok nb ne (np_storage ?p1)" using w2 by (simp add: ws_inv_def)
  note put2 = ws_put_ok [where e = ?e, OF b2 i2 rs(2)]
  have w3: "ws_inv nb ne (np_storage ?p2) (live_indices (nm_pollables s))"
    using ws_inv_put [where e = ?e, OF w2 i2 rs(2)] by simp
  have i3: "in_blocks ne (np_storage ?p2) ?i" using i2 put2(2) by (simp add: in_blocks_def)
  have g3: "ws_get ?i (np_storage ?p2) = Inr ?e" using put2(4) by simp
  obtain r x w' where pw: "poll_waker kind ctx ?i ?p2 =
      Inr (r, ?p2\<lparr>np_storage := ws_put ?i (x(kind := w')) (np_storage ?p2)\<rparr>)"
    and x: "ws_get ?i (np_storage ?p2) = Inr x"
    and r: "r = Ready () \<longleftrightarrow> aw_notified (x kind) \<or> aw_state (x kind) = NOTIFIED"
    by (rule poll_waker_ok [OF w3 i3, of kind ctx]) (rule that)
  have "r = Ready ()" unfolding r using x g3 nk by auto
  moreover have "nm_poller ?s2 = ?p2" by (simp add: set_pc_def)
  ultimately have 3: "poll_waker kind ctx ?i (nm_poller ?s2) =
      Inr (Ready (), ?p2\<lparr>np_storage := ws_put ?i (x(kind := w')) (np_storage ?p2)\<rparr>)"
    using pw by (simp only:)
  have 4: "nm_pcs ?s2 n kind = At_Retry ctx" by (simp add: set_pc_def)
  show ?thesis by (intro exI conjI, rule 1, rule 2, rule 4, rule 3)
qed


abbreviation readable_event :: poll_event where
  "readable_event \<equiv> \<lparr>ev_token = 0, ev_readable = True, ev_writable = True\<rparr>"

lemma io_in_progress_runs:
  "\<exists>s. run (net_step 1 1) (net_start :: nat net)
       [Register (Inr ()), Net_Event readable_event, Poll_Start 0 Read (Some 7)] = Some (Inr s) \<and>
     (\<exists>pl. net_pollable 0 s = Some pl \<and> pl_index pl = \<lparr>wi_block = 0, wi_entry = 0\<rparr>) \<and>
     nm_pcs s 0 Read = At_Io (Some 7)"
  by (simp add: net_eval)

theorem event_during_io_is_not_lost_witness:
  "\<exists>s s1 s2 p. run (net_step 1 1) (net_start :: nat net)
       [Register (Inr ()), Net_Event readable_event, Poll_Start 0 Read (Some 7)] = Some (Inr s) \<and>
     net_step 1 1 (Net_Event readable_event) s = Some (Inr s1) \<and>
     net_step 1 1 (Io_Outcome 0 Read (Inl WouldBlock)) s1 = Some (Inr s2) \<and>
     poll_waker Read (Some 7) \<lparr>wi_block = 0, wi_entry = 0\<rparr> (nm_poller s2) = Inr (Ready (), p)"
proof -
  obtain s pl where r: "run (net_step 1 1) (net_start :: nat net)
       [Register (Inr ()), Net_Event readable_event, Poll_Start 0 Read (Some 7)] = Some (Inr s)"
    and pl: "net_pollable 0 s = Some pl" and i: "pl_index pl = \<lparr>wi_block = 0, wi_entry = 0\<rparr>"
    and pc: "nm_pcs s 0 Read = At_Io (Some 7)"
    using io_in_progress_runs by blast
  have "index_from_usize (ev_token readable_event) = Inr (pl_index pl)"
    by (simp add: index_from_usize_ok i)
  moreover have "ev_token readable_event \<noteq> SIGNAL_TOKEN" by (simp add: SIGNAL_TOKEN_def)
  moreover have "sizes_ok 1 1" "if Read = Read then ev_readable readable_event else ev_writable readable_event"
    by simp_all
  ultimately obtain s1 s2 p where "net_step 1 1 (Net_Event readable_event) s = Some (Inr s1)"
    "net_step 1 1 (Io_Outcome 0 Read (Inl WouldBlock)) s1 = Some (Inr s2)"
    "poll_waker Read (Some 7) (pl_index pl) (nm_poller s2) = Inr (Ready (), p)"
    using event_during_io_is_not_lost [OF run_reach [OF r] _ pl pc] by blast
  then show ?thesis using r unfolding i by blast
qed

text \<open>
  \<open>poll_io\<close> is not reentrant, although it takes \<open>&self\<close> and \<open>try_read\<close> and \<open>try_write\<close>
  offer it on shared streams: when two calls for the same kind are both past the waker and
  both get \<open>WouldBlock\<close>, the first resets the waker and the second panics.
\<close>

theorem second_reset_panics:
  assumes "reach (net_step nb ne) net_start s" "sizes_ok nb ne"
    "net_pollable n s = Some pl" "nm_pcs s n kind = At_Io ctx"
  shows "\<exists>p1. poll_io_outcome kind (Inl WouldBlock :: 'a io_result) pl (nm_poller s) = Inr (Retry, p1) \<and>
    poll_io_outcome kind (Inl WouldBlock :: 'b io_result) pl p1 = Inl Assert_Failed"
proof -
  have inv: "net_inv nb ne s" by (rule net_reach_inv [OF assms(2,1)])
  let ?i = "pl_index pl"
  note P = net_inv_pollable [OF inv assms(3)]
  have b: "blocks_ok nb ne (net_storage s)" using inv by (simp add: net_inv_def ws_inv_def)
  obtain e where g: "ws_get ?i (net_storage s) = Inr e" and ok: "\<And>k. aw_ok (e k)"
    using ws_get_ok [OF b P(4)] by metis
  have "notified_at (net_storage s) ?i kind" using inv assms(3,4) by (simp add: net_inv_def)
  then have n: "aw_notified (e kind)" using g by (simp add: notified_at_def)
  let ?e = "e(kind := (e kind)\<lparr>aw_notified := False\<rparr>)"
  note rs = reset_waker_ok [OF g n ok]
  have "ws_get ?i (ws_put ?i ?e (net_storage s)) = Inr ?e"
    by (rule ws_put_ok(4) [where e = ?e, OF b P(4) rs(2)])
  then have "reset_waker kind ?i ((nm_poller s)\<lparr>np_storage := ws_put ?i ?e (net_storage s)\<rparr>) =
      Inl Assert_Failed"
    by (simp add: reset_waker_def np_with_wakers_def ws_with_def aw_reset_def)
  then show ?thesis using rs(1) by (simp add: poll_io_outcome_def)
qed

theorem second_reset_panics_witness:
  "\<exists>s pl p1. run (net_step 1 1) (net_start :: nat net)
       [Register (Inr ()), Net_Event readable_event, Poll_Start 0 Read (Some 7)] = Some (Inr s) \<and>
     net_pollable 0 s = Some pl \<and>
     poll_io_outcome Read (Inl WouldBlock :: unit io_result) pl (nm_poller s) = Inr (Retry, p1) \<and>
     poll_io_outcome Read (Inl WouldBlock :: unit io_result) pl p1 = Inl Assert_Failed"
proof -
  obtain s pl where r: "run (net_step 1 1) (net_start :: nat net)
       [Register (Inr ()), Net_Event readable_event, Poll_Start 0 Read (Some 7)] = Some (Inr s)"
    and pl: "net_pollable 0 s = Some pl" and pc: "nm_pcs s 0 Read = At_Io (Some 7)"
    using io_in_progress_runs by blast
  have "sizes_ok 1 1" by simp
  from second_reset_panics [OF run_reach [OF r] this pl pc] r pl show ?thesis by blast
qed

text \<open>
  Freeing an index does not reset its wakers, which \<open>drop\<close> has just woken: a source
  registered after another one was dropped gets its index, and polling for writability is
  \<open>Ready\<close> at once, without any event; the first registration of an index is \<open>Pending\<close>.
\<close>

theorem recycled_wakers_are_ready:
  "(\<exists>s pl p. run (net_step 1 1) (net_start :: nat net)
       [Register (Inr ()), Drop_Pollable 0, Register (Inr ())] = Some (Inr s) \<and>
     net_pollable 1 s = Some pl \<and>
     poll_waker Write (Some 7) (pl_index pl) (nm_poller s) = Inr (Ready (), p)) \<and>
   (\<exists>s pl p. run (net_step 1 1) (net_start :: nat net) [Register (Inr ())] = Some (Inr s) \<and>
     net_pollable 0 s = Some pl \<and>
     poll_waker Write (Some 7) (pl_index pl) (nm_poller s) = Inr (Pending, p))"
  by (simp add: net_eval)

text \<open>
  Selecting returns: if the selector is interrupted a finite number of times before it
  gives any other answer, the guard's poll loop ends with that answer.
\<close>

theorem guard_poll_ends:
  assumes "\<And>j. j < n \<Longrightarrow> fst (select (((snd \<circ> select) ^^ j) s)) = Inl Interrupted"
    and "fst (select (((snd \<circ> select) ^^ n) s)) \<noteq> Inl Interrupted"
  shows "guard_poll select s = Some (((snd \<circ> select) ^^ Suc n) s)"
  by (rule guard_poll_returns [where n = n]) (use assms in simp_all)

theorem guard_poll_ends_witness:
  "guard_poll (\<lambda>k::nat. (if k < 2 then Inl Interrupted else Inr (), k + 1)) 0 = Some 3"
proof -
  let ?s = "\<lambda>k::nat. (if k < 2 then Inl Interrupted else Inr (), k + 1)"
  have st: "((snd \<circ> ?s) ^^ j) 0 = j" for j by (induction j) auto
  have "guard_poll ?s 0 = Some (((snd \<circ> ?s) ^^ Suc 2) 0)"
    by (rule guard_poll_ends) (simp_all only: st fst_conv, simp_all)
  then show ?thesis by (simp only: st) simp
qed

end
