(* ===== verification/Parker.thy ===== *)
theory Parker
  imports Prelude
begin

text \<open>
  \<open>src/src/runtime/internal/parker.rs\<close>: parking a thread on a condition variable or in the
  net poller, and unparking it with an optional worker index. The word of the atomic is
  encoded and decoded as in the code; the machine interleaves one parking thread with any
  number of unparking threads, on the decoded state.
\<close>

subsection \<open>The encoded state\<close>

text \<open>The type of worker indices is a parameter; the atomic holds \<open>usize\<close> ones.\<close>

datatype 'i park_state = Park_Empty | Park_Waiting | Park_Polling | Park_Notified "'i option"

definition park_from_usize :: "usize \<Rightarrow> usize park_state" where
  "park_from_usize value =
     (let tag = value AND 3; index = drop_bit 2 value
      in if tag = 0 then Park_Empty
         else if tag = 1 then Park_Waiting
         else if tag = 2 then Park_Polling
         else Park_Notified (if index = 0 then None else Some (index - 1)))"

fun park_into_usize :: "usize park_state \<Rightarrow> usize res" where
  "park_into_usize Park_Empty = Inr 0"
| "park_into_usize Park_Waiting = Inr 1"
| "park_into_usize Park_Polling = Inr 2"
| "park_into_usize (Park_Notified worker_index) =
     rbind (case worker_index of
              None \<Rightarrow> Inr 0
            | Some i \<Rightarrow> if i = - 1 then Inl Arithmetic_Overflow else Inr (i + 1)) (\<lambda>index.
     rbind (rassert (index < drop_bit 2 (- 1))) (\<lambda>_.
       Inr (3 OR push_bit 2 index)))"

subsection \<open>Operations on the state\<close>

text \<open>The \<open>fetch_update\<close> of \<open>unpark\<close>: the previous state, if it was updated.\<close>

fun unpark_update :: "'i option \<Rightarrow> 'i park_state \<Rightarrow> ('i park_state \<times> 'i park_state) option" where
  "unpark_update w (Park_Notified v) = None"
| "unpark_update w Park_Empty = (if w \<noteq> None then None else Some (Park_Empty, Park_Notified w))"
| "unpark_update w st = Some (st, Park_Notified w)"

text \<open>
  The result of \<open>unpark\<close> and whom it must wake: the net poller, the thread on the condition
  variable, or nobody.
\<close>

datatype unpark_wake = Wake_Net | Wake_Condvar | Wake_None

definition unpark_result :: "'i option \<Rightarrow> 'i park_state \<Rightarrow> bool \<times> unpark_wake \<times> 'i park_state" where
  "unpark_result w st =
     (case unpark_update w st of
        None \<Rightarrow> (False, Wake_None, st)
      | Some (Park_Polling, st') \<Rightarrow> (True, Wake_Net, st')
      | Some (Park_Waiting, st') \<Rightarrow> (True, Wake_Condvar, st')
      | Some (_, st') \<Rightarrow> (False, Wake_None, st'))"

definition wait_state :: "bool \<Rightarrow> 'i park_state" where
  "wait_state is_polling = (if is_polling then Park_Polling else Park_Waiting)"

fun notified_index :: "'i park_state \<Rightarrow> 'i option option" where
  "notified_index (Park_Notified w) = Some w"
| "notified_index st = None"

text \<open>The test of \<open>park_waiting\<close>, before and after the wait.\<close>

fun waiting_check :: "'i park_state \<Rightarrow> bool res" where
  "waiting_check Park_Waiting = Inr True"
| "waiting_check (Park_Notified w) = Inr False"
| "waiting_check st = Inl Unreachable"

subsection \<open>The machine\<close>

text \<open>
  Program points of the parking thread: outside; about to store \<open>Empty\<close> after it loaded a
  notification; about to do so after a failed exchange, where \<open>unwrap\<close> needs one; in
  \<open>park_waiting\<close> before the lock, under it, deciding to wait, waiting, and awake; in the net
  poller; and before the final exchange.
\<close>

datatype park_pc =
    P_Out
  | P_Store "usize option"
  | P_Unwrap
  | P_Lock
  | P_Locked
  | P_To_Wait
  | P_Blocked
  | P_Woken
  | P_Net
  | P_Cas bool

text \<open>
  \<open>pk_locking\<close> and \<open>pk_signalling\<close> count the unparking threads in \<open>unpark_waiting\<close> before and
  after the lock. The last two fields record the indices that unparks stored and the
  parking thread received.
\<close>

record parker =
  pk_state :: "usize park_state"
  pk_pc :: park_pc
  pk_mutex :: bool
  pk_locking :: nat
  pk_signalling :: nat
  pk_sent :: "usize option list"
  pk_received :: "usize option list"

datatype park_action =
    Poll_Unparked
  | Park bool
  | Park_Advance
  | Park_Return
  | Unpark "usize option"
  | Unpark_Lock
  | Unpark_Signal

definition parker_new :: parker where
  "parker_new = \<lparr>pk_state = Park_Empty, pk_pc = P_Out, pk_mutex = False, pk_locking = 0,
     pk_signalling = 0, pk_sent = [], pk_received = []\<rparr>"

text \<open>\<open>poll_unparked\<close>, its load: on a notification the store follows.\<close>

definition poll_unparked :: "parker \<Rightarrow> parker" where
  "poll_unparked s =
     (case notified_index (pk_state s) of
        Some w \<Rightarrow> s\<lparr>pk_pc := P_Store w\<rparr>
      | None \<Rightarrow> s)"

text \<open>The first exchange of \<open>park\<close>.\<close>

definition park_begin :: "bool \<Rightarrow> parker \<Rightarrow> parker" where
  "park_begin is_polling s =
     (if pk_state s = Park_Empty
      then s\<lparr>pk_state := wait_state is_polling, pk_pc := if is_polling then P_Net else P_Lock\<rparr>
      else s\<lparr>pk_pc := P_Unwrap\<rparr>)"

definition park_advance :: "parker \<Rightarrow> parker res option" where
  "park_advance s =
     (case pk_pc s of
        P_Out \<Rightarrow> None
      | P_Store w \<Rightarrow>
          Some (Inr (s\<lparr>pk_state := Park_Empty, pk_pc := P_Out, pk_received := pk_received s @ [w]\<rparr>))
      | P_Unwrap \<Rightarrow>
          Some (rbind (unwrap (notified_index (pk_state s))) (\<lambda>w. Inr (s\<lparr>pk_pc := P_Store w\<rparr>)))
      | P_Lock \<Rightarrow> if pk_mutex s then None else Some (Inr (s\<lparr>pk_mutex := True, pk_pc := P_Locked\<rparr>))
      | P_Locked \<Rightarrow>
          Some (rbind (waiting_check (pk_state s)) (\<lambda>wait.
            Inr (if wait then s\<lparr>pk_pc := P_To_Wait\<rparr>
                 else s\<lparr>pk_mutex := False, pk_pc := P_Cas False\<rparr>)))
      | P_To_Wait \<Rightarrow> Some (Inr (s\<lparr>pk_mutex := False, pk_pc := P_Blocked\<rparr>))
      | P_Blocked \<Rightarrow> None
      | P_Woken \<Rightarrow>
          (if pk_mutex s then None
           else Some (rbind (waiting_check (pk_state s)) (\<lambda>_. Inr (s\<lparr>pk_pc := P_Cas False\<rparr>))))
      | P_Net \<Rightarrow> None
      | P_Cas is_polling \<Rightarrow>
          Some (Inr (if pk_state s = wait_state is_polling
                     then s\<lparr>pk_state := Park_Empty, pk_pc := P_Out\<rparr>
                     else s\<lparr>pk_pc := P_Unwrap\<rparr>)))"

definition unpark :: "usize option \<Rightarrow> parker \<Rightarrow> parker" where
  "unpark w s =
     (let (result, wake, st) = unpark_result w (pk_state s)
      in s\<lparr>pk_state := st,
           pk_sent := (if unpark_update w (pk_state s) = None then pk_sent s else pk_sent s @ [w]),
           pk_locking := (if wake = Wake_Condvar then Suc (pk_locking s) else pk_locking s)\<rparr>)"

text \<open>
  \<open>Park_Return\<close> is a time-out of the wait, or the selector's return; the condition variable
  wakes the thread in \<open>Unpark_Signal\<close>.
\<close>

fun parker_step :: "park_action \<Rightarrow> parker \<Rightarrow> parker res option" where
  "parker_step Poll_Unparked s = (if pk_pc s = P_Out then Some (Inr (poll_unparked s)) else None)"
| "parker_step (Park is_polling) s =
     (if pk_pc s = P_Out then Some (Inr (park_begin is_polling s)) else None)"
| "parker_step Park_Advance s = park_advance s"
| "parker_step Park_Return s =
     (case pk_pc s of
        P_Blocked \<Rightarrow> Some (Inr (s\<lparr>pk_pc := P_Woken\<rparr>))
      | P_Net \<Rightarrow> Some (Inr (s\<lparr>pk_pc := P_Cas True\<rparr>))
      | _ \<Rightarrow> None)"
| "parker_step (Unpark w) s = Some (Inr (unpark w s))"
| "parker_step Unpark_Lock s =
     (if 0 < pk_locking s \<and> \<not> pk_mutex s
      then Some (Inr (s\<lparr>pk_locking := pk_locking s - 1, pk_signalling := Suc (pk_signalling s)\<rparr>))
      else None)"
| "parker_step Unpark_Signal s =
     (if 0 < pk_signalling s
      then Some (Inr (s\<lparr>pk_signalling := pk_signalling s - 1,
                       pk_pc := if pk_pc s = P_Blocked then P_Woken else pk_pc s\<rparr>))
      else None)"

subsection \<open>The invariant\<close>

fun notified :: "'i park_state \<Rightarrow> bool" where
  "notified (Park_Notified w) = True"
| "notified st = False"

fun pc_state_ok :: "park_pc \<Rightarrow> usize park_state \<Rightarrow> bool" where
  "pc_state_ok P_Out st = (st = Park_Empty \<or> notified st)"
| "pc_state_ok (P_Store w) st = (st = Park_Notified w)"
| "pc_state_ok P_Unwrap st = notified st"
| "pc_state_ok P_Net st = (st = Park_Polling \<or> notified st)"
| "pc_state_ok (P_Cas is_polling) st = (st = wait_state is_polling \<or> notified st)"
| "pc_state_ok pc st = (st = Park_Waiting \<or> notified st)"

definition parker_inv :: "parker \<Rightarrow> bool" where
  "parker_inv s \<longleftrightarrow>
     pc_state_ok (pk_pc s) (pk_state s) \<and>
     (pk_mutex s \<longleftrightarrow> pk_pc s = P_Locked \<or> pk_pc s = P_To_Wait) \<and>
     (pk_pc s = P_To_Wait \<and> notified (pk_state s) \<longrightarrow> 0 < pk_locking s) \<and>
     (pk_pc s = P_Blocked \<and> notified (pk_state s) \<longrightarrow> 0 < pk_locking s \<or> 0 < pk_signalling s) \<and>
     pk_sent s = pk_received s @ (case notified_index (pk_state s) of Some w \<Rightarrow> [w] | None \<Rightarrow> [])"

lemma parker_inv_new: "parker_inv parker_new"
  by (simp add: parker_inv_def parker_new_def)

lemma notified_cases: "notified st \<Longrightarrow> (\<And>w. st = Park_Notified w \<Longrightarrow> P) \<Longrightarrow> P"
  by (cases st) auto

lemma wait_state_simps [simp]:
  "wait_state True = Park_Polling" "wait_state False = Park_Waiting"
  "notified (wait_state b) = False" "notified_index (wait_state b) = None"
  "wait_state b \<noteq> Park_Empty" "wait_state b \<noteq> Park_Notified w" "Park_Notified w \<noteq> wait_state b"
  by (simp_all add: wait_state_def)

lemma unpark_inv:
  assumes "parker_inv s"
  shows "parker_inv (unpark w s)"
proof (cases "pk_state s")
  case (Park_Notified v)
  then show ?thesis using assms by (simp add: unpark_def unpark_result_def parker_inv_def)
next
  case Park_Empty
  then show ?thesis
    using assms by (cases "pk_pc s") (auto simp: unpark_def unpark_result_def parker_inv_def wait_state_def)
next
  case Park_Waiting
  then show ?thesis
    using assms by (cases "pk_pc s") (auto simp: unpark_def unpark_result_def parker_inv_def)
next
  case Park_Polling
  then show ?thesis
    using assms by (cases "pk_pc s") (auto simp: unpark_def unpark_result_def parker_inv_def)
qed

lemma park_advance_ok:
  assumes "parker_inv s"
  shows "park_advance s = None \<or> (\<exists>s'. park_advance s = Some (Inr s') \<and> parker_inv s')"
proof (cases "pk_state s")
  case (Park_Notified v)
  then show ?thesis
    using assms by (cases "pk_pc s") (auto simp: park_advance_def parker_inv_def)
next
  case Park_Empty
  then show ?thesis
    using assms by (cases "pk_pc s") (auto simp: park_advance_def parker_inv_def wait_state_def split: if_splits)
next
  case Park_Waiting
  then show ?thesis
    using assms by (cases "pk_pc s") (auto simp: park_advance_def parker_inv_def)
next
  case Park_Polling
  then show ?thesis
    using assms by (cases "pk_pc s") (auto simp: park_advance_def parker_inv_def)
qed

lemma parker_step_ok:
  assumes "parker_inv s"
  shows "parker_step a s = None \<or> (\<exists>s'. parker_step a s = Some (Inr s') \<and> parker_inv s')"
proof (cases a)
  case Poll_Unparked
  then show ?thesis
    using assms by (cases "pk_state s") (auto simp: poll_unparked_def parker_inv_def)
next
  case (Park b)
  then show ?thesis
    using assms by (cases b; cases "pk_state s") (auto simp: park_begin_def parker_inv_def)
next
  case Park_Advance
  then show ?thesis using park_advance_ok [OF assms] by simp
next
  case Park_Return
  then show ?thesis using assms by (cases "pk_pc s") (auto simp: parker_inv_def)
next
  case (Unpark w)
  then show ?thesis using unpark_inv [OF assms] by simp
next
  case Unpark_Lock
  then show ?thesis using assms by (auto simp: parker_inv_def)
next
  case Unpark_Signal
  then show ?thesis using assms by (cases "pk_pc s") (auto simp: parker_inv_def)
qed

interpretation parker: safe_machine parker_step parker_new parker_inv
proof
  show "parker_inv parker_new" by (rule parker_inv_new)
next
  fix s a s' assume "parker_inv s" "parker_step a s = Some (Inr s')"
  then show "parker_inv s'" using parker_step_ok [of s a] by auto
next
  fix s a p assume "parker_inv s"
  then show "parker_step a s \<noteq> Some (Inl p)" using parker_step_ok [of s a] by auto
qed

subsection \<open>Properties\<close>

lemma take_bit_62:
  assumes "unat (x :: usize) < 2 ^ 62"
  shows "take_bit 62 x = x"
proof -
  have "unat (take_bit 62 x) = unat x"
    unfolding unsigned_take_bit_eq using assms by (simp add: take_bit_nat_eq_self)
  then show ?thesis by (simp add: word_unat_eq_iff)
qed

lemma park_word:
  assumes "unat (x :: usize) < 2 ^ 62"
  shows "(3 OR push_bit 2 x) AND 3 = 3" "drop_bit 2 (3 OR push_bit 2 x) = x"
proof -
  have bits: "bit (3 :: usize) n \<longleftrightarrow> n = 0 \<or> n = 1" for n
    using bit_numeral_word_iff [where 'a = 64 and w = "Num.num.Bit1 Num.num.One"]
    by (cases n) (auto simp: bit_simps numeral_3_eq_3 bit_Suc)
  show "(3 OR push_bit 2 x) AND 3 = 3"
    by (rule bit_word_eqI) (auto simp: bit_simps bits)
  have "n < 62" if "bit x n" for n
    using take_bit_62 [OF assms] that by (metis bit_take_bit_iff)
  then show "drop_bit 2 (3 OR push_bit 2 x) = x"
    by (intro bit_word_eqI) (auto simp: bit_simps bits)
qed

text \<open>
  C40: every park state that can be encoded is decoded to itself, and the only states that
  cannot are notifications with a worker index of 2^62 - 2 or more.
\<close>

theorem park_state_round_trip:
  "case park_into_usize st of
     Inr v \<Rightarrow> park_from_usize v = st
   | Inl p \<Rightarrow> (\<exists>i. st = Park_Notified (Some i) \<and> 2 ^ 62 - 2 \<le> unat i)"
proof -
  have m: "unat (drop_bit 2 (- 1 :: usize)) = 2 ^ 62 - 1"
    by (simp add: unsigned_drop_bit_eq unsigned_minus_1_eq_mask mask_eq_exp_minus_1 drop_bit_nat_def)
  have dec: "park_from_usize (3 OR push_bit 2 x) = Park_Notified (if x = 0 then None else Some (x - 1))"
    if "x < drop_bit 2 (- 1)" for x
  proof -
    have "unat x < 2 ^ 62" using that m by (simp add: word_less_nat_alt)
    then show ?thesis using park_word [of x] by (simp add: park_from_usize_def Let_def)
  qed
  show ?thesis
  proof (cases st)
    case (Park_Notified w)
    show ?thesis
    proof (cases w)
      case None
      then show ?thesis using Park_Notified dec [of 0] m by (simp add: word_less_nat_alt)
    next
      case (Some i)
      show ?thesis
      proof (cases "i = - 1")
        case True
        then show ?thesis
          using Park_Notified Some by (simp add: unsigned_minus_1_eq_mask mask_eq_exp_minus_1)
      next
        case False
        then have "1 + i \<noteq> 0" by (simp add: add_eq_0_iff)
        then have s: "unat (i + 1) = Suc (unat i)" by (simp add: unatSuc add.commute)
        then have "i + 1 \<noteq> 0" by auto
        show ?thesis
        proof (cases "i + 1 < drop_bit 2 (- 1)")
          case True
          then show ?thesis using Park_Notified Some False dec [OF True] \<open>i + 1 \<noteq> 0\<close> by simp
        next
          case ge: False
          then have "2 ^ 62 - 1 \<le> unat (i + 1)" using m by (simp add: word_less_nat_alt)
          then show ?thesis using Park_Notified Some False ge s by (simp add: rassert_def)
        qed
      qed
    qed
  qed (simp_all add: park_from_usize_def Let_def)
qed

text \<open>
  No interleaving of a parking thread with any number of unparking threads panics: the
  \<open>unreachable!\<close>s around the wait and the \<open>unwrap\<close>s after the failed exchanges never fail.
\<close>

theorem parker_never_panics: "run parker_step parker_new schedule \<noteq> Some (Inl p)"
  by (rule parker.run_no_panic)

text \<open>
  C29: worker indices are handed over exactly once and in order: in every reachable state the
  indices that unparks stored are those the parking thread received, plus the one that is
  in the state word.
\<close>

theorem unparks_are_delivered_once:
  assumes "reach parker_step parker_new s"
  shows "pk_sent s = pk_received s @ (case notified_index (pk_state s) of Some w \<Rightarrow> [w] | None \<Rightarrow> [])"
  using parker.reach_inv [OF assms] by (simp add: parker_inv_def)

lemma blocked_run:
  "\<exists>s. run parker_step parker_new
      [Park False, Park_Advance, Park_Advance, Park_Advance, Unpark (Some 3)] = Some (Inr s) \<and>
    pk_pc s = P_Blocked \<and> pk_state s = Park_Notified (Some 3)"
  by (simp add: parker_new_def park_begin_def park_advance_def unpark_def unpark_result_def)

theorem unparks_are_delivered_once_witness:
  "\<exists>s. run parker_step parker_new
      [Park False, Park_Advance, Park_Advance, Park_Advance, Unpark (Some 3)] = Some (Inr s) \<and>
    pk_sent s = pk_received s @ (case notified_index (pk_state s) of Some w \<Rightarrow> [w] | None \<Rightarrow> [])"
proof -
  obtain s where r: "run parker_step parker_new
      [Park False, Park_Advance, Park_Advance, Park_Advance, Unpark (Some 3)] = Some (Inr s)"
    using blocked_run by blast
  from r unparks_are_delivered_once [OF run_reach [OF r]] show ?thesis by blast
qed

text \<open>
  No unpark is lost: whenever the thread waits on the condition variable although a
  notification is stored, an unparking thread is about to signal it, and without any
  time-out those steps and the thread's own lead to the notification being received.
\<close>

theorem notified_parker_wakes:
  assumes "reach parker_step parker_new s" "pk_pc s = P_Blocked" "pk_state s = Park_Notified w"
  shows "\<exists>steps s'. Park_Return \<notin> set steps \<and> length steps \<le> 6 \<and>
    run parker_step s steps = Some (Inr s') \<and> pk_received s' = pk_received s @ [w] \<and> pk_pc s' = P_Out"
proof -
  have inv: "parker_inv s" by (rule parker.reach_inv [OF assms(1)])
  then have m: "\<not> pk_mutex s" and l: "0 < pk_locking s \<or> 0 < pk_signalling s"
    using assms(2,3) by (simp_all add: parker_inv_def)
  have rest: "\<exists>s'. run parker_step t [Unpark_Signal, Park_Advance, Park_Advance, Park_Advance, Park_Advance] =
      Some (Inr s') \<and> pk_received s' = pk_received t @ [w] \<and> pk_pc s' = P_Out"
    if "pk_pc t = P_Blocked" "pk_state t = Park_Notified w" "\<not> pk_mutex t" "0 < pk_signalling t" for t
    using that by (simp add: park_advance_def)
  show ?thesis
  proof (cases "0 < pk_signalling s")
    case True
    then show ?thesis
      using rest [OF assms(2,3) m] by (intro exI [where x = "[Unpark_Signal, Park_Advance, Park_Advance, Park_Advance, Park_Advance]"]) auto
  next
    case False
    let ?t = "s\<lparr>pk_locking := pk_locking s - 1, pk_signalling := Suc (pk_signalling s)\<rparr>"
    have "parker_step Unpark_Lock s = Some (Inr ?t)" using False l m by simp
    moreover from rest [of ?t] obtain s' where
      "run parker_step ?t [Unpark_Signal, Park_Advance, Park_Advance, Park_Advance, Park_Advance] = Some (Inr s')"
      "pk_received s' = pk_received s @ [w]" "pk_pc s' = P_Out" using assms(2,3) m by auto
    ultimately show ?thesis
      by (intro exI [where x = "[Unpark_Lock, Unpark_Signal, Park_Advance, Park_Advance, Park_Advance, Park_Advance]"]
          exI [where x = s']) simp
  qed
qed

theorem notified_parker_wakes_witness:
  "\<exists>s steps s'. run parker_step parker_new
      [Park False, Park_Advance, Park_Advance, Park_Advance, Unpark (Some 3)] = Some (Inr s) \<and>
    Park_Return \<notin> set steps \<and> length steps \<le> 6 \<and>
    run parker_step s steps = Some (Inr s') \<and> pk_received s' = pk_received s @ [Some 3] \<and> pk_pc s' = P_Out"
proof -
  obtain s where r: "run parker_step parker_new
      [Park False, Park_Advance, Park_Advance, Park_Advance, Unpark (Some 3)] = Some (Inr s)"
    and s: "pk_pc s = P_Blocked" "pk_state s = Park_Notified (Some 3)"
    using blocked_run by blast
  from r notified_parker_wakes [OF run_reach [OF r] s] show ?thesis by blast
qed

end
