(* ===== verification/Executor.thy ===== *)
theory Executor
  imports Prelude
begin

text \<open>
  \<open>src/src/runtime/internal/executor.rs\<close>: the queue of idle workers and the count of threads
  that search for work. Each operation of an atomic or under the lock is a definition, and
  the functions of the executor that are made of several are composed in the scheduler.
\<close>

subsection \<open>\<open>IdleQueue\<close>\<close>

record idle_queue =
  iq_pending :: bool
  iq_indices :: "nat list"

definition idle_from :: "nat \<Rightarrow> idle_queue" where
  "idle_from n = \<lparr>iq_pending = True, iq_indices = [0..<n]\<rparr>"

definition idle_push :: "nat \<Rightarrow> idle_queue \<Rightarrow> idle_queue" where
  "idle_push i q = \<lparr>iq_pending = True, iq_indices = iq_indices q @ [i]\<rparr>"

definition idle_pop :: "idle_queue \<Rightarrow> (nat option \<times> idle_queue) res" where
  "idle_pop q =
     (if \<not> iq_pending q then Inr (None, q)
      else if length (iq_indices q) = 0 then Inr (None, q)
      else
        let i = length (iq_indices q) - 1;
            q1 = (if i = 0 then q\<lparr>iq_pending := False\<rparr> else q)
        in rbind (swap_remove (iq_indices q1) i) (\<lambda>(worker, rest).
             Inr (Some worker, q1\<lparr>iq_indices := rest\<rparr>)))"

lemma idle_pop_eq:
  "idle_pop q =
     Inr (if \<not> iq_pending q \<or> iq_indices q = [] then (None, q)
          else (Some (last (iq_indices q)),
                \<lparr>iq_pending = length (iq_indices q) \<noteq> 1, iq_indices = butlast (iq_indices q)\<rparr>))"
  using swap_remove_last [of "iq_indices q"]
  by (cases "iq_indices q") (auto simp: idle_pop_def Let_def)

text \<open>A pop takes the index pushed last, and nothing else changes.\<close>

lemma idle_pop_mset:
  "idle_pop q = Inr (Some i, q') \<Longrightarrow> mset (iq_indices q) = add_mset i (mset (iq_indices q'))"
proof (cases "iq_indices q" rule: rev_cases)
  case (snoc xs x)
  moreover assume "idle_pop q = Inr (Some i, q')"
  ultimately show ?thesis by (auto simp: idle_pop_eq split: if_splits)
qed (auto simp: idle_pop_eq)

subsection \<open>The count of searching threads\<close>

record executor =
  ex_idle :: idle_queue
  ex_searching :: usize
  ex_workers :: nat

definition executor_from :: "nat \<Rightarrow> executor" where
  "executor_from n = \<lparr>ex_idle = idle_from n, ex_searching = 0, ex_workers = n\<rparr>"

definition set_idle :: "idle_queue \<Rightarrow> executor \<Rightarrow> executor" where
  "set_idle q ex = ex\<lparr>ex_idle := q\<rparr>"

text \<open>\<open>fetch_add\<close> with the assertion that follows it.\<close>

definition searching_add :: "executor \<Rightarrow> executor res" where
  "searching_add ex =
     rbind (rassert (unat (ex_searching ex) < ex_workers ex)) (\<lambda>_.
       Inr (ex\<lparr>ex_searching := ex_searching ex + 1\<rparr>))"

text \<open>\<open>fetch_sub\<close> with its assertions; the result is the previous count.\<close>

definition searching_sub :: "executor \<Rightarrow> (usize \<times> executor) res" where
  "searching_sub ex =
     rbind (rassert (unat (ex_searching ex) \<le> ex_workers ex)) (\<lambda>_.
     rbind (rassert (ex_searching ex \<noteq> 0)) (\<lambda>_.
       Inr (ex_searching ex, ex\<lparr>ex_searching := ex_searching ex - 1\<rparr>)))"

text \<open>\<open>notify\<close> up to the exchange: whether the caller now counts as searching.\<close>

definition notify_claim :: "executor \<Rightarrow> (bool \<times> executor) res" where
  "notify_claim ex =
     (if \<not> iq_pending (ex_idle ex) then Inr (False, ex)
      else rbind (rassert (unat (ex_searching ex) \<le> ex_workers ex)) (\<lambda>_.
        if 0 < ex_searching ex then Inr (False, ex)
        else Inr (True, ex\<lparr>ex_searching := 1\<rparr>)))"

text \<open>The load of \<open>search_begin\<close>: whether the caller goes on to \<open>searching_add\<close>.\<close>

definition search_wanted :: "executor \<Rightarrow> bool res" where
  "search_wanted ex =
     rbind (rassert (unat (ex_searching ex) \<le> ex_workers ex)) (\<lambda>_.
       Inr (2 * unat (ex_searching ex) < ex_workers ex))"

definition search_begin :: "executor \<Rightarrow> (bool \<times> executor) res" where
  "search_begin ex =
     rbind (search_wanted ex) (\<lambda>wanted.
       if wanted then rbind (searching_add ex) (\<lambda>ex'. Inr (True, ex')) else Inr (False, ex))"

text \<open>\<open>search_discovered\<close>: the result is whether it calls \<open>notify\<close>.\<close>

definition search_discovered :: "executor \<Rightarrow> (bool \<times> executor) res" where
  "search_discovered ex = rbind (searching_sub ex) (\<lambda>(searching, ex'). Inr (searching = 1, ex'))"

text \<open>
  \<open>search_failed\<close>: the push, and the rest; \<open>pending\<close> is whether the injector holds tasks.
\<close>

definition search_failed_push :: "nat \<Rightarrow> executor \<Rightarrow> executor res" where
  "search_failed_push worker ex =
     rbind (rassert (worker \<le> ex_workers ex)) (\<lambda>_. Inr (set_idle (idle_push worker (ex_idle ex)) ex))"

definition search_failed :: "bool \<Rightarrow> nat \<Rightarrow> bool \<Rightarrow> executor \<Rightarrow> (bool \<times> executor) res" where
  "search_failed pending worker was_searching ex =
     rbind (search_failed_push worker ex) (\<lambda>ex1.
       if was_searching
       then rbind (searching_sub ex1) (\<lambda>(searching, ex2). Inr (searching = 1 \<and> pending, ex2))
       else Inr (False, ex1))"

definition search_pop :: "executor \<Rightarrow> (nat option \<times> executor) res" where
  "search_pop ex = rbind (idle_pop (ex_idle ex)) (\<lambda>(w, q). Inr (w, set_idle q ex))"

definition search_retry :: "executor \<Rightarrow> (nat option \<times> executor) res" where
  "search_retry ex =
     rbind (search_pop ex) (\<lambda>(w, ex1).
       case w of
         None \<Rightarrow> Inr (None, ex1)
       | Some i \<Rightarrow> rbind (searching_add ex1) (\<lambda>ex2. Inr (Some i, ex2)))"

end
