(* ===== verification/Config.thy ===== *)
theory Config
  imports Prelude
begin

text \<open>
  \<open>src/src/runtime/internal/config.rs\<close> and \<open>src/src/runtime/builder.rs\<close>: the configuration of
  a runtime and the builder that completes it. Callbacks are values of a type \<open>'c\<close>; the
  number of processors, from the \<open>num_cpus\<close> crate, is an argument of \<open>builder_build\<close>.
\<close>

record 'c config =
  cf_keep_alive :: "nat option"
  cf_stack_size :: "nat option"
  cf_worker_threads :: "nat option"
  cf_blocking_threads :: "nat option"
  cf_on_thread_start :: "'c option"
  cf_on_thread_stop :: "'c option"
  cf_on_thread_park :: "'c option"
  cf_on_thread_unpark :: "'c option"
  cf_on_thread_name :: "string option"

definition config_default :: "'c config" where
  "config_default = \<lparr>cf_keep_alive = None, cf_stack_size = None, cf_worker_threads = None,
     cf_blocking_threads = None, cf_on_thread_start = None, cf_on_thread_stop = None,
     cf_on_thread_park = None, cf_on_thread_unpark = None, cf_on_thread_name = None\<rparr>"

definition nonzero :: "nat \<Rightarrow> nat option" where
  "nonzero n = (if n = 0 then None else Some n)"

definition usize_add :: "nat \<Rightarrow> nat \<Rightarrow> nat res" where
  "usize_add a b = (if a + b < 2 ^ 64 then Inr (a + b) else Inl Arithmetic_Overflow)"

definition max_threads :: "'c config \<Rightarrow> nat option res" where
  "max_threads cf =
     (case cf_worker_threads cf of
        None \<Rightarrow> Inr None
      | Some workers \<Rightarrow>
          rbind (case cf_blocking_threads cf of
                   None \<Rightarrow> Inr workers
                 | Some blocking \<Rightarrow> usize_add workers blocking) (\<lambda>n. Inr (nonzero n)))"

subsection \<open>The builder\<close>

definition worker_threads :: "nat \<Rightarrow> 'c config \<Rightarrow> 'c config" where
  "worker_threads n cf = cf\<lparr>cf_worker_threads := nonzero n\<rparr>"

definition max_blocking_threads :: "nat \<Rightarrow> 'c config \<Rightarrow> 'c config" where
  "max_blocking_threads n cf = cf\<lparr>cf_blocking_threads := nonzero n\<rparr>"

definition thread_stack_size :: "nat \<Rightarrow> 'c config \<Rightarrow> 'c config" where
  "thread_stack_size n cf = cf\<lparr>cf_stack_size := nonzero n\<rparr>"

definition thread_keep_alive :: "nat \<Rightarrow> 'c config \<Rightarrow> 'c config" where
  "thread_keep_alive d cf = cf\<lparr>cf_keep_alive := Some d\<rparr>"

definition on_thread_park :: "'c \<Rightarrow> 'c config \<Rightarrow> 'c config" where
  "on_thread_park c cf = cf\<lparr>cf_on_thread_park := Some c\<rparr>"

definition on_thread_unpark :: "'c \<Rightarrow> 'c config \<Rightarrow> 'c config" where
  "on_thread_unpark c cf = cf\<lparr>cf_on_thread_unpark := Some c\<rparr>"

definition on_thread_start :: "'c \<Rightarrow> 'c config \<Rightarrow> 'c config" where
  "on_thread_start c cf = cf\<lparr>cf_on_thread_start := Some c\<rparr>"

definition on_thread_stop :: "'c \<Rightarrow> 'c config \<Rightarrow> 'c config" where
  "on_thread_stop c cf = cf\<lparr>cf_on_thread_stop := Some c\<rparr>"

definition thread_name :: "string \<Rightarrow> 'c config \<Rightarrow> 'c config" where
  "thread_name name cf = cf\<lparr>cf_on_thread_name := Some name\<rparr>"

definition or_else :: "'a option \<Rightarrow> 'a option \<Rightarrow> 'a option" where
  "or_else a b = (case a of Some x \<Rightarrow> Some x | None \<Rightarrow> b)"

text \<open>The configuration \<open>build\<close> passes to \<open>Runtime::from\<close>; durations are in nanoseconds.\<close>

definition builder_build :: "nat \<Rightarrow> 'c config \<Rightarrow> 'c config" where
  "builder_build num_cpus cf =
     \<lparr>cf_keep_alive = or_else (cf_keep_alive cf) (Some 10000000000),
      cf_stack_size = or_else (cf_stack_size cf) (nonzero (2 * 1024 * 1024)),
      cf_worker_threads = or_else (cf_worker_threads cf) (nonzero num_cpus),
      cf_blocking_threads = or_else (cf_blocking_threads cf) (nonzero 512),
      cf_on_thread_start = cf_on_thread_start cf, cf_on_thread_stop = cf_on_thread_stop cf,
      cf_on_thread_park = cf_on_thread_park cf, cf_on_thread_unpark = cf_on_thread_unpark cf,
      cf_on_thread_name = or_else (cf_on_thread_name cf) (Some ''yaar-runtime-worker'')\<rparr>"

lemma or_else_simps [simp]: "or_else (Some x) b = Some x" "or_else None b = b"
  by (simp_all add: or_else_def)

end
