(* ===== verification/Thread_Pool.thy ===== *)
theory Thread_Pool
  imports Config Parker
begin

text \<open>
  \<open>src/src/runtime/internal/thread_pool.rs\<close>: the threads a runtime has started and the parkers
  of those that wait for a worker. Parkers are named by the threads they belong to.
\<close>

record thread_pool =
  tp_max :: nat
  tp_running :: bool
  tp_pending :: usize
  tp_spawned :: nat
  tp_idle :: "nat list"

definition pool_from :: "'c config \<Rightarrow> thread_pool res" where
  "pool_from cf =
     rbind (max_threads cf) (\<lambda>m. rbind (unwrap m) (\<lambda>max.
       Inr \<lparr>tp_max = max, tp_running = True, tp_pending = 0, tp_spawned = 0, tp_idle = []\<rparr>))"

text \<open>
  One iteration of the loop of \<open>spawn\<close>, under the lock: give up, unpark the first idle
  thread, or start a new one, which is counted here.
\<close>

datatype spawn_step = Spawn_Err | Spawn_Unpark nat | Spawn_Thread

definition spawn_step :: "thread_pool \<Rightarrow> (spawn_step \<times> thread_pool) res" where
  "spawn_step tp =
     (if \<not> tp_running tp then Inr (Spawn_Err, tp)
      else if 0 < length (tp_idle tp)
      then rbind (swap_remove (tp_idle tp) 0) (\<lambda>(parker, rest).
             Inr (Spawn_Unpark parker, tp\<lparr>tp_idle := rest\<rparr>))
      else rbind (rassert (tp_spawned tp \<le> tp_max tp)) (\<lambda>_.
        if tp_spawned tp = tp_max tp then Inr (Spawn_Err, tp)
        else Inr (Spawn_Thread, tp\<lparr>tp_spawned := tp_spawned tp + 1\<rparr>)))"

definition pool_finish :: "thread_pool \<Rightarrow> thread_pool res" where
  "pool_finish tp =
     rbind (rassert (tp_spawned tp \<le> tp_max tp)) (\<lambda>_.
     rbind (rassert (tp_spawned tp \<noteq> 0)) (\<lambda>_.
       Inr (tp\<lparr>tp_spawned := tp_spawned tp - 1\<rparr>)))"

text \<open>
  The parts of \<open>wait\<close> on the pool: listing the parker, and taking it off the list when
  the thread woke up without a worker.
\<close>

definition pool_list :: "nat \<Rightarrow> thread_pool \<Rightarrow> thread_pool" where
  "pool_list parker tp = tp\<lparr>tp_idle := tp_idle tp @ [parker]\<rparr>"

definition pool_unlist :: "nat \<Rightarrow> thread_pool \<Rightarrow> thread_pool" where
  "pool_unlist parker tp = tp\<lparr>tp_idle := swap_remove_first parker (tp_idle tp)\<rparr>"

text \<open>\<open>shutdown\<close> returns the parkers it must unpark, each with \<open>unpark None\<close>.\<close>

definition pool_shutdown :: "thread_pool \<Rightarrow> nat list \<times> thread_pool" where
  "pool_shutdown tp =
     (if \<not> tp_running tp then ([], tp)
      else (tp_idle tp, tp\<lparr>tp_idle := [], tp_running := False\<rparr>))"

definition task_begin :: "thread_pool \<Rightarrow> thread_pool res" where
  "task_begin tp =
     rbind (rassert (tp_pending tp \<noteq> - 1)) (\<lambda>_. Inr (tp\<lparr>tp_pending := tp_pending tp + 1\<rparr>))"

definition task_complete :: "thread_pool \<Rightarrow> (nat list \<times> thread_pool) res" where
  "task_complete tp =
     (let pending = tp_pending tp; tp1 = tp\<lparr>tp_pending := pending - 1\<rparr>
      in rbind (rassert (pending \<noteq> 0)) (\<lambda>_.
           Inr (if pending = 0 then pool_shutdown tp1 else ([], tp1))))"

end
