(* ===== verification/Scheduler.thy ===== *)
theory Scheduler
  imports Executor Thread_Pool
begin

text \<open>
  \<open>src/src/runtime/internal/worker.rs\<close> with the executor and the thread pool: how threads
  take workers and give them back. A worker is an index and the producer end of its run
  queue; the machine interleaves any number of threads, each of which may also be notifying
  another one. Producers are named by the worker they were created for.
\<close>

subsection \<open>Threads\<close>

text \<open>
  Where a thread is: not in the runtime; in \<open>block_on\<close> without a worker; holding an index
  that \<open>search_retry\<close> popped and has not yet counted, or that it is about to run; running a
  worker, between the load and the addition of \<open>search_begin\<close>, before the subtraction of
  \<open>search_discovered\<close>; in \<open>search_failed\<close> before the push and before the subtraction; and in
  \<open>wait\<close>, listed as idle, parked, or about to take itself off the list.
\<close>

datatype thread_pc =
    Th_Out
  | Th_Top
  | Th_Retry nat
  | Th_Got nat
  | Th_Run
  | Th_Begin
  | Th_Disc
  | Th_Push nat bool
  | Th_Sub
  | Th_Listed
  | Th_Parked bool
  | Th_Unlist

text \<open>
  Where a call of \<open>notify\<close> is: not running; counted as searching; with a popped index about
  to spawn, to unpark a thread, to start one, or to push the index back; and before the
  last subtraction.
\<close>

datatype notify_pc =
    Nt_None
  | Nt_Claimed
  | Nt_Popped nat
  | Nt_Unpark nat nat
  | Nt_Spawn nat
  | Nt_Push nat
  | Nt_Sub

record worker_thread =
  wt_pc :: thread_pc
  wt_worker :: "nat option"
  wt_producer :: "nat option"
  wt_searching :: bool
  wt_park :: "nat park_state"
  wt_notify :: notify_pc
  wt_pool :: bool

definition thread_new :: "thread_pc \<Rightarrow> bool \<Rightarrow> worker_thread" where
  "thread_new pc pool = \<lparr>wt_pc = pc, wt_worker = None, wt_producer = None, wt_searching = False,
     wt_park = Park_Empty, wt_notify = Nt_None, wt_pool = pool\<rparr>"

text \<open>
  \<open>Queue::swap_producer\<close> on the run queue of a worker. Its \<open>try_lock\<close> fails only when two
  threads swap the producer of one worker at the same time; a thread swaps only for the index
  it owns, and an index has one owner (\<open>worker_has_one_owner\<close>), so the swap is one step.
\<close>

definition swap_producer :: "nat \<Rightarrow> nat option \<Rightarrow> nat option list \<Rightarrow> (nat option \<times> nat option list) res" where
  "swap_producer i new queues =
     rbind (index queues i) (\<lambda>old. Inr (old, queues[i := new]))"

definition transition_to_running :: "nat \<Rightarrow> worker_thread \<Rightarrow> nat option list \<Rightarrow>
    (worker_thread \<times> nat option list) res" where
  "transition_to_running i th queues =
     rbind (rassert (wt_worker th = None)) (\<lambda>_.
     rbind (rassert (\<not> wt_searching th)) (\<lambda>_.
     rbind (swap_producer i None queues) (\<lambda>(taken, queues').
     rbind (unwrap taken) (\<lambda>producer.
       if wt_producer th \<noteq> None then Inl Unreachable
       else Inr (th\<lparr>wt_worker := Some i, wt_searching := True, wt_producer := Some producer,
                    wt_pc := Th_Run\<rparr>, queues')))))"

text \<open>\<open>transition_to_idle\<close> up to the call of \<open>search_failed\<close>.\<close>

definition transition_to_idle :: "nat \<Rightarrow> worker_thread \<Rightarrow> nat option list \<Rightarrow>
    (worker_thread \<times> nat option list) res" where
  "transition_to_idle i th queues =
     rbind (unwrap (wt_producer th)) (\<lambda>producer.
     rbind (swap_producer i (Some producer) queues) (\<lambda>(old, queues').
       if old \<noteq> None then Inl Unreachable
       else rbind (rassert (wt_worker th = Some i)) (\<lambda>_.
         Inr (th\<lparr>wt_producer := None, wt_worker := None, wt_searching := False,
                 wt_pc := Th_Push i (wt_searching th)\<rparr>, queues'))))"

text \<open>What a thread does with the result of \<open>poll_unparked\<close> or \<open>park\<close> in \<open>wait\<close>.\<close>

definition wait_result :: "nat option \<Rightarrow> thread_pc \<Rightarrow> worker_thread \<Rightarrow> worker_thread" where
  "wait_result w otherwise th =
     th\<lparr>wt_park := Park_Empty, wt_pc := (case w of Some i \<Rightarrow> Th_Got i | None \<Rightarrow> otherwise)\<rparr>"

subsection \<open>The machine\<close>

text \<open>
  What the futures, run queues, timers and the network decide is left open: a thread in the
  loop of \<open>poll\<close> without a worker may call \<open>search_retry\<close>, \<open>wait\<close> or leave, a running one may
  begin to search, find a task or give its worker back, whatever those answer. The
  machine so has every schedule of the code.
\<close>

record scheduler =
  sd_exec :: executor
  sd_pool :: thread_pool
  sd_queues :: "nat option list"
  sd_threads :: "worker_thread list"

definition scheduler_start :: "nat \<Rightarrow> nat \<Rightarrow> scheduler" where
  "scheduler_start workers limit =
     \<lparr>sd_exec = executor_from workers,
      sd_pool = \<lparr>tp_max = limit, tp_running = True, tp_pending = 0, tp_spawned = 0, tp_idle = []\<rparr>,
      sd_queues = map Some [0..<workers], sd_threads = []\<rparr>"

datatype sched_action =
    Enter
  | Leave nat
  | Retry_Pop nat
  | Retry_Add nat
  | Take nat
  | Search_Load nat
  | Search_Add nat
  | Discovered nat
  | Discovered_Sub nat
  | Give nat
  | Failed_Push nat
  | Failed_Sub nat
  | Wait_List nat
  | Wait_Park nat bool
  | Wait_Return nat
  | Wait_Unlist nat
  | Wake_Thread nat
  | Notify_Claim nat
  | Notify_Pop nat
  | Notify_Spawn nat
  | Notify_Unpark nat
  | Notify_Thread nat bool
  | Notify_Push nat
  | Notify_Sub nat
  | Pool_Shutdown

definition put_thread :: "nat \<Rightarrow> worker_thread \<Rightarrow> scheduler \<Rightarrow> scheduler" where
  "put_thread t th s = s\<lparr>sd_threads := (sd_threads s)[t := th]\<rparr>"

definition put_exec :: "executor \<Rightarrow> scheduler \<Rightarrow> scheduler" where
  "put_exec ex s = s\<lparr>sd_exec := ex\<rparr>"

definition put_pool :: "thread_pool \<Rightarrow> scheduler \<Rightarrow> scheduler" where
  "put_pool tp s = s\<lparr>sd_pool := tp\<rparr>"

definition put_queues :: "nat option list \<Rightarrow> scheduler \<Rightarrow> scheduler" where
  "put_queues qs s = s\<lparr>sd_queues := qs\<rparr>"

text \<open>The steps of a thread in the runtime.\<close>

fun thread_step :: "sched_action \<Rightarrow> nat \<Rightarrow> worker_thread \<Rightarrow> scheduler \<Rightarrow> scheduler res option" where
  "thread_step (Leave _) t th s =
     (if wt_pc th = Th_Top
      then Some (rbind (if wt_pool th then pool_finish (sd_pool s) else Inr (sd_pool s)) (\<lambda>tp.
             Inr (put_pool tp (put_thread t (th\<lparr>wt_pc := Th_Out\<rparr>) s))))
      else None)"
| "thread_step (Retry_Pop _) t th s =
     (if wt_pc th = Th_Top
      then Some (rbind (search_pop (sd_exec s)) (\<lambda>(w, ex).
             Inr (put_exec ex (put_thread t
               (th\<lparr>wt_pc := case w of Some i \<Rightarrow> Th_Retry i | None \<Rightarrow> Th_Top\<rparr>) s))))
      else None)"
| "thread_step (Retry_Add _) t th s =
     (case wt_pc th of
        Th_Retry i \<Rightarrow>
          Some (rbind (searching_add (sd_exec s)) (\<lambda>ex.
            Inr (put_exec ex (put_thread t (th\<lparr>wt_pc := Th_Got i\<rparr>) s))))
      | _ \<Rightarrow> None)"
| "thread_step (Take _) t th s =
     (case wt_pc th of
        Th_Got i \<Rightarrow>
          Some (rbind (transition_to_running i th (sd_queues s)) (\<lambda>(th', qs).
            Inr (put_queues qs (put_thread t th' s))))
      | _ \<Rightarrow> None)"
| "thread_step (Search_Load _) t th s =
     (if wt_pc th = Th_Run \<and> \<not> wt_searching th
      then Some (rbind (search_wanted (sd_exec s)) (\<lambda>wanted.
             Inr (put_thread t (th\<lparr>wt_pc := if wanted then Th_Begin else Th_Run\<rparr>) s)))
      else None)"
| "thread_step (Search_Add _) t th s =
     (if wt_pc th = Th_Begin
      then Some (rbind (searching_add (sd_exec s)) (\<lambda>ex.
             Inr (put_exec ex (put_thread t (th\<lparr>wt_pc := Th_Run, wt_searching := True\<rparr>) s))))
      else None)"
| "thread_step (Discovered _) t th s =
     (if wt_pc th = Th_Run \<and> wt_searching th
      then Some (Inr (put_thread t (th\<lparr>wt_pc := Th_Disc, wt_searching := False\<rparr>) s))
      else None)"
| "thread_step (Discovered_Sub _) t th s =
     (if wt_pc th = Th_Disc
      then Some (rbind (searching_sub (sd_exec s)) (\<lambda>(old, ex).
             Inr (put_exec ex (put_thread t (th\<lparr>wt_pc := Th_Run\<rparr>) s))))
      else None)"
| "thread_step (Give _) t th s =
     (case (wt_pc th, wt_worker th) of
        (Th_Run, Some i) \<Rightarrow>
          Some (rbind (transition_to_idle i th (sd_queues s)) (\<lambda>(th', qs).
            Inr (put_queues qs (put_thread t th' s))))
      | _ \<Rightarrow> None)"
| "thread_step (Failed_Push _) t th s =
     (case wt_pc th of
        Th_Push i was_searching \<Rightarrow>
          Some (rbind (search_failed_push i (sd_exec s)) (\<lambda>ex.
            Inr (put_exec ex (put_thread t
              (th\<lparr>wt_pc := if was_searching then Th_Sub else Th_Top\<rparr>) s))))
      | _ \<Rightarrow> None)"
| "thread_step (Failed_Sub _) t th s =
     (if wt_pc th = Th_Sub
      then Some (rbind (searching_sub (sd_exec s)) (\<lambda>(old, ex).
             Inr (put_exec ex (put_thread t (th\<lparr>wt_pc := Th_Top\<rparr>) s))))
      else None)"
| "thread_step (Wait_List _) t th s =
     (if wt_pc th = Th_Top
      then Some (Inr (case notified_index (wt_park th) of
             Some w \<Rightarrow> put_thread t (wait_result w Th_Top th) s
           | None \<Rightarrow> put_pool (pool_list t (sd_pool s)) (put_thread t (th\<lparr>wt_pc := Th_Listed\<rparr>) s)))
      else None)"
| "thread_step (Wait_Park _ is_polling) t th s =
     (if wt_pc th = Th_Listed
      then Some (
        if wt_park th = Park_Empty
        then Inr (put_thread t (th\<lparr>wt_park := wait_state is_polling, wt_pc := Th_Parked is_polling\<rparr>) s)
        else rbind (unwrap (notified_index (wt_park th))) (\<lambda>w.
               Inr (put_thread t (wait_result w Th_Unlist th) s)))
      else None)"
| "thread_step (Wait_Return _) t th s =
     (case wt_pc th of
        Th_Parked is_polling \<Rightarrow>
          Some (
            if wt_park th = wait_state is_polling
            then Inr (put_thread t (wait_result None Th_Unlist th) s)
            else rbind (unwrap (notified_index (wt_park th))) (\<lambda>w.
                   Inr (put_thread t (wait_result w Th_Unlist th) s)))
      | _ \<Rightarrow> None)"
| "thread_step (Wait_Unlist _) t th s =
     (if wt_pc th = Th_Unlist
      then Some (Inr (put_pool (pool_unlist t (sd_pool s)) (put_thread t (th\<lparr>wt_pc := Th_Top\<rparr>) s)))
      else None)"
| "thread_step (Wake_Thread _) t th s =
     (let (r, wake, st) = unpark_result None (wt_park th)
      in Some (Inr (put_thread t (th\<lparr>wt_park := st\<rparr>) s)))"
| "thread_step a t th s = None"

text \<open>The steps of a call of \<open>notify\<close>.\<close>

fun notify_step :: "sched_action \<Rightarrow> nat \<Rightarrow> worker_thread \<Rightarrow> scheduler \<Rightarrow> scheduler res option" where
  "notify_step (Notify_Claim _) t th s =
     (if wt_notify th = Nt_None
      then Some (rbind (notify_claim (sd_exec s)) (\<lambda>(claimed, ex).
             Inr (put_exec ex (put_thread t
               (th\<lparr>wt_notify := if claimed then Nt_Claimed else Nt_None\<rparr>) s))))
      else None)"
| "notify_step (Notify_Pop _) t th s =
     (if wt_notify th = Nt_Claimed
      then Some (rbind (search_pop (sd_exec s)) (\<lambda>(w, ex).
             Inr (put_exec ex (put_thread t
               (th\<lparr>wt_notify := case w of Some i \<Rightarrow> Nt_Popped i | None \<Rightarrow> Nt_Sub\<rparr>) s))))
      else None)"
| "notify_step (Notify_Spawn _) t th s =
     (case wt_notify th of
        Nt_Popped i \<Rightarrow>
          Some (rbind (spawn_step (sd_pool s)) (\<lambda>(next, tp).
            Inr (put_pool tp (put_thread t
              (th\<lparr>wt_notify := case next of
                    Spawn_Err \<Rightarrow> Nt_Push i
                  | Spawn_Unpark p \<Rightarrow> Nt_Unpark i p
                  | Spawn_Thread \<Rightarrow> Nt_Spawn i\<rparr>) s))))
      | _ \<Rightarrow> None)"
| "notify_step (Notify_Unpark _) t th s =
     (case wt_notify th of
        Nt_Unpark i p \<Rightarrow>
          if p < length (sd_threads s)
          then
            let (woken, wake, st) = unpark_result (Some i) (wt_park (sd_threads s ! p));
                s1 = put_thread t (th\<lparr>wt_notify := if woken then Nt_None else Nt_Popped i\<rparr>) s
            in Some (Inr (put_thread p ((sd_threads s1 ! p)\<lparr>wt_park := st\<rparr>) s1))
          else None
      | _ \<Rightarrow> None)"
| "notify_step (Notify_Thread _ started) t th s =
     (case wt_notify th of
        Nt_Spawn i \<Rightarrow>
          if started
          then Some (Inr (let s1 = put_thread t (th\<lparr>wt_notify := Nt_None\<rparr>) s
                          in s1\<lparr>sd_threads := sd_threads s1 @ [thread_new (Th_Got i) True]\<rparr>))
          else Some (rbind (pool_finish (sd_pool s)) (\<lambda>tp.
                 Inr (put_pool tp (put_thread t (th\<lparr>wt_notify := Nt_Push i\<rparr>) s))))
      | _ \<Rightarrow> None)"
| "notify_step (Notify_Push _) t th s =
     (case wt_notify th of
        Nt_Push i \<Rightarrow>
          Some (Inr (put_exec (set_idle (idle_push i (ex_idle (sd_exec s))) (sd_exec s))
            (put_thread t (th\<lparr>wt_notify := Nt_Sub\<rparr>) s)))
      | _ \<Rightarrow> None)"
| "notify_step (Notify_Sub _) t th s =
     (if wt_notify th = Nt_Sub
      then Some (rbind (searching_sub (sd_exec s)) (\<lambda>(old, ex).
             Inr (put_exec ex (put_thread t (th\<lparr>wt_notify := Nt_None\<rparr>) s))))
      else None)"
| "notify_step a t th s = None"

fun action_thread :: "sched_action \<Rightarrow> nat" where
  "action_thread (Leave t) = t" | "action_thread (Retry_Pop t) = t"
| "action_thread (Retry_Add t) = t" | "action_thread (Take t) = t"
| "action_thread (Search_Load t) = t" | "action_thread (Search_Add t) = t"
| "action_thread (Discovered t) = t" | "action_thread (Discovered_Sub t) = t"
| "action_thread (Give t) = t" | "action_thread (Failed_Push t) = t"
| "action_thread (Failed_Sub t) = t" | "action_thread (Wait_List t) = t"
| "action_thread (Wait_Park t _) = t" | "action_thread (Wait_Return t) = t"
| "action_thread (Wait_Unlist t) = t" | "action_thread (Wake_Thread t) = t"
| "action_thread (Notify_Claim t) = t" | "action_thread (Notify_Pop t) = t"
| "action_thread (Notify_Spawn t) = t" | "action_thread (Notify_Unpark t) = t"
| "action_thread (Notify_Thread t _) = t" | "action_thread (Notify_Push t) = t"
| "action_thread (Notify_Sub t) = t" | "action_thread _ = 0"

fun is_notify :: "sched_action \<Rightarrow> bool" where
  "is_notify (Notify_Claim _) = True" | "is_notify (Notify_Pop _) = True"
| "is_notify (Notify_Spawn _) = True" | "is_notify (Notify_Unpark _) = True"
| "is_notify (Notify_Thread _ _) = True" | "is_notify (Notify_Push _) = True"
| "is_notify (Notify_Sub _) = True" | "is_notify _ = False"

definition sched_step :: "sched_action \<Rightarrow> scheduler \<Rightarrow> scheduler res option" where
  "sched_step a s =
     (if a = Enter then Some (Inr (s\<lparr>sd_threads := sd_threads s @ [thread_new Th_Top False]\<rparr>))
      else if a = Pool_Shutdown then Some (Inr (put_pool (snd (pool_shutdown (sd_pool s))) s))
      else
        let t = action_thread a
        in if t < length (sd_threads s)
           then (if is_notify a then notify_step a t (sd_threads s ! t) s
                 else thread_step a t (sd_threads s ! t) s)
           else None)"

end
