(* ===== verification/Scheduler_Proofs.thy ===== *)
theory Scheduler_Proofs
  imports Scheduler
begin

text \<open>
  The invariant of the scheduler: every worker index has exactly one holder, a thread that
  runs a worker owns its producer, and the searching and spawned counts count what they
  should.
\<close>

subsection \<open>What a thread holds\<close>

fun pc_tokens :: "thread_pc \<Rightarrow> nat multiset" where
  "pc_tokens (Th_Retry i) = {#i#}"
| "pc_tokens (Th_Got i) = {#i#}"
| "pc_tokens (Th_Push i b) = {#i#}"
| "pc_tokens _ = {#}"

fun notify_tokens :: "notify_pc \<Rightarrow> nat multiset" where
  "notify_tokens (Nt_Popped i) = {#i#}"
| "notify_tokens (Nt_Unpark i p) = {#i#}"
| "notify_tokens (Nt_Spawn i) = {#i#}"
| "notify_tokens (Nt_Push i) = {#i#}"
| "notify_tokens _ = {#}"

fun option_tokens :: "nat option \<Rightarrow> nat multiset" where
  "option_tokens (Some i) = {#i#}"
| "option_tokens None = {#}"

fun park_tokens :: "nat park_state \<Rightarrow> nat multiset" where
  "park_tokens (Park_Notified w) = option_tokens w"
| "park_tokens st = {#}"

definition held :: "worker_thread \<Rightarrow> nat multiset" where
  "held th = pc_tokens (wt_pc th) + notify_tokens (wt_notify th) + park_tokens (wt_park th)"

definition runs :: "worker_thread \<Rightarrow> nat multiset" where
  "runs th = option_tokens (wt_worker th)"

text \<open>How often a thread is counted as searching, or as spawned.\<close>

fun pc_weight :: "thread_pc \<Rightarrow> bool \<Rightarrow> nat" where
  "pc_weight (Th_Got i) b = 1"
| "pc_weight Th_Run b = of_bool b"
| "pc_weight Th_Disc b = 1"
| "pc_weight (Th_Push i was_searching) b = of_bool was_searching"
| "pc_weight Th_Sub b = 1"
| "pc_weight _ b = 0"

definition weight :: "worker_thread \<Rightarrow> nat" where
  "weight th = pc_weight (wt_pc th) (wt_searching th) + of_bool (wt_notify th \<noteq> Nt_None) +
     size (park_tokens (wt_park th))"

definition spawn_weight :: "worker_thread \<Rightarrow> nat" where
  "spawn_weight th = of_bool (wt_pool th \<and> wt_pc th \<noteq> Th_Out) +
     (case wt_notify th of Nt_Spawn i \<Rightarrow> 1 | _ \<Rightarrow> 0)"

definition runs_worker :: "thread_pc \<Rightarrow> bool" where
  "runs_worker pc \<longleftrightarrow> pc = Th_Run \<or> pc = Th_Begin \<or> pc = Th_Disc"

fun park_ok :: "thread_pc \<Rightarrow> nat park_state \<Rightarrow> bool" where
  "park_ok (Th_Parked b) st = (st = wait_state b \<or> notified st)"
| "park_ok pc st = (st = Park_Empty \<or> st = Park_Notified None)"

definition thread_ok :: "worker_thread \<Rightarrow> bool" where
  "thread_ok th \<longleftrightarrow>
     wt_producer th = wt_worker th \<and> (wt_worker th \<noteq> None \<longleftrightarrow> runs_worker (wt_pc th)) \<and>
     (wt_searching th \<longrightarrow> wt_pc th = Th_Run) \<and> park_ok (wt_pc th) (wt_park th)"

fun unpark_target_ok :: "nat \<Rightarrow> notify_pc \<Rightarrow> bool" where
  "unpark_target_ok n (Nt_Unpark i p) = (p < n)"
| "unpark_target_ok n _ = True"

subsection \<open>The invariant\<close>

definition sched_inv :: "nat \<Rightarrow> nat \<Rightarrow> scheduler \<Rightarrow> bool" where
  "sched_inv N M s \<longleftrightarrow>
     ex_workers (sd_exec s) = N \<and> tp_max (sd_pool s) = M \<and>
     (\<forall>th \<in> set (sd_threads s). thread_ok th) \<and>
     mset (iq_indices (ex_idle (sd_exec s))) + tally held (sd_threads s) + tally runs (sd_threads s) =
       mset [0..<N] \<and>
     sd_queues s = map (\<lambda>i. if i \<in># tally runs (sd_threads s) then None else Some i) [0..<N] \<and>
     unat (ex_searching (sd_exec s)) = tally weight (sd_threads s) \<and> tally weight (sd_threads s) \<le> N \<and>
     tp_spawned (sd_pool s) = tally spawn_weight (sd_threads s) \<and> tp_spawned (sd_pool s) \<le> M"

lemma sched_inv_start: "sched_inv N M (scheduler_start N M)"
  by (simp add: sched_inv_def scheduler_start_def executor_from_def idle_from_def map_idI)

lemma put_simps [simp]:
  "sd_threads (put_thread t th s) = (sd_threads s)[t := th]"
  "sd_exec (put_thread t th s) = sd_exec s" "sd_pool (put_thread t th s) = sd_pool s"
  "sd_queues (put_thread t th s) = sd_queues s"
  "sd_threads (put_exec ex s) = sd_threads s" "sd_exec (put_exec ex s) = ex"
  "sd_pool (put_exec ex s) = sd_pool s" "sd_queues (put_exec ex s) = sd_queues s"
  "sd_threads (put_pool tp s) = sd_threads s" "sd_exec (put_pool tp s) = sd_exec s"
  "sd_pool (put_pool tp s) = tp" "sd_queues (put_pool tp s) = sd_queues s"
  "sd_threads (put_queues qs s) = sd_threads s" "sd_exec (put_queues qs s) = sd_exec s"
  "sd_pool (put_queues qs s) = sd_pool s" "sd_queues (put_queues qs s) = qs"
  by (simp_all add: put_thread_def put_exec_def put_pool_def put_queues_def)

lemma sched_thread_ok: "sched_inv N M s \<Longrightarrow> t < length (sd_threads s) \<Longrightarrow> thread_ok (sd_threads s ! t)"
  by (simp add: sched_inv_def)

text \<open>
  While a step moves an index from one thread to another, the index and its counts are with
  neither: the invariant with the indices \<open>X\<close>, the searching count \<open>w\<close> and the spawned count
  \<open>p\<close> in flight.
\<close>

definition sched_flow :: "nat \<Rightarrow> nat \<Rightarrow> nat multiset \<Rightarrow> nat \<Rightarrow> nat \<Rightarrow> scheduler \<Rightarrow> bool" where
  "sched_flow N M X w p s \<longleftrightarrow>
     ex_workers (sd_exec s) = N \<and> tp_max (sd_pool s) = M \<and>
     (\<forall>th \<in> set (sd_threads s). thread_ok th) \<and>
     mset (iq_indices (ex_idle (sd_exec s))) + tally held (sd_threads s) + tally runs (sd_threads s) + X =
       mset [0..<N] \<and>
     sd_queues s = map (\<lambda>i. if i \<in># tally runs (sd_threads s) then None else Some i) [0..<N] \<and>
     unat (ex_searching (sd_exec s)) = tally weight (sd_threads s) + w \<and>
     unat (ex_searching (sd_exec s)) \<le> N \<and>
     tp_spawned (sd_pool s) = tally spawn_weight (sd_threads s) + p \<and> tp_spawned (sd_pool s) \<le> M"

lemma sched_inv_flow: "sched_inv N M s \<longleftrightarrow> sched_flow N M {#} 0 0 s"
  by (auto simp: sched_inv_def sched_flow_def)

lemma sched_flow_thread:
  assumes inv: "sched_flow N M X w p s" and t: "t < length (sd_threads s)"
    and ok: "thread_ok th'" and ths: "sd_threads s' = (sd_threads s)[t := th']"
    and const: "ex_workers (sd_exec s') = N" "tp_max (sd_pool s') = M"
    and tok: "mset (iq_indices (ex_idle (sd_exec s'))) + (held th' + runs th') + X' =
      mset (iq_indices (ex_idle (sd_exec s))) + (held (sd_threads s ! t) + runs (sd_threads s ! t)) + X"
    and cnt: "unat (ex_searching (sd_exec s')) + weight (sd_threads s ! t) + w =
      unat (ex_searching (sd_exec s)) + weight th' + w'"
    and le: "unat (ex_searching (sd_exec s')) \<le> N"
    and sp: "tp_spawned (sd_pool s') + spawn_weight (sd_threads s ! t) + p =
      tp_spawned (sd_pool s) + spawn_weight th' + p'"
    and sple: "tp_spawned (sd_pool s') \<le> M"
    and que: "sd_queues s' = map (\<lambda>i. if i \<in># tally runs ((sd_threads s)[t := th']) then None else Some i) [0..<N]"
  shows "sched_flow N M X' w' p' s'"
proof -
  note u = tally_update [OF t, where x = th']
  let ?i = "mset (iq_indices (ex_idle (sd_exec s)))" and ?i' = "mset (iq_indices (ex_idle (sd_exec s')))"
  let ?T = "sd_threads s" and ?T' = "(sd_threads s)[t := th']"
  have all: "?i + (tally held ?T + tally runs ?T) + X = mset [0..<N]"
    and w: "unat (ex_searching (sd_exec s)) = tally weight ?T + w"
    and p: "tp_spawned (sd_pool s) = tally spawn_weight ?T + p"
    using inv by (simp_all add: sched_flow_def add.assoc)
  have "?i' + (tally held ?T' + tally runs ?T') + X' + (held (?T ! t) + runs (?T ! t)) =
      ?i' + ((tally held ?T' + held (?T ! t)) + (tally runs ?T' + runs (?T ! t))) + X'"
    by (simp only: ac_simps)
  also have "\<dots> = (?i' + (held th' + runs th') + X') + (tally held ?T + tally runs ?T)"
    unfolding u by (simp only: ac_simps)
  also have "\<dots> = (?i + (tally held ?T + tally runs ?T) + X) + (held (?T ! t) + runs (?T ! t))"
    unfolding tok by (simp only: ac_simps)
  finally have "?i' + (tally held ?T' + tally runs ?T') + X' = mset [0..<N]"
    unfolding all by (rule add_right_imp_eq)
  moreover have "unat (ex_searching (sd_exec s')) = tally weight ?T' + w'"
    using u [of weight] cnt w by linarith
  moreover have "tp_spawned (sd_pool s') = tally spawn_weight ?T' + p'"
    using u [of spawn_weight] sp p by linarith
  moreover have "\<forall>th \<in> set ?T'. thread_ok th"
    using inv ok set_update_subset_insert [of ?T t th'] by (auto simp: sched_flow_def)
  ultimately show ?thesis
    unfolding sched_flow_def ths using const le sple que by (simp add: add.assoc)
qed

text \<open>The common case: the worker of the thread stays as it is.\<close>

lemma sched_flow_local:
  assumes inv: "sched_flow N M X w p s" and t: "t < length (sd_threads s)"
    and ok: "thread_ok th'" and ths: "sd_threads s' = (sd_threads s)[t := th']"
    and const: "ex_workers (sd_exec s') = N" "tp_max (sd_pool s') = M"
    and r: "wt_worker th' = wt_worker (sd_threads s ! t)" and que: "sd_queues s' = sd_queues s"
    and tok: "mset (iq_indices (ex_idle (sd_exec s'))) + held th' + X' =
      mset (iq_indices (ex_idle (sd_exec s))) + held (sd_threads s ! t) + X"
    and cnt: "unat (ex_searching (sd_exec s')) + weight (sd_threads s ! t) + w =
      unat (ex_searching (sd_exec s)) + weight th' + w'"
    and le: "unat (ex_searching (sd_exec s')) \<le> N"
    and sp: "tp_spawned (sd_pool s') + spawn_weight (sd_threads s ! t) + p =
      tp_spawned (sd_pool s) + spawn_weight th' + p'"
    and sple: "tp_spawned (sd_pool s') \<le> M"
  shows "sched_flow N M X' w' p' s'"
proof (rule sched_flow_thread [OF inv t ok ths const _ cnt le sp sple])
  have "runs th' = runs (sd_threads s ! t)" using r by (simp add: runs_def)
  then show "mset (iq_indices (ex_idle (sd_exec s'))) + (held th' + runs th') + X' =
      mset (iq_indices (ex_idle (sd_exec s))) + (held (sd_threads s ! t) + runs (sd_threads s ! t)) + X"
    using arg_cong [OF tok, where f = "\<lambda>m. m + runs th'"] by (simp add: ac_simps)
  have "tally runs ((sd_threads s)[t := th']) = tally runs (sd_threads s)"
    using tally_update [OF t, where x = th' and f = runs] r by (simp add: runs_def)
  then show "sd_queues s' = map (\<lambda>i. if i \<in># tally runs ((sd_threads s)[t := th']) then None else Some i) [0..<N]"
    using inv que by (simp add: sched_flow_def)
qed

text \<open>A thread starts.\<close>

lemma sched_flow_append:
  assumes "sched_flow N M (held th + X) (weight th + w) (spawn_weight th + p) s"
    and "thread_ok th" "runs th = {#}"
  shows "sched_flow N M X w p (s\<lparr>sd_threads := sd_threads s @ [th]\<rparr>)"
  using assms by (simp add: sched_flow_def ac_simps)

lemmas sched_inv_thread = sched_flow_thread [where w = 0 and w' = 0 and p = 0 and p' = 0 and X = "{#}"
    and X' = "{#}", folded sched_inv_flow, unfolded add_0_right]

lemmas sched_inv_local = sched_flow_local [where w = 0 and w' = 0 and p = 0 and p' = 0 and X = "{#}"
    and X' = "{#}", folded sched_inv_flow, unfolded add_0_right]

subsection \<open>Consequences for one thread\<close>

lemma tally_member_le: "x \<in> set xs \<Longrightarrow> f x \<le> (tally f xs :: nat)"
  by (induction xs) auto

lemma sched_count:
  assumes "sched_inv N M s"
  shows "count (tally held (sd_threads s)) i + count (tally runs (sd_threads s)) i \<le> of_bool (i < N)"
proof -
  have "count (mset (iq_indices (ex_idle (sd_exec s))) + tally held (sd_threads s) +
      tally runs (sd_threads s)) i = count (mset [0..<N]) i"
    using assms by (simp add: sched_inv_def)
  moreover have "count (mset [0..<N]) i = of_bool (i < N)"
    by (simp add: distinct_count_atmost_1 [THEN iffD1])
  ultimately show ?thesis by simp
qed

lemma sched_held:
  assumes inv: "sched_inv N M s" and t: "t < length (sd_threads s)" and i: "i \<in># held (sd_threads s ! t)"
  shows "i < N" "i \<notin># tally runs (sd_threads s)" "sd_queues s ! i = Some i" "i < length (sd_queues s)"
proof -
  have "held (sd_threads s ! t) \<subseteq># tally held (sd_threads s)"
    using t by (intro tally_member_mset) simp
  then have "0 < count (tally held (sd_threads s)) i" using i mset_subset_eqD by fastforce
  then show l: "i < N" and r: "i \<notin># tally runs (sd_threads s)"
    using sched_count [OF inv, of i]
    by (cases "i < N"; simp add: not_in_iff del: count_greater_zero_iff)+
  then show "sd_queues s ! i = Some i" "i < length (sd_queues s)"
    using inv by (simp_all add: sched_inv_def)
qed

lemma sched_runs:
  assumes inv: "sched_inv N M s" and t: "t < length (sd_threads s)" and w: "wt_worker (sd_threads s ! t) = Some i"
  shows "i < N" "count (tally runs (sd_threads s)) i = 1" "sd_queues s ! i = None" "i < length (sd_queues s)"
proof -
  have "runs (sd_threads s ! t) \<subseteq># tally runs (sd_threads s)"
    using t by (intro tally_member_mset) simp
  then have c: "0 < count (tally runs (sd_threads s)) i"
    using w mset_subset_eqD by (fastforce simp: runs_def)
  then show l: "i < N" and "count (tally runs (sd_threads s)) i = 1"
    using sched_count [OF inv, of i]
    by (cases "i < N"; simp del: count_greater_zero_iff)+
  moreover have "i \<in># tally runs (sd_threads s)" using c by simp
  ultimately show "sd_queues s ! i = None" "i < length (sd_queues s)"
    using inv by (simp_all add: sched_inv_def)
qed

lemma sched_weight:
  assumes inv: "sched_inv N M s" and t: "t < length (sd_threads s)"
  shows "weight (sd_threads s ! t) \<le> unat (ex_searching (sd_exec s))" "unat (ex_searching (sd_exec s)) \<le> N"
    "spawn_weight (sd_threads s ! t) \<le> tp_spawned (sd_pool s)"
  using inv tally_member_le [of "sd_threads s ! t" "sd_threads s" weight]
    tally_member_le [of "sd_threads s ! t" "sd_threads s" spawn_weight] t
  by (simp_all add: sched_inv_def)

lemma searching_sub_ok:
  assumes "1 \<le> unat (ex_searching ex)" "unat (ex_searching ex) \<le> ex_workers ex"
  shows "searching_sub ex = Inr (ex_searching ex, ex\<lparr>ex_searching := ex_searching ex - 1\<rparr>)"
    "unat (ex_searching ex - 1) + 1 = unat (ex_searching ex)"
proof -
  have nz: "ex_searching ex \<noteq> 0" using assms(1) by auto
  then show "searching_sub ex = Inr (ex_searching ex, ex\<lparr>ex_searching := ex_searching ex - 1\<rparr>)"
    using assms(2) by (simp add: searching_sub_def)
  show "unat (ex_searching ex - 1) + 1 = unat (ex_searching ex)"
    using nz assms(1) unat_minus_one [OF nz] by simp
qed

lemma searching_add_ok:
  assumes "unat (ex_searching ex) < ex_workers ex" "ex_workers ex < 2 ^ 64"
  shows "searching_add ex = Inr (ex\<lparr>ex_searching := ex_searching ex + 1\<rparr>)"
    "unat (ex_searching ex + 1) = unat (ex_searching ex) + 1"
proof -
  show "searching_add ex = Inr (ex\<lparr>ex_searching := ex_searching ex + 1\<rparr>)"
    using assms by (simp add: searching_add_def)
  show "unat (ex_searching ex + 1) = unat (ex_searching ex) + 1"
    using assms unat_add64 [of "ex_searching ex" 1] by simp
qed

subsection \<open>Taking and giving back a worker\<close>

lemma sched_take:
  assumes inv: "sched_inv N M s" and t: "t < length (sd_threads s)"
    and pc: "wt_pc (sd_threads s ! t) = Th_Got i"
  obtains th' qs where "transition_to_running i (sd_threads s ! t) (sd_queues s) = Inr (th', qs)"
    "sched_inv N M (put_queues qs (put_thread t th' s))"
proof -
  let ?th = "sd_threads s ! t"
  let ?th' = "?th\<lparr>wt_worker := Some i, wt_searching := True, wt_producer := Some i, wt_pc := Th_Run\<rparr>"
  let ?qs = "(sd_queues s)[i := None]"
  have ok: "thread_ok ?th" by (rule sched_thread_ok [OF inv t])
  then have th: "wt_worker ?th = None" "wt_producer ?th = None" "\<not> wt_searching ?th"
    "wt_park ?th = Park_Empty \<or> wt_park ?th = Park_Notified None"
    using pc by (auto simp: thread_ok_def runs_worker_def)
  have "i \<in># held ?th" using pc by (simp add: held_def)
  note h = sched_held [OF inv t this]
  have run: "transition_to_running i ?th (sd_queues s) = Inr (?th', ?qs)"
    using th h by (simp add: transition_to_running_def swap_producer_def)
  have tot: "tally runs ((sd_threads s)[t := ?th']) = add_mset i (tally runs (sd_threads s))"
    using tally_update [OF t, where x = ?th' and f = runs] th by (simp add: runs_def)
  have q: "sd_queues s = map (\<lambda>k. if k \<in># tally runs (sd_threads s) then None else Some k) [0..<N]"
    using inv by (simp add: sched_inv_def)
  have "sched_inv N M (put_queues ?qs (put_thread t ?th' s))"
  proof (rule sched_inv_thread [OF inv t, where th' = ?th'])
    show "thread_ok ?th'" using th by (auto simp: thread_ok_def runs_worker_def)
    show "sd_queues (put_queues ?qs (put_thread t ?th' s)) =
        map (\<lambda>k. if k \<in># tally runs ((sd_threads s)[t := ?th']) then None else Some k) [0..<N]"
      unfolding tot using h(1) by (intro nth_equalityI) (auto simp: q nth_list_update)
  qed (use inv t pc th sched_weight [OF inv t] in
        \<open>simp_all add: sched_inv_def held_def runs_def weight_def spawn_weight_def\<close>)
  with run show ?thesis by (rule that)
qed

lemma sched_give:
  assumes inv: "sched_inv N M s" and t: "t < length (sd_threads s)"
    and pc: "wt_pc (sd_threads s ! t) = Th_Run" and w: "wt_worker (sd_threads s ! t) = Some i"
  obtains th' qs where "transition_to_idle i (sd_threads s ! t) (sd_queues s) = Inr (th', qs)"
    "sched_inv N M (put_queues qs (put_thread t th' s))"
proof -
  let ?th = "sd_threads s ! t"
  let ?th' = "?th\<lparr>wt_producer := None, wt_worker := None, wt_searching := False,
      wt_pc := Th_Push i (wt_searching ?th)\<rparr>"
  let ?qs = "(sd_queues s)[i := Some i]"
  have ok: "thread_ok ?th" by (rule sched_thread_ok [OF inv t])
  then have th: "wt_producer ?th = Some i" "wt_park ?th = Park_Empty \<or> wt_park ?th = Park_Notified None"
    using pc w by (auto simp: thread_ok_def)
  note r = sched_runs [OF inv t w]
  have run: "transition_to_idle i ?th (sd_queues s) = Inr (?th', ?qs)"
    using th w r by (simp add: transition_to_idle_def swap_producer_def)
  have tot: "add_mset i (tally runs ((sd_threads s)[t := ?th'])) = tally runs (sd_threads s)"
    using tally_update [OF t, where x = ?th' and f = runs] w by (simp add: runs_def)
  have gone: "i \<notin># tally runs ((sd_threads s)[t := ?th'])"
    using r(2) unfolding tot [symmetric] not_in_iff by simp
  have rest: "k \<in># tally runs (sd_threads s) \<longleftrightarrow> k \<in># tally runs ((sd_threads s)[t := ?th'])"
    if "k \<noteq> i" for k
    using that unfolding tot [symmetric] by simp
  have q: "sd_queues s = map (\<lambda>k. if k \<in># tally runs (sd_threads s) then None else Some k) [0..<N]"
    using inv by (simp add: sched_inv_def)
  have qs: "?qs = map (\<lambda>k. if k \<in># tally runs ((sd_threads s)[t := ?th']) then None else Some k) [0..<N]"
  proof (rule nth_equalityI)
    fix k assume "k < length ?qs"
    then have k: "k < N" by (simp add: q)
    show "?qs ! k = map (\<lambda>k. if k \<in># tally runs ((sd_threads s)[t := ?th']) then None else Some k) [0..<N] ! k"
      using k r(1) gone rest [of k] by (cases "k = i") (simp_all add: q)
  qed (simp add: q)
  have "sched_inv N M (put_queues ?qs (put_thread t ?th' s))"
  proof (rule sched_inv_thread [OF inv t, where th' = ?th'])
    show "thread_ok ?th'" using th by (auto simp: thread_ok_def runs_worker_def)
    show "sd_queues (put_queues ?qs (put_thread t ?th' s)) =
        map (\<lambda>k. if k \<in># tally runs ((sd_threads s)[t := ?th']) then None else Some k) [0..<N]"
      using qs by simp
  qed (use inv t pc w th sched_weight [OF inv t] in
        \<open>simp_all add: sched_inv_def held_def runs_def weight_def spawn_weight_def\<close>)
  with run show ?thesis by (rule that)
qed

end
