(* ===== verification/Scheduler_Steps.thy ===== *)
theory Scheduler_Steps
  imports Scheduler_Proofs
begin

text \<open>
  Every step of the scheduler keeps its invariant, and the only assertions that can fail are
  the two on the number of searching threads.
\<close>

definition step_ok :: "nat \<Rightarrow> nat \<Rightarrow> scheduler res \<Rightarrow> bool" where
  "step_ok N M r = (case r of Inr s \<Rightarrow> sched_inv N M s | Inl p \<Rightarrow> False)"

lemma step_ok_Inr: "step_ok N M (Inr s) = sched_inv N M s"
  by (simp add: step_ok_def)

lemma sched_inv_const:
  "sched_inv N M s \<Longrightarrow> ex_workers (sd_exec s) = N"
  "sched_inv N M s \<Longrightarrow> tp_max (sd_pool s) = M"
  "sched_inv N M s \<Longrightarrow> tp_spawned (sd_pool s) \<le> M"
  "sched_inv N M s \<Longrightarrow> unat (ex_searching (sd_exec s)) \<le> N"
  by (simp_all add: sched_inv_def)

lemmas thread_simps = thread_ok_def runs_worker_def held_def weight_def spawn_weight_def wait_result_def

text \<open>The program counter of a thread fixes whether it has a worker and what it may be parked as.\<close>

lemma thread_ok_idle:
  assumes "thread_ok th" "\<not> runs_worker (wt_pc th)" "\<And>b. wt_pc th \<noteq> Th_Parked b"
  shows "wt_worker th = None" "wt_producer th = None" "\<not> wt_searching th"
    "wt_park th = Park_Empty \<or> wt_park th = Park_Notified None"
  using assms by (cases "wt_pc th"; auto simp: thread_ok_def runs_worker_def)+

lemma thread_ok_running:
  assumes "thread_ok th" "runs_worker (wt_pc th)"
  shows "wt_worker th \<noteq> None" "wt_producer th = wt_worker th"
    "wt_park th = Park_Empty \<or> wt_park th = Park_Notified None"
  using assms by (cases "wt_pc th"; auto simp: thread_ok_def runs_worker_def)+

lemma search_pop_cases:
  obtains (Empty) "search_pop ex = Inr (None, ex)"
  | (Index) i ex' where "search_pop ex = Inr (Some i, ex')" "ex_searching ex' = ex_searching ex"
    "ex_workers ex' = ex_workers ex"
    "mset (iq_indices (ex_idle ex)) = add_mset i (mset (iq_indices (ex_idle ex')))"
proof (cases "idle_pop (ex_idle ex)")
  case (Inl p)
  then show ?thesis by (simp add: idle_pop_eq)
next
  case (Inr r)
  show ?thesis
  proof (cases r)
    case (Pair w q)
    show ?thesis
    proof (cases w)
      case None
      then have "q = ex_idle ex" using Inr Pair by (auto simp: idle_pop_eq split: if_splits)
      then show ?thesis using Inr Pair None by (intro Empty) (simp add: search_pop_def set_idle_def)
    next
      case (Some i)
      show ?thesis
      proof (rule Index)
        show "search_pop ex = Inr (Some i, set_idle q ex)" using Inr Pair Some by (simp add: search_pop_def)
        show "mset (iq_indices (ex_idle ex)) = add_mset i (mset (iq_indices (ex_idle (set_idle q ex))))"
          using Inr Pair Some idle_pop_mset by (simp add: set_idle_def)
      qed (simp_all add: set_idle_def)
    qed
  qed
qed

subsection \<open>The steps of a thread\<close>

lemma step_leave:
  assumes inv: "sched_inv N M s" and t: "t < length (sd_threads s)"
    and r: "thread_step (Leave x) t (sd_threads s ! t) s = Some r"
  shows "step_ok N M r"
proof -
  let ?th = "sd_threads s ! t"
  have pc: "wt_pc ?th = Th_Top" using r by (simp split: if_splits)
  note ok = sched_thread_ok [OF inv t] and c = sched_inv_const [OF inv] and w = sched_weight [OF inv t]
  show ?thesis
  proof (cases "wt_pool ?th")
    case True
    then have pos: "0 < tp_spawned (sd_pool s)" using w(3) pc by (simp add: spawn_weight_def)
    then have "r = Inr (put_pool ((sd_pool s)\<lparr>tp_spawned := tp_spawned (sd_pool s) - 1\<rparr>)
        (put_thread t (?th\<lparr>wt_pc := Th_Out\<rparr>) s))"
      using r pc True c by (simp add: pool_finish_def)
    moreover have "step_ok N M \<dots>" unfolding step_ok_Inr
      by (rule sched_inv_local [OF inv t, where th' = "?th\<lparr>wt_pc := Th_Out\<rparr>"])
        (use ok pc c pos True in \<open>auto simp: thread_simps\<close>)
    ultimately show ?thesis by (simp only:)
  next
    case False
    then have "r = Inr (put_pool (sd_pool s) (put_thread t (?th\<lparr>wt_pc := Th_Out\<rparr>) s))"
      using r pc by simp
    moreover have "step_ok N M \<dots>" unfolding step_ok_Inr
      by (rule sched_inv_local [OF inv t, where th' = "?th\<lparr>wt_pc := Th_Out\<rparr>"])
        (use ok pc c False in \<open>auto simp: thread_simps\<close>)
    ultimately show ?thesis by (simp only:)
  qed
qed

lemma step_retry_pop:
  assumes inv: "sched_inv N M s" and t: "t < length (sd_threads s)"
    and r: "thread_step (Retry_Pop x) t (sd_threads s ! t) s = Some r"
  shows "step_ok N M r"
proof -
  let ?th = "sd_threads s ! t"
  have pc: "wt_pc ?th = Th_Top" using r by (simp split: if_splits)
  note ok = sched_thread_ok [OF inv t] and c = sched_inv_const [OF inv]
  show ?thesis
  proof (cases rule: search_pop_cases [of "sd_exec s"])
    case Empty
    then have "r = Inr (put_exec (sd_exec s) (put_thread t (?th\<lparr>wt_pc := Th_Top\<rparr>) s))"
      using r pc by simp
    moreover have "step_ok N M \<dots>" unfolding step_ok_Inr
      by (rule sched_inv_local [OF inv t, where th' = "?th\<lparr>wt_pc := Th_Top\<rparr>"])
        (use ok pc c in \<open>auto simp: thread_simps\<close>)
    ultimately show ?thesis by (simp only:)
  next
    case (Index i ex')
    then have "r = Inr (put_exec ex' (put_thread t (?th\<lparr>wt_pc := Th_Retry i\<rparr>) s))"
      using r pc by simp
    moreover have "step_ok N M \<dots>" unfolding step_ok_Inr
      by (rule sched_inv_local [OF inv t, where th' = "?th\<lparr>wt_pc := Th_Retry i\<rparr>"])
        (use ok pc c Index in \<open>auto simp: thread_simps\<close>)
    ultimately show ?thesis by (simp only:)
  qed
qed

lemma step_take:
  assumes inv: "sched_inv N M s" and t: "t < length (sd_threads s)"
    and r: "thread_step (Take x) t (sd_threads s ! t) s = Some r"
  shows "step_ok N M r"
proof -
  obtain i where pc: "wt_pc (sd_threads s ! t) = Th_Got i"
    using r by (simp split: thread_pc.splits)
  obtain th' qs where "transition_to_running i (sd_threads s ! t) (sd_queues s) = Inr (th', qs)"
    "sched_inv N M (put_queues qs (put_thread t th' s))"
    by (rule sched_take [OF inv t pc]) (rule that)
  then show ?thesis using r pc by (auto simp: step_ok_Inr)
qed

lemma step_give:
  assumes inv: "sched_inv N M s" and t: "t < length (sd_threads s)"
    and r: "thread_step (Give x) t (sd_threads s ! t) s = Some r"
  shows "step_ok N M r"
proof -
  obtain i where pc: "wt_pc (sd_threads s ! t) = Th_Run" and w: "wt_worker (sd_threads s ! t) = Some i"
    using r by (simp split: thread_pc.splits option.splits)
  obtain th' qs where "transition_to_idle i (sd_threads s ! t) (sd_queues s) = Inr (th', qs)"
    "sched_inv N M (put_queues qs (put_thread t th' s))"
    by (rule sched_give [OF inv t pc w]) (rule that)
  then show ?thesis using r pc w by (auto simp: step_ok_Inr)
qed

lemma step_search_load:
  assumes inv: "sched_inv N M s" and t: "t < length (sd_threads s)"
    and r: "thread_step (Search_Load x) t (sd_threads s ! t) s = Some r"
  shows "step_ok N M r"
proof -
  let ?th = "sd_threads s ! t"
  let ?pc = "if 2 * unat (ex_searching (sd_exec s)) < ex_workers (sd_exec s) then Th_Begin else Th_Run"
  have pc: "wt_pc ?th = Th_Run" "\<not> wt_searching ?th" using r by (simp_all split: if_splits)
  note ok = sched_thread_ok [OF inv t] and c = sched_inv_const [OF inv]
  have "r = Inr (put_thread t (?th\<lparr>wt_pc := ?pc\<rparr>) s)"
    using r pc c by (simp add: search_wanted_def)
  moreover have "step_ok N M \<dots>" unfolding step_ok_Inr
    by (rule sched_inv_local [OF inv t, where th' = "?th\<lparr>wt_pc := ?pc\<rparr>"])
      (use ok pc c in \<open>auto simp: thread_simps\<close>)
  ultimately show ?thesis by (simp only:)
qed

lemma step_discovered:
  assumes inv: "sched_inv N M s" and t: "t < length (sd_threads s)"
    and r: "thread_step (Discovered x) t (sd_threads s ! t) s = Some r"
  shows "step_ok N M r"
proof -
  let ?th = "sd_threads s ! t"
  let ?th' = "?th\<lparr>wt_pc := Th_Disc, wt_searching := False\<rparr>"
  have pc: "wt_pc ?th = Th_Run" "wt_searching ?th" using r by (simp_all split: if_splits)
  note ok = sched_thread_ok [OF inv t] and c = sched_inv_const [OF inv]
  have "r = Inr (put_thread t ?th' s)" using r pc by simp
  moreover have "step_ok N M \<dots>" unfolding step_ok_Inr
    by (rule sched_inv_local [OF inv t, where th' = ?th'])
      (use ok pc c in \<open>auto simp: thread_simps\<close>)
  ultimately show ?thesis by (simp only:)
qed

text \<open>A subtraction of a thread that is counted.\<close>

lemma step_sub:
  assumes inv: "sched_inv N M s" and t: "t < length (sd_threads s)"
    and "weight (sd_threads s ! t) = weight th' + 1" and "thread_ok th'" and "held th' = held (sd_threads s ! t)"
    and "spawn_weight th' = spawn_weight (sd_threads s ! t)" "wt_worker th' = wt_worker (sd_threads s ! t)"
    and r: "r = rbind (searching_sub (sd_exec s)) (\<lambda>(old, ex). Inr (put_exec ex (put_thread t th' s)))"
  shows "step_ok N M r"
proof -
  note c = sched_inv_const [OF inv] and w = sched_weight [OF inv t]
  have le: "1 \<le> unat (ex_searching (sd_exec s))" "unat (ex_searching (sd_exec s)) \<le> ex_workers (sd_exec s)"
    using assms(3) w c by linarith+
  note sub = searching_sub_ok [OF le]
  have "r = Inr (put_exec ((sd_exec s)\<lparr>ex_searching := ex_searching (sd_exec s) - 1\<rparr>) (put_thread t th' s))"
    using r sub(1) by simp
  moreover have "step_ok N M \<dots>" unfolding step_ok_Inr
    by (rule sched_inv_local [OF inv t, where th' = th'])
      (use assms c w(2) sub(2) in \<open>simp_all\<close>)
  ultimately show ?thesis by (simp only:)
qed

lemma step_discovered_sub:
  assumes inv: "sched_inv N M s" and t: "t < length (sd_threads s)"
    and r: "thread_step (Discovered_Sub x) t (sd_threads s ! t) s = Some r"
  shows "step_ok N M r"
proof -
  have pc: "wt_pc (sd_threads s ! t) = Th_Disc" using r by (simp split: if_splits)
  note ok = sched_thread_ok [OF inv t]
  show ?thesis
    by (rule step_sub [OF inv t, where th' = "(sd_threads s ! t)\<lparr>wt_pc := Th_Run\<rparr>"])
      (use ok pc r in \<open>auto simp: thread_simps\<close>)
qed

lemma step_failed_sub:
  assumes inv: "sched_inv N M s" and t: "t < length (sd_threads s)"
    and r: "thread_step (Failed_Sub x) t (sd_threads s ! t) s = Some r"
  shows "step_ok N M r"
proof -
  have pc: "wt_pc (sd_threads s ! t) = Th_Sub" using r by (simp split: if_splits)
  note ok = sched_thread_ok [OF inv t]
  show ?thesis
    by (rule step_sub [OF inv t, where th' = "(sd_threads s ! t)\<lparr>wt_pc := Th_Top\<rparr>"])
      (use ok pc r in \<open>auto simp: thread_simps\<close>)
qed

lemma step_failed_push:
  assumes inv: "sched_inv N M s" and t: "t < length (sd_threads s)"
    and r: "thread_step (Failed_Push x) t (sd_threads s ! t) s = Some r"
  shows "step_ok N M r"
proof -
  let ?th = "sd_threads s ! t"
  obtain i was where pc: "wt_pc ?th = Th_Push i was" using r by (simp split: thread_pc.splits)
  let ?th' = "?th\<lparr>wt_pc := if was then Th_Sub else Th_Top\<rparr>"
  let ?ex = "set_idle (idle_push i (ex_idle (sd_exec s))) (sd_exec s)"
  note ok = sched_thread_ok [OF inv t] and c = sched_inv_const [OF inv]
  have "i \<in># held ?th" using pc by (simp add: held_def)
  then have "i < N" by (rule sched_held [OF inv t])
  then have "r = Inr (put_exec ?ex (put_thread t ?th' s))"
    using r pc c by (simp add: search_failed_push_def)
  moreover have "step_ok N M \<dots>" unfolding step_ok_Inr
    by (rule sched_inv_local [OF inv t, where th' = ?th'])
      (use ok pc c in \<open>auto simp: thread_simps set_idle_def idle_push_def\<close>)
  ultimately show ?thesis by (simp only:)
qed

subsection \<open>Waiting\<close>

lemma step_wait_list:
  assumes inv: "sched_inv N M s" and t: "t < length (sd_threads s)"
    and r: "thread_step (Wait_List x) t (sd_threads s ! t) s = Some r"
  shows "step_ok N M r"
proof -
  let ?th = "sd_threads s ! t"
  have pc: "wt_pc ?th = Th_Top" using r by (simp split: if_splits)
  note ok = sched_thread_ok [OF inv t] and c = sched_inv_const [OF inv]
  have park: "wt_park ?th = Park_Empty \<or> wt_park ?th = Park_Notified None"
    using thread_ok_idle(4) [OF ok] pc by (simp add: runs_worker_def)
  then show ?thesis
  proof
    assume p: "wt_park ?th = Park_Empty"
    have "r = Inr (put_pool (pool_list t (sd_pool s)) (put_thread t (?th\<lparr>wt_pc := Th_Listed\<rparr>) s))"
      using r pc p by simp
    moreover have "step_ok N M \<dots>" unfolding step_ok_Inr
      by (rule sched_inv_local [OF inv t, where th' = "?th\<lparr>wt_pc := Th_Listed\<rparr>"])
        (use ok pc c p in \<open>auto simp: thread_simps pool_list_def\<close>)
    ultimately show ?thesis by (simp only:)
  next
    assume p: "wt_park ?th = Park_Notified None"
    have "r = Inr (put_thread t (wait_result None Th_Top ?th) s)" using r pc p by simp
    moreover have "step_ok N M \<dots>" unfolding step_ok_Inr
      by (rule sched_inv_local [OF inv t, where th' = "wait_result None Th_Top ?th"])
        (use ok pc c p in \<open>auto simp: thread_simps\<close>)
    ultimately show ?thesis by (simp only:)
  qed
qed

lemma step_wait_park:
  assumes inv: "sched_inv N M s" and t: "t < length (sd_threads s)"
    and r: "thread_step (Wait_Park x b) t (sd_threads s ! t) s = Some r"
  shows "step_ok N M r"
proof -
  let ?th = "sd_threads s ! t"
  have pc: "wt_pc ?th = Th_Listed" using r by (simp split: if_splits)
  note ok = sched_thread_ok [OF inv t] and c = sched_inv_const [OF inv]
  have park: "wt_park ?th = Park_Empty \<or> wt_park ?th = Park_Notified None"
    using thread_ok_idle(4) [OF ok] pc by (simp add: runs_worker_def)
  then show ?thesis
  proof
    assume p: "wt_park ?th = Park_Empty"
    let ?th' = "?th\<lparr>wt_park := wait_state b, wt_pc := Th_Parked b\<rparr>"
    have "r = Inr (put_thread t ?th' s)" using r pc p by simp
    moreover have "step_ok N M \<dots>" unfolding step_ok_Inr
      by (rule sched_inv_local [OF inv t, where th' = ?th'])
        (use ok pc c p in \<open>auto simp: thread_simps wait_state_def\<close>)
    ultimately show ?thesis by (simp only:)
  next
    assume p: "wt_park ?th = Park_Notified None"
    have "r = Inr (put_thread t (wait_result None Th_Unlist ?th) s)" using r pc p by simp
    moreover have "step_ok N M \<dots>" unfolding step_ok_Inr
      by (rule sched_inv_local [OF inv t, where th' = "wait_result None Th_Unlist ?th"])
        (use ok pc c p in \<open>auto simp: thread_simps\<close>)
    ultimately show ?thesis by (simp only:)
  qed
qed

lemma park_ok_parked:
  assumes "thread_ok th" "wt_pc th = Th_Parked b"
  shows "wt_park th = wait_state b \<or> (\<exists>w. wt_park th = Park_Notified w)"
  using assms by (cases "wt_park th") (auto simp: thread_ok_def)

lemma step_wait_return:
  assumes inv: "sched_inv N M s" and t: "t < length (sd_threads s)"
    and r: "thread_step (Wait_Return x) t (sd_threads s ! t) s = Some r"
  shows "step_ok N M r"
proof -
  let ?th = "sd_threads s ! t"
  obtain b where pc: "wt_pc ?th = Th_Parked b" using r by (simp split: thread_pc.splits)
  note ok = sched_thread_ok [OF inv t] and c = sched_inv_const [OF inv]
  from park_ok_parked [OF ok pc] show ?thesis
  proof (elim disjE exE)
    assume p: "wt_park ?th = wait_state b"
    have "r = Inr (put_thread t (wait_result None Th_Unlist ?th) s)" using r pc p by simp
    moreover have "step_ok N M \<dots>" unfolding step_ok_Inr
      by (rule sched_inv_local [OF inv t, where th' = "wait_result None Th_Unlist ?th"])
        (use ok pc c p in \<open>auto simp: thread_simps wait_state_def\<close>)
    ultimately show ?thesis by (simp only:)
  next
    fix w assume p: "wt_park ?th = Park_Notified w"
    have "r = Inr (put_thread t (wait_result w Th_Unlist ?th) s)"
      using r pc p by (cases b) (simp_all add: wait_state_def)
    moreover have "step_ok N M \<dots>" unfolding step_ok_Inr
      by (rule sched_inv_local [OF inv t, where th' = "wait_result w Th_Unlist ?th"])
        (use ok pc c p in \<open>auto simp: thread_simps split: option.splits\<close>)
    ultimately show ?thesis by (simp only:)
  qed
qed

lemma step_wait_unlist:
  assumes inv: "sched_inv N M s" and t: "t < length (sd_threads s)"
    and r: "thread_step (Wait_Unlist x) t (sd_threads s ! t) s = Some r"
  shows "step_ok N M r"
proof -
  let ?th = "sd_threads s ! t"
  have pc: "wt_pc ?th = Th_Unlist" using r by (simp split: if_splits)
  note ok = sched_thread_ok [OF inv t] and c = sched_inv_const [OF inv]
  have "r = Inr (put_pool (pool_unlist t (sd_pool s)) (put_thread t (?th\<lparr>wt_pc := Th_Top\<rparr>) s))"
    using r pc by simp
  moreover have "step_ok N M \<dots>" unfolding step_ok_Inr
    by (rule sched_inv_local [OF inv t, where th' = "?th\<lparr>wt_pc := Th_Top\<rparr>"])
      (use ok pc c in \<open>auto simp: thread_simps pool_unlist_def\<close>)
  ultimately show ?thesis by (simp only:)
qed

text \<open>What an unpark leaves in the parker.\<close>

lemma unpark_None_state:
  "snd (snd (unpark_result None st)) = (if notified st then st else Park_Notified None)"
  by (cases st) (simp_all add: unpark_result_def)

lemma unpark_Some_state:
  "unpark_result (Some i) st =
     (case st of
        Park_Waiting \<Rightarrow> (True, Wake_Condvar, Park_Notified (Some i))
      | Park_Polling \<Rightarrow> (True, Wake_Net, Park_Notified (Some i))
      | _ \<Rightarrow> (False, Wake_None, st))"
  by (cases st) (simp_all add: unpark_result_def)

lemma step_wake:
  assumes inv: "sched_inv N M s" and t: "t < length (sd_threads s)"
    and r: "thread_step (Wake_Thread x) t (sd_threads s ! t) s = Some r"
  shows "step_ok N M r"
proof -
  let ?th = "sd_threads s ! t"
  let ?th' = "?th\<lparr>wt_park := snd (snd (unpark_result None (wt_park ?th)))\<rparr>"
  note ok = sched_thread_ok [OF inv t] and c = sched_inv_const [OF inv]
  have "r = Inr (put_thread t ?th' s)" using r by (simp add: Let_def split_beta)
  moreover have "step_ok N M \<dots>" unfolding step_ok_Inr
  proof (rule sched_inv_local [OF inv t, where th' = ?th'])
    show "thread_ok ?th'"
      using ok unfolding unpark_None_state by (cases "wt_pc ?th") (auto simp: thread_ok_def runs_worker_def)
    have tokens: "park_tokens (wt_park ?th') = park_tokens (wt_park ?th)"
      unfolding unpark_None_state by (cases "wt_park ?th") simp_all
    show "mset (iq_indices (ex_idle (sd_exec (put_thread t ?th' s)))) + held ?th' =
        mset (iq_indices (ex_idle (sd_exec s))) + held ?th"
      using tokens by (simp add: held_def)
    show "unat (ex_searching (sd_exec (put_thread t ?th' s))) + weight ?th =
        unat (ex_searching (sd_exec s)) + weight ?th'"
      using tokens by (simp add: weight_def)
  qed (use c in \<open>simp_all add: spawn_weight_def\<close>)
  ultimately show ?thesis by (simp only:)
qed

subsection \<open>The additions, and their assertions\<close>

text \<open>
  An addition succeeds as long as not every worker is counted as searching; when the count
  has reached the number of workers its assertion fails.
\<close>

lemma step_add:
  assumes inv: "sched_inv N M s" and t: "t < length (sd_threads s)" and N: "N < 2 ^ 64"
    and "weight th' = weight (sd_threads s ! t) + 1" and "thread_ok th'" and "held th' = held (sd_threads s ! t)"
    and "spawn_weight th' = spawn_weight (sd_threads s ! t)" "wt_worker th' = wt_worker (sd_threads s ! t)"
    and r: "r = rbind (searching_add (sd_exec s)) (\<lambda>ex. Inr (put_exec ex (put_thread t th' s)))"
  shows "step_ok N M r \<or> r = Inl Assert_Failed \<and> unat (ex_searching (sd_exec s)) = N"
proof (cases "unat (ex_searching (sd_exec s)) < N")
  case True
  note c = sched_inv_const [OF inv]
  have lt: "unat (ex_searching (sd_exec s)) < ex_workers (sd_exec s)" "ex_workers (sd_exec s) < 2 ^ 64"
    using True N c by simp_all
  note add = searching_add_ok [OF lt]
  have "r = Inr (put_exec ((sd_exec s)\<lparr>ex_searching := ex_searching (sd_exec s) + 1\<rparr>) (put_thread t th' s))"
    using r add(1) by simp
  moreover have "step_ok N M \<dots>" unfolding step_ok_Inr
    by (rule sched_inv_local [OF inv t, where th' = th'])
      (use assms c True add(2) in \<open>simp_all\<close>)
  ultimately show ?thesis by simp
next
  case False
  then have full: "unat (ex_searching (sd_exec s)) = N" using sched_inv_const(4) [OF inv] by simp
  then have "r = Inl Assert_Failed" using r sched_inv_const(1) [OF inv] by (simp add: searching_add_def)
  with full show ?thesis by simp
qed

lemma step_retry_add:
  assumes inv: "sched_inv N M s" and t: "t < length (sd_threads s)" and N: "N < 2 ^ 64"
    and r: "thread_step (Retry_Add x) t (sd_threads s ! t) s = Some r"
  shows "step_ok N M r \<or> r = Inl Assert_Failed \<and> unat (ex_searching (sd_exec s)) = N"
proof -
  obtain i where pc: "wt_pc (sd_threads s ! t) = Th_Retry i" using r by (simp split: thread_pc.splits)
  note ok = sched_thread_ok [OF inv t]
  show ?thesis
    by (rule step_add [OF inv t N, where th' = "(sd_threads s ! t)\<lparr>wt_pc := Th_Got i\<rparr>"])
      (use ok pc r in \<open>auto simp: thread_simps\<close>)
qed

lemma step_search_add:
  assumes inv: "sched_inv N M s" and t: "t < length (sd_threads s)" and N: "N < 2 ^ 64"
    and r: "thread_step (Search_Add x) t (sd_threads s ! t) s = Some r"
  shows "step_ok N M r \<or> r = Inl Assert_Failed \<and> unat (ex_searching (sd_exec s)) = N"
proof -
  have pc: "wt_pc (sd_threads s ! t) = Th_Begin" using r by (simp split: if_splits)
  note ok = sched_thread_ok [OF inv t]
  show ?thesis
    by (rule step_add [OF inv t N, where th' = "(sd_threads s ! t)\<lparr>wt_pc := Th_Run, wt_searching := True\<rparr>"])
      (use ok pc r in \<open>auto simp: thread_simps\<close>)
qed

subsection \<open>The steps of \<open>notify\<close>\<close>

lemma step_notify_claim:
  assumes inv: "sched_inv N M s" and t: "t < length (sd_threads s)" and N: "1 \<le> N"
    and r: "notify_step (Notify_Claim x) t (sd_threads s ! t) s = Some r"
  shows "step_ok N M r"
proof -
  let ?th = "sd_threads s ! t"
  have n: "wt_notify ?th = Nt_None" using r by (simp split: if_splits)
  note ok = sched_thread_ok [OF inv t] and c = sched_inv_const [OF inv]
  show ?thesis
  proof (cases "iq_pending (ex_idle (sd_exec s)) \<and> ex_searching (sd_exec s) = 0")
    case True
    let ?th' = "?th\<lparr>wt_notify := Nt_Claimed\<rparr>"
    have "r = Inr (put_exec ((sd_exec s)\<lparr>ex_searching := 1\<rparr>) (put_thread t ?th' s))"
      using r n True c by (simp add: notify_claim_def)
    moreover have "step_ok N M \<dots>" unfolding step_ok_Inr
      by (rule sched_inv_local [OF inv t, where th' = ?th'])
        (use ok n c N True in \<open>simp_all add: thread_simps\<close>)
    ultimately show ?thesis by (simp only:)
  next
    case False
    let ?th' = "?th\<lparr>wt_notify := Nt_None\<rparr>"
    have "r = Inr (put_exec (sd_exec s) (put_thread t ?th' s))"
      using r n False c by (auto simp: notify_claim_def word_neq_0_conv split: if_splits)
    moreover have "step_ok N M \<dots>" unfolding step_ok_Inr
      by (rule sched_inv_local [OF inv t, where th' = ?th'])
        (use ok n c in \<open>simp_all add: thread_simps\<close>)
    ultimately show ?thesis by (simp only:)
  qed
qed

lemma step_notify_pop:
  assumes inv: "sched_inv N M s" and t: "t < length (sd_threads s)"
    and r: "notify_step (Notify_Pop x) t (sd_threads s ! t) s = Some r"
  shows "step_ok N M r"
proof -
  let ?th = "sd_threads s ! t"
  have n: "wt_notify ?th = Nt_Claimed" using r by (simp split: if_splits)
  note ok = sched_thread_ok [OF inv t] and c = sched_inv_const [OF inv]
  show ?thesis
  proof (cases rule: search_pop_cases [of "sd_exec s"])
    case Empty
    then have "r = Inr (put_exec (sd_exec s) (put_thread t (?th\<lparr>wt_notify := Nt_Sub\<rparr>) s))"
      using r n by simp
    moreover have "step_ok N M \<dots>" unfolding step_ok_Inr
      by (rule sched_inv_local [OF inv t, where th' = "?th\<lparr>wt_notify := Nt_Sub\<rparr>"])
        (use ok n c in \<open>simp_all add: thread_simps\<close>)
    ultimately show ?thesis by (simp only:)
  next
    case (Index i ex')
    then have "r = Inr (put_exec ex' (put_thread t (?th\<lparr>wt_notify := Nt_Popped i\<rparr>) s))"
      using r n by simp
    moreover have "step_ok N M \<dots>" unfolding step_ok_Inr
      by (rule sched_inv_local [OF inv t, where th' = "?th\<lparr>wt_notify := Nt_Popped i\<rparr>"])
        (use ok n c Index in \<open>simp_all add: thread_simps ac_simps\<close>)
    ultimately show ?thesis by (simp only:)
  qed
qed

text \<open>The pool gives up, names a parker, or counts a new thread.\<close>

lemma spawn_step_cases:
  assumes "tp_spawned tp \<le> tp_max tp"
  obtains (Err) "spawn_step tp = Inr (Spawn_Err, tp)"
  | (Unpark) q tp' where "spawn_step tp = Inr (Spawn_Unpark q, tp')" "q \<in> set (tp_idle tp)"
    "tp_spawned tp' = tp_spawned tp" "tp_max tp' = tp_max tp"
  | (Thread) "spawn_step tp = Inr (Spawn_Thread, tp\<lparr>tp_spawned := tp_spawned tp + 1\<rparr>)"
    "tp_spawned tp < tp_max tp"
proof (cases "tp_running tp \<and> tp_idle tp \<noteq> []")
  case True
  then obtain q rest where "swap_remove (tp_idle tp) 0 = Inr (q, rest)" "q \<in> set (tp_idle tp)"
    by (cases "tp_idle tp") (auto simp: swap_remove_def)
  then show ?thesis using True by (intro Unpark [where tp' = "tp\<lparr>tp_idle := rest\<rparr>"]) (auto simp: spawn_step_def)
next
  case False
  show ?thesis
  proof (cases "tp_running tp \<and> tp_spawned tp \<noteq> tp_max tp")
    case True
    then show ?thesis using False assms by (intro Thread) (auto simp: spawn_step_def)
  next
    case False': False
    then show ?thesis using False assms by (intro Err) (auto simp: spawn_step_def)
  qed
qed

lemma step_notify_spawn:
  assumes inv: "sched_inv N M s" and t: "t < length (sd_threads s)"
    and r: "notify_step (Notify_Spawn x) t (sd_threads s ! t) s = Some r"
  shows "step_ok N M r"
proof -
  let ?th = "sd_threads s ! t"
  obtain i where n: "wt_notify ?th = Nt_Popped i" using r by (simp split: notify_pc.splits)
  note ok = sched_thread_ok [OF inv t] and c = sched_inv_const [OF inv]
  have "tp_spawned (sd_pool s) \<le> tp_max (sd_pool s)" using c by simp
  then show ?thesis
  proof (cases rule: spawn_step_cases)
    case Err
    let ?th' = "?th\<lparr>wt_notify := Nt_Push i\<rparr>"
    have "r = Inr (put_pool (sd_pool s) (put_thread t ?th' s))" using r n Err by simp
    moreover have "step_ok N M \<dots>" unfolding step_ok_Inr
      by (rule sched_inv_local [OF inv t, where th' = ?th']) (use ok n c in \<open>simp_all add: thread_simps\<close>)
    ultimately show ?thesis by (simp only:)
  next
    case (Unpark q tp')
    let ?th' = "?th\<lparr>wt_notify := Nt_Unpark i q\<rparr>"
    have "r = Inr (put_pool tp' (put_thread t ?th' s))" using r n Unpark by simp
    moreover have "step_ok N M \<dots>" unfolding step_ok_Inr
      by (rule sched_inv_local [OF inv t, where th' = ?th'])
        (use ok n c Unpark in \<open>simp_all add: thread_simps\<close>)
    ultimately show ?thesis by (simp only:)
  next
    case Thread
    let ?th' = "?th\<lparr>wt_notify := Nt_Spawn i\<rparr>"
    have "r = Inr (put_pool ((sd_pool s)\<lparr>tp_spawned := tp_spawned (sd_pool s) + 1\<rparr>) (put_thread t ?th' s))"
      using r n Thread by simp
    moreover have "step_ok N M \<dots>" unfolding step_ok_Inr
      by (rule sched_inv_local [OF inv t, where th' = ?th'])
        (use ok n c Thread in \<open>simp_all add: thread_simps\<close>)
    ultimately show ?thesis by (simp only:)
  qed
qed

lemma step_notify_push:
  assumes inv: "sched_inv N M s" and t: "t < length (sd_threads s)"
    and r: "notify_step (Notify_Push x) t (sd_threads s ! t) s = Some r"
  shows "step_ok N M r"
proof -
  let ?th = "sd_threads s ! t"
  obtain i where n: "wt_notify ?th = Nt_Push i" using r by (simp split: notify_pc.splits)
  note ok = sched_thread_ok [OF inv t] and c = sched_inv_const [OF inv]
  let ?th' = "?th\<lparr>wt_notify := Nt_Sub\<rparr>" and ?ex = "set_idle (idle_push i (ex_idle (sd_exec s))) (sd_exec s)"
  have "r = Inr (put_exec ?ex (put_thread t ?th' s))" using r n by simp
  moreover have "step_ok N M \<dots>" unfolding step_ok_Inr
    by (rule sched_inv_local [OF inv t, where th' = ?th'])
      (use ok n c in \<open>simp_all add: thread_simps set_idle_def idle_push_def ac_simps\<close>)
  ultimately show ?thesis by (simp only:)
qed

lemma step_notify_sub:
  assumes inv: "sched_inv N M s" and t: "t < length (sd_threads s)"
    and r: "notify_step (Notify_Sub x) t (sd_threads s ! t) s = Some r"
  shows "step_ok N M r"
proof -
  have n: "wt_notify (sd_threads s ! t) = Nt_Sub" using r by (simp split: if_splits)
  note ok = sched_thread_ok [OF inv t]
  show ?thesis
    by (rule step_sub [OF inv t, where th' = "(sd_threads s ! t)\<lparr>wt_notify := Nt_None\<rparr>"])
      (use ok n r in \<open>simp_all add: thread_simps\<close>)
qed

text \<open>A new thread starts with the index, or the pool could not start it.\<close>

lemma step_notify_thread:
  assumes inv: "sched_inv N M s" and t: "t < length (sd_threads s)"
    and r: "notify_step (Notify_Thread x started) t (sd_threads s ! t) s = Some r"
  shows "step_ok N M r"
proof -
  let ?th = "sd_threads s ! t"
  obtain i where n: "wt_notify ?th = Nt_Spawn i" using r by (simp split: notify_pc.splits)
  note ok = sched_thread_ok [OF inv t] and c = sched_inv_const [OF inv] and w = sched_weight [OF inv t]
  show ?thesis
  proof (cases started)
    case True
    let ?th' = "?th\<lparr>wt_notify := Nt_None\<rparr>" and ?new = "thread_new (Th_Got i) True"
    let ?s1 = "put_thread t ?th' s"
    have "sched_flow N M (held ?new + {#}) (weight ?new + 0) (spawn_weight ?new + 0) ?s1"
      by (rule sched_flow_local [OF inv [unfolded sched_inv_flow] t, where th' = ?th'])
        (use ok n c in \<open>simp_all add: thread_simps thread_new_def\<close>)
    then have "sched_inv N M (?s1\<lparr>sd_threads := sd_threads ?s1 @ [?new]\<rparr>)"
      unfolding sched_inv_flow
      by (rule sched_flow_append) (simp_all add: thread_new_def thread_ok_def runs_worker_def runs_def)
    moreover have "r = Inr (?s1\<lparr>sd_threads := sd_threads ?s1 @ [?new]\<rparr>)"
      using r n True by (simp add: Let_def)
    ultimately show ?thesis by (simp only: step_ok_Inr)
  next
    case False
    let ?th' = "?th\<lparr>wt_notify := Nt_Push i\<rparr>"
    have pos: "0 < tp_spawned (sd_pool s)" using w(3) n by (simp add: spawn_weight_def)
    then have "r = Inr (put_pool ((sd_pool s)\<lparr>tp_spawned := tp_spawned (sd_pool s) - 1\<rparr>) (put_thread t ?th' s))"
      using r n False c by (simp add: pool_finish_def)
    moreover have "step_ok N M \<dots>" unfolding step_ok_Inr
      by (rule sched_inv_local [OF inv t, where th' = ?th']) (use ok n c pos in \<open>simp_all add: thread_simps\<close>)
    ultimately show ?thesis by (simp only:)
  qed
qed

text \<open>
  An unpark hands the index to a thread that is parked, and leaves it with the caller when
  the thread is not.
\<close>

lemma parked_pc:
  assumes "thread_ok th" "wt_park th = Park_Waiting \<or> wt_park th = Park_Polling"
  obtains b where "wt_pc th = Th_Parked b" "wt_park th = wait_state b"
  using assms by (cases "wt_pc th") (auto simp: thread_ok_def)

lemma step_notify_unpark:
  assumes inv: "sched_inv N M s" and t: "t < length (sd_threads s)"
    and r: "notify_step (Notify_Unpark x) t (sd_threads s ! t) s = Some r"
  shows "step_ok N M r"
proof -
  let ?th = "sd_threads s ! t"
  obtain i q where n: "wt_notify ?th = Nt_Unpark i q" and q: "q < length (sd_threads s)"
    using r by (auto split: notify_pc.splits if_splits)
  note ok = sched_thread_ok [OF inv t] and c = sched_inv_const [OF inv]
  define st where "st = wt_park (sd_threads s ! q)"
  show ?thesis
  proof (cases "st = Park_Waiting \<or> st = Park_Polling")
    case True
    let ?th' = "?th\<lparr>wt_notify := Nt_None\<rparr>"
    let ?s1 = "put_thread t ?th' s"
    let ?p = "sd_threads ?s1 ! q"
    let ?p' = "?p\<lparr>wt_park := Park_Notified (Some i)\<rparr>"
    have f: "sched_flow N M {#i#} 1 0 ?s1"
      by (rule sched_flow_local [OF inv [unfolded sched_inv_flow] t, where th' = ?th'])
        (use ok n c in \<open>simp_all add: thread_simps\<close>)
    have q1: "q < length (sd_threads ?s1)" using q by simp
    have okp: "thread_ok ?p" using f q1 by (simp add: sched_flow_def)
    have park: "wt_park ?p = st" using q unfolding st_def by (cases "q = t") simp_all
    obtain b where b: "wt_pc ?p = Th_Parked b" "wt_park ?p = wait_state b"
      by (rule parked_pc [OF okp]) (use True park in simp, rule that)
    have "sched_inv N M (put_thread q ?p' ?s1)" unfolding sched_inv_flow
      by (rule sched_flow_local [OF f q1, where th' = ?p'])
        (use okp b c in \<open>simp_all add: thread_simps wait_state_def\<close>)
    moreover have "r = Inr (put_thread q ?p' ?s1)"
      using r n q True by (auto simp: Let_def unpark_Some_state st_def [symmetric])
    ultimately show ?thesis by (simp only: step_ok_Inr)
  next
    case False
    let ?th' = "?th\<lparr>wt_notify := Nt_Popped i\<rparr>"
    let ?s1 = "put_thread t ?th' s"
    have s1: "sched_inv N M ?s1"
      by (rule sched_inv_local [OF inv t, where th' = ?th']) (use ok n c in \<open>simp_all add: thread_simps\<close>)
    have "(sd_threads ?s1 ! q)\<lparr>wt_park := st\<rparr> = sd_threads ?s1 ! q"
      using q unfolding st_def by (cases "q = t") simp_all
    then have "put_thread q ((sd_threads ?s1 ! q)\<lparr>wt_park := st\<rparr>) ?s1 = ?s1"
      by (simp add: put_thread_def)
    moreover have "r = Inr (put_thread q ((sd_threads ?s1 ! q)\<lparr>wt_park := st\<rparr>) ?s1)"
      using r n q False
      by (cases st) (auto simp: Let_def unpark_Some_state st_def [symmetric])
    ultimately show ?thesis using s1 by (simp only: step_ok_Inr)
  qed
qed

subsection \<open>All steps\<close>

lemma sched_inv_enter: "sched_inv N M s \<Longrightarrow> sched_inv N M (s\<lparr>sd_threads := sd_threads s @ [thread_new Th_Top False]\<rparr>)"
  unfolding sched_inv_flow
  by (rule sched_flow_append)
    (simp_all add: thread_new_def thread_simps runs_def)

lemma sched_inv_shutdown: "sched_inv N M s \<Longrightarrow> sched_inv N M (put_pool (snd (pool_shutdown (sd_pool s))) s)"
  by (simp add: sched_inv_def pool_shutdown_def)

definition adds_searcher :: "sched_action \<Rightarrow> bool" where
  "adds_searcher a = (case a of Retry_Add t \<Rightarrow> True | Search_Add t \<Rightarrow> True | _ \<Rightarrow> False)"

lemma thread_step_ok:
  assumes "sched_inv N M s" "t < length (sd_threads s)" "N < 2 ^ 64"
    and "thread_step a t (sd_threads s ! t) s = Some r"
  shows "step_ok N M r \<or> r = Inl Assert_Failed \<and> unat (ex_searching (sd_exec s)) = N \<and> adds_searcher a"
proof -
  note d = step_leave step_retry_pop step_take step_search_load step_discovered step_discovered_sub
    step_give step_failed_push step_failed_sub step_wait_list step_wait_park step_wait_return
    step_wait_unlist step_wake
  note e = step_retry_add step_search_add
  show ?thesis
    using assms(4)
    by (cases a)
      (auto simp: adds_searcher_def simp del: thread_step.simps(1-16)
        dest: d [OF assms(1,2)] e [OF assms(1-3)])
qed

lemma notify_step_ok:
  assumes "sched_inv N M s" "t < length (sd_threads s)" "1 \<le> N"
    and "notify_step a t (sd_threads s ! t) s = Some r"
  shows "step_ok N M r"
proof -
  note d = step_notify_pop step_notify_spawn step_notify_unpark step_notify_thread step_notify_push
    step_notify_sub
  show ?thesis
    using assms(4)
    by (cases a)
      (auto simp del: notify_step.simps(1-7) dest: d [OF assms(1,2)] step_notify_claim [OF assms(1-3)])
qed

lemma sched_step_ok:
  assumes inv: "sched_inv N M s" and N: "1 \<le> N" "N < 2 ^ 64" and r: "sched_step a s = Some r"
  shows "step_ok N M r \<or> r = Inl Assert_Failed \<and> unat (ex_searching (sd_exec s)) = N \<and> adds_searcher a"
proof (cases "a = Enter \<or> a = Pool_Shutdown")
  case True
  then show ?thesis
    using r sched_inv_enter [OF inv] sched_inv_shutdown [OF inv]
    by (auto simp: sched_step_def step_ok_Inr)
next
  case False
  let ?t = "action_thread a"
  have t: "?t < length (sd_threads s)" using r False by (auto simp: sched_step_def Let_def split: if_splits)
  show ?thesis
  proof (cases "is_notify a")
    case True
    then have "notify_step a ?t (sd_threads s ! ?t) s = Some r"
      using r False t by (simp add: sched_step_def Let_def)
    then show ?thesis using notify_step_ok [OF inv t N(1)] by simp
  next
    case notify: False
    then have "thread_step a ?t (sd_threads s ! ?t) s = Some r"
      using r False t by (simp add: sched_step_def Let_def)
    then show ?thesis by (rule thread_step_ok [OF inv t N(2)])
  qed
qed

end
