(* ===== verification/Scheduler_Properties.thy ===== *)
theory Scheduler_Properties
  imports Scheduler_Steps
begin

text \<open>
  What the invariant of the scheduler promises: workers are never shared, the counts are
  exact, and the runs in which an assertion fails.
\<close>

interpretation sched: invariant_machine sched_step "scheduler_start N M"
  "\<lambda>s. 1 \<le> N \<and> N < 2 ^ 64 \<longrightarrow> sched_inv N M s" for N M
proof unfold_locales
  show "1 \<le> N \<and> N < 2 ^ 64 \<longrightarrow> sched_inv N M (scheduler_start N M)" by (simp add: sched_inv_start)
next
  fix s a s'
  assume "1 \<le> N \<and> N < 2 ^ 64 \<longrightarrow> sched_inv N M s" "sched_step a s = Some (Inr s')"
  then show "1 \<le> N \<and> N < 2 ^ 64 \<longrightarrow> sched_inv N M s'"
    using sched_step_ok [of N M s a "Inr s'"] by (auto simp: step_ok_Inr)
qed

lemma sched_reach_inv:
  "reach sched_step (scheduler_start N M) s \<Longrightarrow> 1 \<le> N \<Longrightarrow> N < 2 ^ 64 \<Longrightarrow> sched_inv N M s"
  using sched.reach_inv by blast

text \<open>The steps of a thread that enters and takes a worker.\<close>

definition enter_run :: "nat \<Rightarrow> sched_action list" where
  "enter_run t = [Enter, Retry_Pop t, Retry_Add t, Take t]"

lemmas sched_eval = scheduler_start_def executor_from_def idle_from_def sched_step_def thread_new_def
  put_thread_def put_exec_def put_pool_def put_queues_def search_pop_def idle_pop_def swap_remove_def
  searching_add_def searching_sub_def set_idle_def idle_push_def transition_to_running_def swap_producer_def
  transition_to_idle_def search_failed_push_def rassert_def Let_def upt_rec

lemma one_worker_runs:
  "\<exists>s. run sched_step (scheduler_start 2 1) (enter_run 0) = Some (Inr s) \<and>
     length (sd_threads s) = 1 \<and> wt_worker (sd_threads s ! 0) = Some 1"
  by (simp add: enter_run_def sched_eval)

subsection \<open>Workers\<close>

text \<open>
  C10: every worker has exactly one owner: its index is once among the idle ones, the ones a
  thread holds or was handed, and the running ones; no two threads run the same worker; and
  the producer of its run queue is with the thread that runs it, or in the queue when
  nobody does.
\<close>

theorem worker_has_one_owner:
  assumes "reach sched_step (scheduler_start N M) s" "1 \<le> N" "N < 2 ^ 64" "i < N"
  shows "count (mset (iq_indices (ex_idle (sd_exec s))) + tally held (sd_threads s)) i +
      length (filter (\<lambda>th. wt_worker th = Some i) (sd_threads s)) = 1 \<and>
    (\<forall>th \<in> set (sd_threads s). wt_producer th = wt_worker th) \<and>
    sd_queues s ! i = (if \<exists>th \<in> set (sd_threads s). wt_worker th = Some i then None else Some i)"
proof -
  have inv: "sched_inv N M s" by (rule sched_reach_inv [OF assms(1-3)])
  have runs: "count (tally runs ths) i = length (filter (\<lambda>th. wt_worker th = Some i) ths)" for ths
  proof (induction ths)
    case (Cons th ths)
    then show ?case by (cases "wt_worker th") (simp_all add: runs_def)
  qed simp
  have member: "i \<in># tally runs ths \<longleftrightarrow> (\<exists>th \<in> set ths. wt_worker th = Some i)" for ths
    using runs [of ths] by (auto simp: count_greater_zero_iff [symmetric] length_greater_0_conv filter_empty_conv
      simp del: count_greater_zero_iff)
  have "count (mset [0..<N]) i = 1"
    using assms(4) by (simp add: distinct_count_atmost_1 [THEN iffD1])
  moreover have "count (mset (iq_indices (ex_idle (sd_exec s))) + tally held (sd_threads s) +
      tally runs (sd_threads s)) i = count (mset [0..<N]) i"
    using inv by (simp add: sched_inv_def)
  ultimately show ?thesis
    using inv assms(4) by (auto simp: sched_inv_def runs thread_ok_def member)
qed

theorem worker_has_one_owner_witness:
  "\<exists>s. run sched_step (scheduler_start 2 1) (enter_run 0) = Some (Inr s) \<and>
     wt_producer (sd_threads s ! 0) = Some 1 \<and> sd_queues s ! 1 = None"
proof -
  obtain s where r: "run sched_step (scheduler_start 2 1) (enter_run 0) = Some (Inr s)"
    and l: "length (sd_threads s) = 1" and w: "wt_worker (sd_threads s ! 0) = Some 1"
    using one_worker_runs by blast
  from l have "sd_threads s ! 0 \<in> set (sd_threads s)" by simp
  then show ?thesis
    using worker_has_one_owner [OF run_reach [OF r], of 1] r w by auto
qed

subsection \<open>Counts\<close>

lemma tally_filter_le: "length (filter P xs) \<le> tally f xs" if "\<And>x. P x \<Longrightarrow> 1 \<le> f x"
  for f :: "'a \<Rightarrow> nat"
proof (induction xs)
  case (Cons x xs)
  then show ?case using that [of x] by auto
qed simp

text \<open>
  The pool never has more live threads than its limit, and the count of searching threads
  never exceeds the number of workers and is zero when no thread is in a state that counts.
\<close>

theorem scheduler_counts_are_bounded:
  assumes "reach sched_step (scheduler_start N M) s" "1 \<le> N" "N < 2 ^ 64"
  shows "length (filter (\<lambda>th. wt_pool th \<and> wt_pc th \<noteq> Th_Out) (sd_threads s)) \<le> tp_spawned (sd_pool s) \<and>
    tp_spawned (sd_pool s) \<le> M \<and>
    unat (ex_searching (sd_exec s)) = tally weight (sd_threads s) \<and>
    unat (ex_searching (sd_exec s)) \<le> N"
proof -
  have inv: "sched_inv N M s" by (rule sched_reach_inv [OF assms])
  have "length (filter (\<lambda>th. wt_pool th \<and> wt_pc th \<noteq> Th_Out) (sd_threads s)) \<le> tally spawn_weight (sd_threads s)"
    by (rule tally_filter_le) (simp add: spawn_weight_def)
  with inv show ?thesis by (simp add: sched_inv_def)
qed

theorem scheduler_counts_are_bounded_witness:
  "\<exists>s. run sched_step (scheduler_start 2 1) (enter_run 0) = Some (Inr s) \<and>
     tp_spawned (sd_pool s) \<le> 1 \<and> unat (ex_searching (sd_exec s)) \<le> 2"
proof -
  obtain s where r: "run sched_step (scheduler_start 2 1) (enter_run 0) = Some (Inr s)"
    using one_worker_runs by blast
  then show ?thesis using scheduler_counts_are_bounded [OF run_reach [OF r]] by auto
qed

subsection \<open>Panics\<close>

lemma run_panic:
  assumes "run step s0 schedule = Some (Inl p)"
  obtains done_steps a later s where "schedule = done_steps @ a # later"
    "run step s0 done_steps = Some (Inr s)" "step a s = Some (Inl p)"
  using assms
proof (induction schedule arbitrary: s0 thesis)
  case (Cons a as)
  show ?case
  proof (cases "step a s0")
    case (Some r)
    show ?thesis
    proof (cases r)
      case (Inl q)
      then show ?thesis using Cons.prems(2) Some by (intro Cons.prems(1) [of "[]" a as s0]) simp_all
    next
      case (Inr s1)
      obtain ds b later s where "as = ds @ b # later" "run step s1 ds = Some (Inr s)" "step b s = Some (Inl p)"
        by (rule Cons.IH) (use Cons.prems(2) Some Inr in \<open>simp_all\<close>)
      then show ?thesis using Some Inr by (intro Cons.prems(1) [of "a # ds" b later s]) simp_all
    qed
  qed (use Cons.prems(2) in simp)
qed simp

text \<open>
  C28: the only assertions of the scheduler that can fail are the ones after the two
  additions to the count of searching threads, and only when every worker is counted as
  searching: the producers are always where they are unwrapped, no \<open>unreachable!\<close> is reached,
  and neither the searching nor the spawned count underflows.
\<close>

theorem scheduler_panics_only_when_all_search:
  assumes "run sched_step (scheduler_start N M) schedule = Some (Inl p)" "1 \<le> N" "N < 2 ^ 64"
  shows "p = Assert_Failed \<and>
    (\<exists>steps a later s. schedule = steps @ a # later \<and> adds_searcher a \<and>
      run sched_step (scheduler_start N M) steps = Some (Inr s) \<and> unat (ex_searching (sd_exec s)) = N)"
proof -
  obtain steps a later s where eq: "schedule = steps @ a # later"
    and r: "run sched_step (scheduler_start N M) steps = Some (Inr s)" and st: "sched_step a s = Some (Inl p)"
    by (rule run_panic [OF assms(1)])
  have inv: "sched_inv N M s" by (rule sched_reach_inv [OF run_reach [OF r] assms(2,3)])
  have "p = Assert_Failed" "unat (ex_searching (sd_exec s)) = N" "adds_searcher a"
    using sched_step_ok [OF inv assms(2,3) st] by (auto simp: step_ok_def)
  then show ?thesis using eq r by blast
qed

definition search_race :: "sched_action list" where
  "search_race = enter_run 0 @ enter_run 1 @
     [Give 0, Failed_Push 0, Enter, Retry_Pop 2, Retry_Add 2]"

text \<open>
  One of these assertions does fail. With two workers and three threads in \<open>block_on\<close>, the
  first takes a worker and gives it back; \<open>search_failed\<close> lists the index as idle before it
  lowers the count, and in between \<open>search_retry\<close> of another thread pops it and finds two
  threads counted as searching.
\<close>

theorem search_race_panics:
  "run sched_step (scheduler_start 2 M) search_race = Some (Inl Assert_Failed)"
  by (simp add: search_race_def enter_run_def sched_eval)

theorem scheduler_panics_only_when_all_search_witness:
  "\<exists>steps a later s. search_race = steps @ a # later \<and> adds_searcher a \<and>
      run sched_step (scheduler_start 2 1) steps = Some (Inr s) \<and> unat (ex_searching (sd_exec s)) = 2"
proof -
  have "run sched_step (scheduler_start 2 1) search_race = Some (Inl Assert_Failed)"
    by (simp add: search_race_def enter_run_def sched_eval)
  from scheduler_panics_only_when_all_search [OF this] show ?thesis by simp
qed

subsection \<open>The end of the pool\<close>

text \<open>
  The count of pending tasks never shuts the pool down: whatever the count is, the
  completion that would end it leaves the pool running with its idle threads listed, since
  the test for the last task is made with the count it has just asserted not to be zero.
\<close>

theorem task_complete_never_shuts_down:
  "(case task_complete tp of
      Inl p \<Rightarrow> p = Assert_Failed \<and> tp_pending tp = 0
    | Inr (parkers, tp') \<Rightarrow> parkers = [] \<and> tp_running tp' = tp_running tp \<and> tp_idle tp' = tp_idle tp \<and>
        tp_pending tp' + 1 = tp_pending tp)"
  by (auto simp: task_complete_def Let_def rassert_def)

end
