(* ===== verification/Random_Source.thy ===== *)
theory Random_Source
  imports Prelude
begin

text \<open>
  \<open>src/src/runtime/internal/random.rs\<close>: the xorshift generator of a context and the visiting
  orders drawn from it. \<open>NonZeroUsize\<close> is the word (or number) it holds, with its
  constructor partial. The \<open>gcd\<close> crate is the parameter \<open>gcd_fn\<close>.
\<close>

subsection \<open>Visiting orders\<close>

record random_iter_source =
  ri_range :: nat
  ri_prime :: nat

definition nonzero_usize :: "nat \<Rightarrow> nat option" where
  "nonzero_usize n = (if n = 0 then None else Some n)"

fun first_some :: "('a \<Rightarrow> 'b option) \<Rightarrow> 'a list \<Rightarrow> 'b option" where
  "first_some f [] = None"
| "first_some f (x # xs) = (case f x of Some y \<Rightarrow> Some y | None \<Rightarrow> first_some f xs)"

definition random_iter_source_from :: "(nat \<Rightarrow> nat \<Rightarrow> nat) \<Rightarrow> nat \<Rightarrow> random_iter_source res" where
  "random_iter_source_from gcd_fn bound =
     rbind (unwrap (first_some nonzero_usize
              (filter (\<lambda>prime. gcd_fn prime bound = 1) (rev [bound div 2 ..< bound]))))
       (\<lambda>prime. Inr \<lparr>ri_range = bound, ri_prime = prime\<rparr>)"

subsection \<open>The generator\<close>

record random_generator =
  rg_xorshift :: usize

definition HASH :: usize where "HASH = 0x9E3779B97F4A7C15"

text \<open>\<open>new\<close> takes the value of the shared counter; the second component is its next value.\<close>

definition rng_new :: "usize \<Rightarrow> random_generator \<times> usize" where
  "rng_new seed =
     (\<lparr>rg_xorshift = (if seed * HASH = 0 then 0xdeadbeef else seed * HASH)\<rparr>, seed + 1)"

definition xorshift :: "usize \<Rightarrow> usize" where
  "xorshift x0 =
     (let x1 = x0 XOR push_bit 13 x0;
          x2 = x1 XOR drop_bit 7 x1;
          x3 = x2 XOR push_bit 17 x2
      in x3)"

definition rng_gen :: "random_generator \<Rightarrow> (usize \<times> random_generator) res" where
  "rng_gen g =
     (let xs = xorshift (rg_xorshift g)
      in if xs = 0 then Inl Unwrap_None else Inr (xs, g\<lparr>rg_xorshift := xs\<rparr>))"

text \<open>The closure of \<open>gen_iter\<close>, run for each of the \<open>range\<close> items.\<close>

definition iter_next :: "random_iter_source \<Rightarrow> nat \<Rightarrow> nat res" where
  "iter_next src idx =
     (if 2 ^ 64 \<le> idx + ri_prime src then Inl Arithmetic_Overflow
      else
        let i = idx + ri_prime src;
            i' = (if ri_range src \<le> i then i - ri_range src else i)
        in rbind (rassert (i' < ri_range src)) (\<lambda>_. Inr i'))"

fun iter_items :: "random_iter_source \<Rightarrow> nat \<Rightarrow> nat \<Rightarrow> nat list res" where
  "iter_items src 0 idx = Inr []"
| "iter_items src (Suc n) idx =
     rbind (iter_next src idx) (\<lambda>i. rbind (iter_items src n i) (\<lambda>items. Inr (i # items)))"

definition gen_iter :: "random_generator \<Rightarrow> random_iter_source \<Rightarrow> (nat list \<times> random_generator) res" where
  "gen_iter g src =
     rbind (rng_gen g) (\<lambda>(x, g').
       rbind (iter_items src (ri_range src) (unat x mod ri_range src)) (\<lambda>items. Inr (items, g')))"

subsection \<open>The generator never reaches zero\<close>

lemma bit_push_word: "bit (push_bit k (x :: 64 word)) n \<longleftrightarrow> k \<le> n \<and> n < 64 \<and> bit x (n - k)"
  by (auto simp: bit_push_bit_iff)

lemma xor_zero_eq: "(x :: usize) XOR y = 0 \<Longrightarrow> x = y"
  by (auto simp: bit_eq_iff bit_xor_iff)

lemma xor_push_zero:
  assumes "0 < k" "(x :: usize) XOR push_bit k x = 0"
  shows "x = 0"
proof (rule bit_word_eqI)
  have eq: "x = push_bit k x" by (rule xor_zero_eq [OF assms(2)])
  have "\<not> bit x n" for n
  proof (induction n rule: less_induct)
    case (less n)
    have "bit x n \<longleftrightarrow> k \<le> n \<and> n < 64 \<and> bit x (n - k)" using eq bit_push_word by metis
    then show ?case using less [of "n - k"] assms(1) by auto
  qed
  then show "bit x n = bit (0 :: usize) n" for n by simp
qed

lemma xor_drop_zero:
  assumes "0 < k" "(x :: usize) XOR drop_bit k x = 0"
  shows "x = 0"
proof (rule bit_word_eqI)
  have eq: "x = drop_bit k x" by (rule xor_zero_eq [OF assms(2)])
  have step: "bit x n \<longleftrightarrow> bit x (k + n)" for n using eq bit_drop_bit_eq by (metis comp_apply)
  have "\<not> bit x n" for n
  proof (induction "64 - n" arbitrary: n rule: less_induct)
    case less
    show ?case
    proof (cases "n < 64")
      case True
      then have "\<not> bit x (k + n)" using less assms(1) by simp
      then show ?thesis using step by simp
    qed (simp add: bit_imp_le_length not_less bit_word.rep_eq)
  qed
  then show "bit x n = bit (0 :: usize) n" for n by simp
qed

lemma xor_push_inj:
  assumes "0 < k" "(x :: usize) XOR push_bit k x = y XOR push_bit k y"
  shows "x = y"
proof -
  have "(x XOR y) XOR push_bit k (x XOR y) = (x XOR push_bit k x) XOR (y XOR push_bit k y)"
    by (simp add: push_bit_xor ac_simps)
  also have "\<dots> = 0" using assms(2) by simp
  finally have "x XOR y = 0" by (rule xor_push_zero [OF assms(1)])
  then show ?thesis by (rule xor_zero_eq)
qed

lemma xor_drop_inj:
  assumes "0 < k" "(x :: usize) XOR drop_bit k x = y XOR drop_bit k y"
  shows "x = y"
proof -
  have "(x XOR y) XOR drop_bit k (x XOR y) = (x XOR drop_bit k x) XOR (y XOR drop_bit k y)"
    by (simp add: drop_bit_xor ac_simps)
  also have "\<dots> = 0" using assms(2) by simp
  finally have "x XOR y = 0" by (rule xor_drop_zero [OF assms(1)])
  then show ?thesis by (rule xor_zero_eq)
qed

lemma xorshift_inj: "xorshift x = xorshift y \<Longrightarrow> x = y"
  unfolding xorshift_def Let_def
  by (rule xor_push_inj [of 13], simp, rule xor_drop_inj [of 7], simp, rule xor_push_inj [of 17]) simp_all

lemma xorshift_zero: "xorshift x = 0 \<longleftrightarrow> x = 0"
  using xorshift_inj [of x 0] by (auto simp: xorshift_def)

definition rng_ok :: "random_generator \<Rightarrow> bool" where
  "rng_ok g \<longleftrightarrow> rg_xorshift g \<noteq> 0"

lemma rng_new_ok [simp]: "rng_ok (fst (rng_new seed))"
  by (simp add: rng_ok_def rng_new_def)

lemma rng_gen_ok:
  assumes "rng_ok g"
  shows "rng_gen g = Inr (xorshift (rg_xorshift g), g\<lparr>rg_xorshift := xorshift (rg_xorshift g)\<rparr>)"
    and "rng_ok (g\<lparr>rg_xorshift := xorshift (rg_xorshift g)\<rparr>)"
  using assms by (simp_all add: rng_gen_def rng_ok_def xorshift_zero Let_def)


fun draw :: "nat \<Rightarrow> random_generator \<Rightarrow> (usize list \<times> random_generator) res" where
  "draw 0 g = Inr ([], g)"
| "draw (Suc n) g =
     rbind (rng_gen g) (\<lambda>(x, g1). rbind (draw n g1) (\<lambda>(xs, g2). Inr (x # xs, g2)))"

lemma draw_ok: "rng_ok g \<Longrightarrow> \<exists>xs g'. draw n g = Inr (xs, g') \<and> length xs = n \<and> 0 \<notin> set xs \<and> rng_ok g'"
proof (induction n arbitrary: g)
  case (Suc n)
  let ?g = "g\<lparr>rg_xorshift := xorshift (rg_xorshift g)\<rparr>"
  from Suc.IH [OF rng_gen_ok(2) [OF Suc.prems]] obtain xs g' where
    "draw n ?g = Inr (xs, g')" "length xs = n" "0 \<notin> set xs" "rng_ok g'" by blast
  moreover have "xorshift (rg_xorshift g) \<noteq> 0"
    using Suc.prems by (simp add: rng_ok_def xorshift_zero)
  ultimately show ?case using rng_gen_ok(1) [OF Suc.prems] by simp
qed simp

text \<open>
  From any seed, any number of draws succeeds and draws only nonzero numbers: the
  xorshift step maps no nonzero state to zero, so the \<open>unwrap\<close> of \<open>gen\<close> never fails.
\<close>

theorem rng_draws_never_panic:
  "\<exists>xs g'. draw n (fst (rng_new seed)) = Inr (xs, g') \<and> length xs = n \<and> 0 \<notin> set xs"
  using draw_ok [OF rng_new_ok] by blast

text \<open>
  The generator is injective: two generators that draw the same number were in the same
  state and are in the same state afterwards, so no two states ever merge.
\<close>

theorem rng_gen_injective:
  assumes "rng_gen g = Inr (x, g')" "rng_gen h = Inr (x, h')"
  shows "rg_xorshift g = rg_xorshift h \<and> rg_xorshift g' = x \<and> rg_xorshift h' = x"
  using assms xorshift_inj by (auto simp: rng_gen_def Let_def split: if_splits)

theorem rng_gen_injective_witness:
  "\<exists>x g'. rng_gen (fst (rng_new 1)) = Inr (x, g') \<and>
     rg_xorshift (fst (rng_new 1)) = rg_xorshift (fst (rng_new 1)) \<and> rg_xorshift g' = x"
proof -
  have "rng_gen (fst (rng_new 1)) = Inr (xorshift (rg_xorshift (fst (rng_new 1))),
      (fst (rng_new 1))\<lparr>rg_xorshift := xorshift (rg_xorshift (fst (rng_new 1)))\<rparr>)"
    by (rule rng_gen_ok(1)) simp
  from this rng_gen_injective [OF this this] show ?thesis by blast
qed

subsection \<open>The visiting order is a permutation\<close>

definition src_ok :: "random_iter_source \<Rightarrow> bool" where
  "src_ok src \<longleftrightarrow> 0 < ri_prime src \<and> ri_prime src < ri_range src \<and> coprime (ri_prime src) (ri_range src) \<and>
     ri_range src \<le> 2 ^ 63"

lemma iter_next_ok:
  assumes "src_ok src" "idx < ri_range src"
  shows "iter_next src idx = Inr ((idx + ri_prime src) mod ri_range src)"
proof -
  let ?p = "ri_prime src" and ?r = "ri_range src"
  have b: "idx + ?p < 2 * ?r" "2 * ?r \<le> 2 ^ 64" using assms by (simp_all add: src_ok_def)
  then have n: "\<not> 2 ^ 64 \<le> idx + ?p" by linarith
  have "(idx + ?p) mod ?r = (if ?r \<le> idx + ?p then idx + ?p - ?r else idx + ?p)"
    using b(1) by (simp add: mod_if)
  moreover have "(idx + ?p) mod ?r < ?r" using assms(2) by simp
  ultimately show ?thesis using n by (simp add: iter_next_def Let_def)
qed

lemma iter_items_ok:
  "src_ok src \<Longrightarrow> idx < ri_range src \<Longrightarrow>
   iter_items src n idx = Inr (map (\<lambda>k. (idx + Suc k * ri_prime src) mod ri_range src) [0..<n])"
proof (induction n arbitrary: idx)
  case (Suc n)
  let ?i = "(idx + ri_prime src) mod ri_range src"
  have r: "?i < ri_range src" using Suc.prems(2) by simp
  have "(?i + Suc k * ri_prime src) mod ri_range src =
      (idx + Suc (Suc k) * ri_prime src) mod ri_range src" for k
  proof -
    have "(?i + Suc k * ri_prime src) mod ri_range src =
        (idx + ri_prime src + Suc k * ri_prime src) mod ri_range src" by (rule mod_add_left_eq)
    moreover have "idx + ri_prime src + Suc k * ri_prime src = idx + Suc (Suc k) * ri_prime src" by simp
    ultimately show ?thesis by (simp only:)
  qed
  moreover have "[0..<Suc n] = 0 # map Suc [0..<n]" by (simp add: map_Suc_upt upt_conv_Cons)
  ultimately show ?case
    using iter_next_ok [OF Suc.prems] Suc.IH [OF Suc.prems(1) r] by (simp add: comp_def)
qed simp

lemma orbit_inj:
  assumes "coprime p (r :: nat)" "j < r" "k < r" "(s + Suc j * p) mod r = (s + Suc k * p) mod r"
  shows "j = k"
proof -
  have *: "j = k" if "j \<le> k" "k < r" "(s + Suc j * p) mod r = (s + Suc k * p) mod r" for j k
  proof -
    have "s + Suc k * p = s + Suc j * p + (k - j) * p"
      using that(1) by (simp add: diff_mult_distrib algebra_simps)
    then have "r dvd (k - j) * p" using that(3) by (metis mod_eq_dvd_iff_nat add_diff_cancel_left' le_add1)
    then have "r dvd k - j" using assms(1) by (simp add: coprime_commute coprime_dvd_mult_left_iff)
    then show ?thesis using that by (auto dest: dvd_imp_le)
  qed
  show ?thesis using * [of j k] * [of k j] assms by (cases "j \<le> k") auto
qed

lemma iter_items_perm:
  assumes "src_ok src" "idx < ri_range src"
  obtains items where "iter_items src (ri_range src) idx = Inr items" "distinct items"
    "set items = {0..<ri_range src}"
proof -
  let ?f = "\<lambda>k. (idx + Suc k * ri_prime src) mod ri_range src"
  let ?items = "map ?f [0..<ri_range src]"
  have "inj_on ?f {0..<ri_range src}"
  proof (rule inj_onI)
    fix j k assume "j \<in> {0..<ri_range src}" "k \<in> {0..<ri_range src}" "?f j = ?f k"
    then show "j = k"
      using assms(1) orbit_inj [of "ri_prime src" "ri_range src" j k idx] by (simp add: src_ok_def)
  qed
  then have d: "distinct ?items" by (simp add: distinct_map)
  have "set ?items \<subseteq> {0..<ri_range src}" using assms(2) by auto
  moreover have "card (set ?items) = card {0..<ri_range src}" unfolding distinct_card [OF d] by simp
  ultimately have "set ?items = {0..<ri_range src}" by (simp add: card_subset_eq)
  then show ?thesis using that iter_items_ok [OF assms] d by blast
qed

lemma random_iter_source_from_ok:
  assumes "\<And>a b. gcd_fn a b = gcd a b" "2 \<le> bound"
  shows "random_iter_source_from gcd_fn bound = Inr \<lparr>ri_range = bound, ri_prime = bound - 1\<rparr>"
proof -
  obtain m where m: "bound = Suc m" "0 < m" using assms(2) by (cases bound) auto
  have "[bound div 2 ..< bound] = [bound div 2 ..< m] @ [m]"
    using m by (metis Suc_1 Suc_leI div_less_dividend lessI less_Suc_eq_le upt_Suc zero_less_Suc)
  then have "rev [bound div 2 ..< bound] = m # rev [bound div 2 ..< m]" by simp
  moreover have "gcd m bound = 1" using m by (metis coprime_Suc_right_nat coprime_iff_gcd_eq_1)
  ultimately show ?thesis
    using m assms(1) by (simp add: random_iter_source_from_def nonzero_usize_def)
qed

text \<open>
  C38: with \<open>gcd\<close> the greatest common divisor, the source for a range of at least two
  workers steps by \<open>range - 1\<close>, and iterating it from any generator visits every index
  below the range exactly once, without overflow and without failing its assertion.
\<close>

theorem gen_iter_visits_every_index_once:
  assumes "\<And>a b. gcd_fn a b = gcd a b" "2 \<le> bound" "bound \<le> 2 ^ 63" "rg_xorshift g \<noteq> 0"
  shows "\<exists>src items g'. random_iter_source_from gcd_fn bound = Inr src \<and> ri_prime src = bound - 1 \<and>
     gen_iter g src = Inr (items, g') \<and> distinct items \<and> set items = {0..<bound} \<and> rg_xorshift g' \<noteq> 0"
proof -
  let ?src = "\<lparr>ri_range = bound, ri_prime = bound - 1\<rparr>"
  have ok: "src_ok ?src"
    using assms(2,3) coprime_diff_one_left_nat [of bound] by (simp add: src_ok_def)
  have "unat (xorshift (rg_xorshift g)) mod ri_range ?src < ri_range ?src" using assms(2) by simp
  from iter_items_perm [OF ok this] obtain items where
    "iter_items ?src bound (unat (xorshift (rg_xorshift g)) mod bound) = Inr items" "distinct items"
    "set items = {0..<bound}" by auto
  moreover have "rng_ok g" using assms(4) by (simp add: rng_ok_def)
  ultimately show ?thesis
    using random_iter_source_from_ok [OF assms(1,2)] rng_gen_ok [OF \<open>rng_ok g\<close>]
    by (simp add: gen_iter_def rng_ok_def)
qed

theorem gen_iter_visits_every_index_once_witness:
  "\<exists>src items g'. random_iter_source_from gcd 4 = Inr src \<and> ri_prime src = 4 - 1 \<and>
     gen_iter (fst (rng_new 0)) src = Inr (items, g') \<and> distinct items \<and> set items = {0..<4} \<and> rg_xorshift g' \<noteq> 0"
  by (rule gen_iter_visits_every_index_once) (simp_all add: rng_new_def)

text \<open>
  For a single worker there is no such step: the only candidate is 0, which
  \<open>NonZeroUsize\<close> rejects, so building the source of a range of one panics.
\<close>

theorem random_iter_source_from_one_panics:
  "random_iter_source_from gcd_fn 1 = Inl Unwrap_None"
  by (simp add: random_iter_source_from_def nonzero_usize_def)

end
