(* ===== verification/Block_On.thy ===== *)
theory Block_On
  imports Parker Task_State
begin

text \<open>
  \<open>WorkerContext::run\<close>, \<open>poll\<close> and \<open>poll_future\<close> of \<open>src/src/runtime/internal/worker.rs\<close>, seen
  from the future that \<open>block_on\<close> runs: the task state it shares with its waker, the \<open>impl Wake
  for Parker\<close>, and when the thread parks. What the worker finds to run and what the wait
  returns besides a notification is left to the schedule.
\<close>

subsection \<open>State\<close>

text \<open>
  The points of the thread: before the loop; \<open>transition_to_running\<close>, its load and its store;
  in the future's \<open>poll\<close>; \<open>transition_to_idle\<close>; the load and the store of
  \<open>transition_to_scheduled_from_notified\<close>; looking for tasks; before \<open>poll_unparked\<close> and the
  first exchange of \<open>park\<close>; parked; back from the wait with an index or none; returned.
\<close>

datatype 'o block_pc =
    B_Start
  | B_Check
  | B_Store
  | B_Poll
  | B_Idle
  | B_Notified
  | B_Resched
  | B_Search
  | B_Wait
  | B_Parked
  | B_Woken "nat option"
  | B_Done 'o

text \<open>
  \<open>bo_unparking\<close> counts the wakers that won \<open>transition_to_scheduled\<close> and have yet to unpark.
  \<open>bo_polls\<close> counts the polls of the future, and \<open>bo_self\<close> tells that the last poll ended by
  rescheduling the future because it was woken meanwhile.
\<close>

record 'o block_on =
  bo_pc :: "'o block_pc"
  bo_state :: u8
  bo_park :: "nat park_state"
  bo_unparking :: nat
  bo_polls :: nat
  bo_self :: bool

definition block_start :: "'o block_on" where
  "block_start = \<lparr>bo_pc = B_Start, bo_state = task_state_new, bo_park = Park_Empty,
     bo_unparking = 0, bo_polls = 0, bo_self = False\<rparr>"

subsection \<open>Steps\<close>

text \<open>
  \<open>Advance\<close> is the next step of the thread where the code has only one; \<open>Polled\<close> gives what
  the future's \<open>poll\<close> returned (a panic in it is a result too), \<open>Searched\<close> whether \<open>poll_worker\<close>
  or \<open>search_retry\<close> made the loop go on, \<open>Park_Times_Out\<close> is the end of the wait by time-out
  or by events, and \<open>Loop notified\<close> what follows a wait. \<open>Wake\<close> and \<open>Unpark_Step\<close> are the two
  halves of \<open>wake_by_ref\<close>, which needs a waker and so a poll that made one; \<open>Hand_Worker\<close> is
  an unpark with an index.
\<close>

datatype 'o block_action =
    Advance
  | Polled "'o option"
  | Searched bool
  | Park_Times_Out
  | Loop bool
  | Wake
  | Unpark_Step
  | Hand_Worker nat

definition block_advance :: "'o block_on \<Rightarrow> 'o block_on res option" where
  "block_advance s =
     (case bo_pc s of
        B_Start \<Rightarrow>
          (let (won, st) = to_scheduled (bo_state s)
           in Some (rbind (rassert won) (\<lambda>_. Inr (s\<lparr>bo_state := st, bo_pc := B_Check\<rparr>))))
      | B_Check \<Rightarrow>
          Some (rbind (running_check (bo_state s)) (\<lambda>is_running.
            Inr (s\<lparr>bo_pc := if is_running then B_Store else B_Search\<rparr>)))
      | B_Store \<Rightarrow>
          Some (Inr (s\<lparr>bo_state := TASK_RUNNING, bo_pc := B_Poll, bo_polls := bo_polls s + 1,
                       bo_self := False\<rparr>))
      | B_Idle \<Rightarrow>
          Some (rbind (to_idle (bo_state s)) (\<lambda>(idle, st).
            Inr (s\<lparr>bo_state := st, bo_pc := if idle then B_Search else B_Notified\<rparr>)))
      | B_Notified \<Rightarrow>
          Some (rbind (notified_check (bo_state s)) (\<lambda>_. Inr (s\<lparr>bo_pc := B_Resched\<rparr>)))
      | B_Resched \<Rightarrow>
          Some (Inr (s\<lparr>bo_state := TASK_SCHEDULED, bo_pc := B_Search, bo_self := True\<rparr>))
      | B_Wait \<Rightarrow>
          Some (Inr (case notified_index (bo_park s) of
            Some w \<Rightarrow> s\<lparr>bo_park := Park_Empty, bo_pc := B_Woken w\<rparr>
          | None \<Rightarrow> s\<lparr>bo_park := wait_state False, bo_pc := B_Parked\<rparr>))
      | B_Parked \<Rightarrow>
          (case notified_index (bo_park s) of
             Some w \<Rightarrow> Some (Inr (s\<lparr>bo_park := Park_Empty, bo_pc := B_Woken w\<rparr>))
           | None \<Rightarrow> None)
      | _ \<Rightarrow> None)"

definition block_wake :: "'o block_on \<Rightarrow> 'o block_on" where
  "block_wake s =
     (let (won, st) = to_scheduled (bo_state s)
      in s\<lparr>bo_state := st, bo_unparking := bo_unparking s + (if won then 1 else 0)\<rparr>)"

definition block_unpark :: "nat option \<Rightarrow> 'o block_on \<Rightarrow> 'o block_on" where
  "block_unpark w s = s\<lparr>bo_park := snd (snd (unpark_result w (bo_park s)))\<rparr>"

text \<open>
  After the wait: with an index the loop goes on, or returns a task to run; without one the
  state becomes scheduled unless the wait was ended by timers or events.
\<close>

definition block_loop :: "bool \<Rightarrow> nat option \<Rightarrow> 'o block_on \<Rightarrow> 'o block_on" where
  "block_loop notified_flag w s =
     (let st = (if w = None \<and> \<not> notified_flag then snd (to_scheduled (bo_state s)) else bo_state s)
      in s\<lparr>bo_state := st, bo_pc := B_Check\<rparr>)"

fun block_step :: "'o block_action \<Rightarrow> 'o block_on \<Rightarrow> 'o block_on res option" where
  "block_step Advance s = block_advance s"
| "block_step (Polled result) s =
     (if bo_pc s = B_Poll
      then Some (Inr (s\<lparr>bo_pc := case result of Some v \<Rightarrow> B_Done v | None \<Rightarrow> B_Idle\<rparr>)) else None)"
| "block_step (Searched found) s =
     (if bo_pc s = B_Search
      then Some (Inr (s\<lparr>bo_pc := if found then B_Check else B_Wait\<rparr>)) else None)"
| "block_step Park_Times_Out s =
     (if bo_pc s = B_Parked
      then Some (Inr (case notified_index (bo_park s) of
             Some w \<Rightarrow> s\<lparr>bo_park := Park_Empty, bo_pc := B_Woken w\<rparr>
           | None \<Rightarrow> s\<lparr>bo_park := Park_Empty, bo_pc := B_Woken None\<rparr>))
      else None)"
| "block_step (Loop notified_flag) s =
     (case bo_pc s of B_Woken w \<Rightarrow> Some (Inr (block_loop notified_flag w s)) | _ \<Rightarrow> None)"
| "block_step Wake s = (if 0 < bo_polls s then Some (Inr (block_wake s)) else None)"
| "block_step Unpark_Step s =
     (if 0 < bo_unparking s
      then Some (Inr (block_unpark None (s\<lparr>bo_unparking := bo_unparking s - 1\<rparr>))) else None)"
| "block_step (Hand_Worker i) s = Some (Inr (block_unpark (Some i) s))"

subsection \<open>The invariant\<close>

fun state_ok :: "'o block_pc \<Rightarrow> u8 \<Rightarrow> bool" where
  "state_ok B_Start st = (st = TASK_IDLE)"
| "state_ok B_Store st = (st = TASK_SCHEDULED)"
| "state_ok B_Poll st = (st = TASK_RUNNING \<or> st = TASK_NOTIFIED)"
| "state_ok B_Idle st = (st = TASK_RUNNING \<or> st = TASK_NOTIFIED)"
| "state_ok B_Notified st = (st = TASK_NOTIFIED)"
| "state_ok B_Resched st = (st = TASK_NOTIFIED)"
| "state_ok (B_Done v) st = (st = TASK_RUNNING \<or> st = TASK_NOTIFIED)"
| "state_ok _ st = (st = TASK_IDLE \<or> st = TASK_SCHEDULED)"

fun after_check :: "'o block_pc \<Rightarrow> bool" where
  "after_check B_Search = True"
| "after_check B_Wait = True"
| "after_check B_Parked = True"
| "after_check pc = False"

text \<open>
  A future that is scheduled after the loop has looked at it: a notification is stored or on
  its way, unless it was woken during its own poll.
\<close>

definition block_inv :: "'o block_on \<Rightarrow> bool" where
  "block_inv s \<longleftrightarrow>
     state_ok (bo_pc s) (bo_state s) \<and>
     (bo_pc s = B_Start \<longrightarrow> bo_polls s = 0) \<and>
     (if bo_pc s = B_Parked then bo_park s = Park_Waiting \<or> notified (bo_park s)
      else bo_park s = Park_Empty \<or> bo_park s = Park_Notified None) \<and>
     (after_check (bo_pc s) \<and> bo_state s = TASK_SCHEDULED \<longrightarrow>
        notified (bo_park s) \<or> 0 < bo_unparking s \<or> bo_self s)"

lemma block_inv_start: "block_inv block_start"
  by (simp add: block_inv_def block_start_def task_state_new_def)

lemma block_advance_inv:
  assumes "block_inv s" "block_advance s = Some r"
  shows "\<exists>s'. r = Inr s' \<and> block_inv s'"
proof (cases "bo_pc s")
  case B_Start
  then show ?thesis using assms by (auto simp: block_advance_def block_inv_def)
next
  case B_Check
  then show ?thesis using assms by (auto simp: block_advance_def block_inv_def)
next
  case B_Idle
  then show ?thesis using assms by (auto simp: block_advance_def block_inv_def)
next
  case B_Notified
  then show ?thesis using assms by (auto simp: block_advance_def block_inv_def)
next
  case B_Wait
  then show ?thesis using assms by (auto simp: block_advance_def block_inv_def)
next
  case B_Parked
  then show ?thesis
    using assms by (cases "bo_park s") (auto simp: block_advance_def block_inv_def)
qed (use assms in \<open>auto simp: block_advance_def block_inv_def\<close>)

lemma block_wake_inv:
  assumes "block_inv s" "0 < bo_polls s"
  shows "block_inv (block_wake s)"
  using assms
  by (cases "bo_pc s") (auto simp: block_wake_def block_inv_def)

lemma block_unpark_inv:
  assumes "block_inv s"
  shows "block_inv (block_unpark (Some i) s)"
    "0 < bo_unparking s \<Longrightarrow> block_inv (block_unpark None (s\<lparr>bo_unparking := bo_unparking s - 1\<rparr>))"
  using assms
  by (cases "bo_park s"; cases "bo_pc s"; auto simp: block_unpark_def unpark_result_def block_inv_def)+

lemma block_loop_inv: "block_inv s \<Longrightarrow> bo_pc s = B_Woken w \<Longrightarrow> block_inv (block_loop b w s)"
  by (auto simp: block_loop_def block_inv_def Let_def)

lemma block_step_inv:
  assumes inv: "block_inv s" and r: "block_step a s = Some r"
  shows "\<exists>s'. r = Inr s' \<and> block_inv s'"
proof (cases a)
  case Advance
  then show ?thesis using block_advance_inv [OF inv] r by simp
next
  case (Polled result)
  then show ?thesis
    using inv r by (cases result) (auto simp: block_inv_def split: if_splits)
next
  case Park_Times_Out
  then show ?thesis
    using inv r by (cases "bo_park s") (auto simp: block_inv_def split: if_splits)
next
  case (Loop b)
  then show ?thesis
    using block_loop_inv [OF inv] r by (cases "bo_pc s") auto
next
  case Wake
  then show ?thesis using block_wake_inv [OF inv] r by (auto split: if_splits)
next
  case Unpark_Step
  then show ?thesis using block_unpark_inv(2) [OF inv] r by (auto split: if_splits)
next
  case (Hand_Worker i)
  then show ?thesis using block_unpark_inv(1) [OF inv] r by auto
qed (use inv r in \<open>auto simp: block_inv_def split: if_splits\<close>)

interpretation block: safe_machine block_step block_start block_inv
  by unfold_locales (use block_inv_start block_step_inv in fastforce)+



definition poll_once :: "'o block_action list" where
  "poll_once = [Advance, Advance, Advance]"

lemmas block_eval = block_start_def block_advance_def block_wake_def block_unpark_def poll_once_def
  task_state_new_def unpark_result_def


text \<open>
  A state that no step but a time-out or a hand-over leaves.
\<close>

definition asleep :: "'o block_on \<Rightarrow> bool" where
  "asleep s \<longleftrightarrow> bo_pc s = B_Parked \<and> bo_state s = TASK_SCHEDULED \<and> bo_park s = Park_Waiting \<and>
     bo_unparking s = 0"

lemma asleep_step:
  assumes "asleep s" "a \<noteq> Park_Times_Out" "\<And>i. a \<noteq> Hand_Worker i" "block_step a s = Some r"
  shows "r = Inr s"
  using assms
  by (cases a) (auto simp: asleep_def block_advance_def block_wake_def split: if_splits)

lemma asleep_run:
  assumes "asleep s" "Park_Times_Out \<notin> set steps" "\<And>i. Hand_Worker i \<notin> set steps"
    "run block_step s steps = Some (Inr s')"
  shows "s' = s"
  using assms(2-4)
proof (induction steps)
  case (Cons a steps)
  then obtain r where r: "block_step a s = Some r" by (auto split: option.splits)
  have "r = Inr s" by (rule asleep_step [OF assms(1) _ _ r]) (use Cons.prems in auto)
  then show ?case using Cons r by auto
qed simp

text \<open>
  A future that wakes itself during its poll and returns \<open>Pending\<close>, as \<open>yield_now\<close> does, is
  not polled again by a thread that finds nothing else to do: the waker only marks it, the
  thread makes it scheduled and parks without a notification, and from there no sequence of
  steps without a time-out (or a worker handed over for other work) moves the thread.
\<close>

theorem self_wake_sleeps:
  "\<exists>s. run block_step (block_start :: 'o block_on)
      (poll_once @ [Wake, Polled None, Advance, Advance, Advance, Searched False, Advance]) = Some (Inr s) \<and>
    bo_state s = TASK_SCHEDULED \<and> bo_polls s = 1 \<and>
    (\<forall>steps s'. Park_Times_Out \<notin> set steps \<and> (\<forall>i. Hand_Worker i \<notin> set steps) \<and>
       run block_step s steps = Some (Inr s') \<longrightarrow> bo_pc s' = B_Parked \<and> bo_polls s' = 1)"
proof -
  obtain s where r: "run block_step (block_start :: 'o block_on)
      (poll_once @ [Wake, Polled None, Advance, Advance, Advance, Searched False, Advance]) = Some (Inr s)"
    and s: "asleep s" "bo_polls s = 1"
    by (simp add: block_eval asleep_def)
  have "bo_pc s' = B_Parked \<and> bo_polls s' = 1"
    if "Park_Times_Out \<notin> set steps" "\<forall>i. Hand_Worker i \<notin> set steps" "run block_step s steps = Some (Inr s')"
    for steps s'
    using asleep_run [OF s(1) that(1) _ that(3)] that(2) s by (auto simp: asleep_def)
  with r s show ?thesis by (auto simp: asleep_def)
qed

theorem self_wake_sleeps_witness:
  "\<exists>s s'. run block_step (block_start :: nat block_on)
      (poll_once @ [Wake, Polled None, Advance, Advance, Advance, Searched False, Advance]) = Some (Inr s) \<and>
    run block_step s [Wake, Wake] = Some (Inr s') \<and> bo_pc s' = B_Parked \<and> bo_polls s' = 1"
  using self_wake_sleeps [where 'o = nat]
proof (elim exE conjE)
  fix s :: "nat block_on"
  assume r: "run block_step block_start
      (poll_once @ [Wake, Polled None, Advance, Advance, Advance, Searched False, Advance]) = Some (Inr s)"
    and s: "bo_state s = TASK_SCHEDULED" "bo_polls s = 1" and
    rest: "\<forall>steps s'. Park_Times_Out \<notin> set steps \<and> (\<forall>i. Hand_Worker i \<notin> set steps) \<and>
       run block_step s steps = Some (Inr s') \<longrightarrow> bo_pc s' = B_Parked \<and> bo_polls s' = 1"
  have w: "run block_step s [Wake, Wake] = Some (Inr (block_wake (block_wake s)))"
    using s by (simp add: block_wake_def Let_def)
  have "bo_pc (block_wake (block_wake s)) = B_Parked \<and> bo_polls (block_wake (block_wake s)) = 1"
    using w rest [rule_format, of "[Wake, Wake]" "block_wake (block_wake s)"] by simp
  then show ?thesis using r w by blast
qed

end
