(* ===== verification/Context_Tls.thy ===== *)
theory Context_Tls
  imports Prelude
begin

text \<open>
  \<open>src/src/runtime/internal/context.rs\<close> and the users of the current context in
  \<open>src/src/runtime/handle.rs\<close>: the thread-local that names the runtime a thread is in. Executors and
  contexts are named by numbers; a \<open>ContextRef\<close> is an entry of \<open>tl_refs\<close>, \<open>None\<close> once dropped.
\<close>

subsection \<open>The thread-local\<close>

record context_ref =
  cr_owned :: bool
  cr_context :: nat

record tls =
  tl_current :: "context_ref option"
  tl_executors :: "nat list"
  tl_refs :: "context_ref option list"

definition tls_start :: tls where
  "tls_start = \<lparr>tl_current = None, tl_executors = [], tl_refs = []\<rparr>"

text \<open>\<open>Clone for ContextRef\<close>.\<close>

definition ref_clone :: "context_ref \<Rightarrow> context_ref" where
  "ref_clone r = \<lparr>cr_owned = False, cr_context = cr_context r\<rparr>"

definition try_current :: "tls \<Rightarrow> context_ref option" where
  "try_current s = map_option ref_clone (tl_current s)"

definition current :: "tls \<Rightarrow> context_ref res" where
  "current s = (case try_current s of Some r \<Rightarrow> Inr r | None \<Rightarrow> Inl Expect_Failed)"

text \<open>\<open>Context::enter\<close> returns the reference the caller now holds.\<close>

definition enter :: "nat \<Rightarrow> tls \<Rightarrow> context_ref \<times> tls" where
  "enter ex s =
     (case tl_current s of
        Some r \<Rightarrow> (ref_clone r, s)
      | None \<Rightarrow>
          let r = \<lparr>cr_owned = True, cr_context = length (tl_executors s)\<rparr>
          in (r, s\<lparr>tl_executors := tl_executors s @ [ex], tl_current := Some (ref_clone r)\<rparr>))"

text \<open>\<open>Drop for ContextRef\<close>: \<open>drop_slow\<close> empties the thread-local, which must hold this context.\<close>

definition ref_drop :: "context_ref \<Rightarrow> tls \<Rightarrow> tls res" where
  "ref_drop r s =
     (if \<not> cr_owned r then Inr s
      else rbind (rassert (cr_owned r)) (\<lambda>_.
        let s1 = s\<lparr>tl_current := None\<rparr>
        in case tl_current s of
             Some old \<Rightarrow> rbind (rassert (cr_context old = cr_context r)) (\<lambda>_. Inr s1)
           | None \<Rightarrow> Inl Unreachable))"

text \<open>The executor of a context.\<close>

definition ref_executor :: "tls \<Rightarrow> context_ref \<Rightarrow> nat" where
  "ref_executor s r = tl_executors s ! cr_context r"

subsection \<open>The machine\<close>

text \<open>
  A thread that takes references (by \<open>enter\<close>, as \<open>Handle::enter\<close> and \<open>block_on\<close> do, by \<open>try_current\<close>, or by
  cloning) and drops them in any order.
\<close>

datatype tls_action = Enter_Context nat | Take_Current | Clone_Ref nat | Drop_Ref nat

fun tls_step :: "tls_action \<Rightarrow> tls \<Rightarrow> tls res option" where
  "tls_step (Enter_Context ex) s =
     Some (let (r, s1) = enter ex s in Inr (s1\<lparr>tl_refs := tl_refs s1 @ [Some r]\<rparr>))"
| "tls_step Take_Current s =
     (case try_current s of
        Some r \<Rightarrow> Some (Inr (s\<lparr>tl_refs := tl_refs s @ [Some r]\<rparr>))
      | None \<Rightarrow> None)"
| "tls_step (Clone_Ref n) s =
     (if n < length (tl_refs s)
      then (case tl_refs s ! n of
              Some r \<Rightarrow> Some (Inr (s\<lparr>tl_refs := tl_refs s @ [Some (ref_clone r)]\<rparr>))
            | None \<Rightarrow> None)
      else None)"
| "tls_step (Drop_Ref n) s =
     (if n < length (tl_refs s)
      then (case tl_refs s ! n of
              Some r \<Rightarrow> Some (ref_drop r (s\<lparr>tl_refs := (tl_refs s)[n := None]\<rparr>))
            | None \<Rightarrow> None)
      else None)"

text \<open>The contexts of the owned references that are alive.\<close>

definition owned_context :: "context_ref option \<Rightarrow> nat list" where
  "owned_context x = (case x of Some r \<Rightarrow> if cr_owned r then [cr_context r] else [] | None \<Rightarrow> [])"

definition owners :: "tls \<Rightarrow> nat multiset" where
  "owners s = tally (\<lambda>x. mset (owned_context x)) (tl_refs s)"

definition tls_inv :: "tls \<Rightarrow> bool" where
  "tls_inv s \<longleftrightarrow>
     owners s = (case tl_current s of Some r \<Rightarrow> {#cr_context r#} | None \<Rightarrow> {#}) \<and>
     (case tl_current s of Some r \<Rightarrow> \<not> cr_owned r \<and> cr_context r < length (tl_executors s) | None \<Rightarrow> True)"

lemma tls_inv_start: "tls_inv tls_start"
  by (simp add: tls_inv_def tls_start_def owners_def)

lemma tls_owners_drop:
  assumes "n < length (tl_refs s)" "tl_refs s ! n = Some r"
  shows "owners (s\<lparr>tl_refs := (tl_refs s)[n := None]\<rparr>) + mset (owned_context (Some r)) = owners s"
  using tally_update [OF assms(1), where x = None and f = "\<lambda>x. mset (owned_context x)"] assms(2)
  by (simp add: owners_def owned_context_def)

lemma tls_drop_inv:
  assumes inv: "tls_inv s" and n: "n < length (tl_refs s)" "tl_refs s ! n = Some r"
  shows "\<exists>s'. ref_drop r (s\<lparr>tl_refs := (tl_refs s)[n := None]\<rparr>) = Inr s' \<and> tls_inv s'"
proof (cases "cr_owned r")
  case True
  then have o: "add_mset (cr_context r) (owners (s\<lparr>tl_refs := (tl_refs s)[n := None]\<rparr>)) = owners s"
    using tls_owners_drop [OF n] by (simp add: owned_context_def)
  then obtain c where c: "tl_current s = Some c" "cr_context c = cr_context r"
      "owners (s\<lparr>tl_refs := (tl_refs s)[n := None]\<rparr>) = {#}"
    using inv by (cases "tl_current s") (auto simp: tls_inv_def)
  then show ?thesis using True by (simp add: ref_drop_def tls_inv_def owners_def)
next
  case False
  then have "owners (s\<lparr>tl_refs := (tl_refs s)[n := None]\<rparr>) = owners s"
    using tls_owners_drop [OF n] by (simp add: owned_context_def)
  then show ?thesis using False inv by (cases "tl_current s") (simp_all add: ref_drop_def tls_inv_def)
qed

lemma owners_append: "owners (s\<lparr>tl_refs := tl_refs s @ [x]\<rparr>) = owners s + mset (owned_context x)"
  by (simp add: owners_def)

lemma tls_step_inv:
  assumes inv: "tls_inv s" and r: "tls_step a s = Some r"
  shows "\<exists>s'. r = Inr s' \<and> tls_inv s'"
proof (cases a)
  case (Enter_Context ex)
  show ?thesis
  proof (cases "tl_current s")
    case None
    then show ?thesis
      using Enter_Context inv r
      by (auto simp: enter_def Let_def tls_inv_def owners_def owned_context_def ref_clone_def)
  next
    case (Some c)
    then show ?thesis
      using Enter_Context inv r
      by (auto simp: enter_def tls_inv_def owners_def owned_context_def ref_clone_def)
  qed
next
  case (Drop_Ref n)
  then show ?thesis
    using r tls_drop_inv [OF inv, of n] by (auto split: if_splits option.splits)
qed (use inv r in \<open>auto simp: try_current_def tls_inv_def owners_def owned_context_def ref_clone_def
    split: if_splits option.splits\<close>)

interpretation tls: safe_machine tls_step tls_start tls_inv
  by unfold_locales (use tls_inv_start tls_step_inv in fastforce)+

text \<open>
  C37: entering a runtime, cloning contexts and dropping the guards in any order never panics,
  and the thread-local is set exactly while the one guard that set it is alive: the
  context it names is the one that guard owns.
\<close>

theorem context_has_one_owner:
  assumes "reach tls_step tls_start s"
  shows "(case tls_step a s of Some (Inl p) \<Rightarrow> False | _ \<Rightarrow> True) \<and>
    owners s = (case tl_current s of Some r \<Rightarrow> {#cr_context r#} | None \<Rightarrow> {#})"
  using tls.reach_no_panic [OF assms] tls.reach_inv [OF assms]
  by (auto simp: tls_inv_def split: option.split sum.split)

theorem context_has_one_owner_witness:
  "\<exists>s. run tls_step tls_start [Enter_Context 5, Enter_Context 9] = Some (Inr s) \<and>
     tl_current s = Some \<lparr>cr_owned = False, cr_context = 0\<rparr> \<and> owners s = {#0#}"
proof -
  obtain s where r: "run tls_step tls_start [Enter_Context 5, Enter_Context 9] = Some (Inr s)"
    and c: "tl_current s = Some \<lparr>cr_owned = False, cr_context = 0\<rparr>"
    by (simp add: tls_start_def enter_def Let_def ref_clone_def)
  from context_has_one_owner [OF run_reach [OF r]] r c show ?thesis by simp
qed

subsection \<open>\<open>Handle\<close>\<close>

text \<open>
  A handle is the name of its executor. \<open>handle_enter\<close> returns the guard's reference.
\<close>

definition handle_current :: "tls \<Rightarrow> nat res" where
  "handle_current s = rbind (current s) (\<lambda>r. Inr (ref_executor s r))"

definition handle_try_current :: "tls \<Rightarrow> nat option" where
  "handle_try_current s = map_option (ref_executor s) (try_current s)"

definition handle_enter :: "nat \<Rightarrow> tls \<Rightarrow> context_ref \<times> tls" where
  "handle_enter handle s = enter handle s"

text \<open>
  Entering a runtime inside another one does not change the current runtime: the handle
  that \<open>Handle::current\<close> returns after \<open>enter\<close> is the entered one only outside of every
  runtime, and otherwise the one that was current before.
\<close>

theorem enter_keeps_the_outer_runtime:
  assumes "reach tls_step tls_start s"
  shows "handle_current (snd (handle_enter handle s)) =
    Inr (case handle_try_current s of Some outer \<Rightarrow> outer | None \<Rightarrow> handle)"
  using tls.reach_inv [OF assms]
  by (auto simp: handle_current_def handle_enter_def handle_try_current_def enter_def current_def
      try_current_def ref_executor_def ref_clone_def tls_inv_def Let_def split: option.splits)

theorem enter_keeps_the_outer_runtime_witness:
  "\<exists>s. run tls_step tls_start [Enter_Context 5] = Some (Inr s) \<and>
     handle_current (snd (handle_enter 9 s)) = Inr 5"
proof -
  obtain s where r: "run tls_step tls_start [Enter_Context 5] = Some (Inr s)"
    and h: "handle_try_current s = Some 5"
    by (simp add: tls_start_def enter_def Let_def handle_try_current_def try_current_def
        ref_clone_def ref_executor_def)
  from enter_keeps_the_outer_runtime [OF run_reach [OF r], of 9] r h show ?thesis by auto
qed

end
