(* ===== verification/Run_Queue.thy ===== *)
theory Run_Queue
  imports Prelude
begin

text \<open>
  \<open>src/src/runtime/internal/queue.rs\<close>: the run queue of a worker and the injector. The deques
  of \<open>crossbeam_deque\<close> are a parameter, the record \<open>deque_api\<close>, and what the crate documents
  of them is the hypothesis \<open>deque_laws\<close>: \<open>contents\<close> and \<open>injected\<close> are the tasks of a deque
  and of the injector, the oldest first.
\<close>

subsection \<open>The deques\<close>

datatype 'r steal = Steal_Empty | Steal_Success 'r | Steal_Retry

text \<open>\<open>Steal::success\<close>.\<close>

definition steal_success :: "'r steal \<Rightarrow> 'r option" where
  "steal_success st = (case st of Steal_Success r \<Rightarrow> Some r | _ \<Rightarrow> None)"

text \<open>
  The source of a batch comes before its destination, in the arguments and in the result.
\<close>

record ('d, 'j, 'r) deque_api =
  da_new :: 'd
  da_push :: "'r \<Rightarrow> 'd \<Rightarrow> 'd"
  da_pop :: "'d \<Rightarrow> 'r option \<times> 'd"
  da_steal :: "'d \<Rightarrow> 'r steal \<times> 'd"
  da_batch :: "'d \<Rightarrow> 'd \<Rightarrow> 'r steal \<times> 'd \<times> 'd"
  da_inj_new :: 'j
  da_inj_push :: "'r \<Rightarrow> 'j \<Rightarrow> 'j"
  da_inj_is_empty :: "'j \<Rightarrow> bool"
  da_inj_batch :: "'j \<Rightarrow> 'd \<Rightarrow> 'r steal \<times> 'j \<times> 'd"

text \<open>A steal that moved the tasks \<open>src\<close> and \<open>dst\<close> into \<open>src'\<close>, \<open>dst'\<close> and its result.\<close>

fun moved :: "'r list \<Rightarrow> 'r list \<Rightarrow> 'r steal \<Rightarrow> 'r list \<Rightarrow> 'r list \<Rightarrow> bool" where
  "moved src dst Steal_Empty src' dst' = (src = [] \<and> src' = [] \<and> dst' = dst)"
| "moved src dst Steal_Retry src' dst' = (src' = src \<and> dst' = dst)"
| "moved src dst (Steal_Success r) src' dst' = (mset src + mset dst = add_mset r (mset src' + mset dst'))"

definition deque_laws :: "('d, 'j, 'r) deque_api \<Rightarrow> ('d \<Rightarrow> 'r list) \<Rightarrow> ('j \<Rightarrow> 'r list) \<Rightarrow> bool" where
  "deque_laws api contents injected \<longleftrightarrow>
     contents (da_new api) = [] \<and> injected (da_inj_new api) = [] \<and>
     (\<forall>r d. contents (da_push api r d) = contents d @ [r]) \<and>
     (\<forall>d. case da_pop api d of
        (None, d') \<Rightarrow> contents d = [] \<and> contents d' = []
      | (Some r, d') \<Rightarrow> contents d = contents d' @ [r]) \<and>
     (\<forall>d. case da_steal api d of
        (Steal_Empty, d') \<Rightarrow> contents d = [] \<and> contents d' = []
      | (Steal_Success r, d') \<Rightarrow> contents d = r # contents d'
      | (Steal_Retry, d') \<Rightarrow> contents d' = contents d) \<and>
     (\<forall>d e. case da_batch api d e of
        (st, d', e') \<Rightarrow> moved (contents d) (contents e) st (contents d') (contents e')) \<and>
     (\<forall>r j. injected (da_inj_push api r j) = injected j @ [r]) \<and>
     (\<forall>j. da_inj_is_empty api j \<longleftrightarrow> injected j = []) \<and>
     (\<forall>j d. case da_inj_batch api j d of
        (st, j', d') \<Rightarrow> moved (injected j) (contents d) st (injected j') (contents d'))"

text \<open>The deque that is its list of tasks, on which a batch moves one task only.\<close>

definition list_pop :: "'r list \<Rightarrow> 'r option \<times> 'r list" where
  "list_pop d = (if d = [] then (None, []) else (Some (last d), butlast d))"

definition list_steal :: "'r list \<Rightarrow> 'r steal \<times> 'r list" where
  "list_steal d = (case d of [] \<Rightarrow> (Steal_Empty, []) | r # rs \<Rightarrow> (Steal_Success r, rs))"

definition list_batch :: "'r list \<Rightarrow> 'r list \<Rightarrow> 'r steal \<times> 'r list \<times> 'r list" where
  "list_batch d e = (case d of [] \<Rightarrow> (Steal_Empty, [], e) | r # rs \<Rightarrow> (Steal_Success r, rs, e))"

definition list_deques :: "('r list, 'r list, 'r) deque_api" where
  "list_deques = \<lparr>da_new = [], da_push = (\<lambda>r d. d @ [r]), da_pop = list_pop, da_steal = list_steal,
     da_batch = list_batch, da_inj_new = [], da_inj_push = (\<lambda>r j. j @ [r]),
     da_inj_is_empty = (\<lambda>j. j = []), da_inj_batch = list_batch\<rparr>"

lemma list_deques_laws: "deque_laws list_deques (\<lambda>d. d) (\<lambda>j. j)"
  by (auto simp: deque_laws_def list_deques_def list_pop_def list_steal_def list_batch_def split: list.split)

subsection \<open>\<open>Injector\<close> and \<open>Producer\<close>\<close>

definition injector_push :: "('d, 'j, 'r) deque_api \<Rightarrow> 'r \<Rightarrow> 'j \<Rightarrow> 'j" where
  "injector_push api r j = da_inj_push api r j"

definition injector_pending :: "('d, 'j, 'r) deque_api \<Rightarrow> 'j \<Rightarrow> bool" where
  "injector_pending api j = (\<not> da_inj_is_empty api j)"

record 'd producer =
  pr_be_fair :: bool
  pr_deque :: 'd

definition producer_new :: "('d, 'j, 'r) deque_api \<Rightarrow> 'd producer" where
  "producer_new api = \<lparr>pr_be_fair = False, pr_deque = da_new api\<rparr>"

definition producer_push :: "('d, 'j, 'r) deque_api \<Rightarrow> 'r \<Rightarrow> bool \<Rightarrow> 'd producer \<Rightarrow> 'd producer" where
  "producer_push api r be_fair p =
     (let p1 = p\<lparr>pr_deque := da_push api r (pr_deque p)\<rparr>
      in if be_fair then p1\<lparr>pr_be_fair := True\<rparr> else p1)"

text \<open>The loop of \<open>pop\<close>; \<open>None\<close> is a loop that never ends.\<close>

partial_function (option) steal_loop :: "('d, 'j, 'r) deque_api \<Rightarrow> 'd \<Rightarrow> ('r option \<times> 'd) option" where
  "steal_loop api d =
     (case da_steal api d of
        (Steal_Success r, d') \<Rightarrow> Some (Some r, d')
      | (Steal_Empty, d') \<Rightarrow> Some (None, d')
      | (Steal_Retry, d') \<Rightarrow> steal_loop api d')"

declare steal_loop.simps [code]

definition producer_pop :: "('d, 'j, 'r) deque_api \<Rightarrow> bool \<Rightarrow> 'd producer \<Rightarrow> ('r option \<times> 'd producer) option" where
  "producer_pop api be_fair p =
     (let (fair, p1) = (if be_fair then (True, p) else (pr_be_fair p, p\<lparr>pr_be_fair := False\<rparr>))
      in if \<not> fair
         then (let (r, d) = da_pop api (pr_deque p1) in Some (r, p1\<lparr>pr_deque := d\<rparr>))
         else map_option (\<lambda>(r, d). (r, p1\<lparr>pr_deque := d\<rparr>)) (steal_loop api (pr_deque p1)))"

definition producer_steal :: "('d, 'j, 'r) deque_api \<Rightarrow> 'd \<Rightarrow> 'd producer \<Rightarrow> 'r steal \<times> 'd \<times> 'd producer" where
  "producer_steal api source p =
     (let (st, source', d) = da_batch api source (pr_deque p) in (st, source', p\<lparr>pr_deque := d\<rparr>))"

definition producer_consume :: "('d, 'j, 'r) deque_api \<Rightarrow> 'j \<Rightarrow> 'd producer \<Rightarrow> 'r steal \<times> 'j \<times> 'd producer" where
  "producer_consume api j p =
     (let (st, j', d) = da_inj_batch api j (pr_deque p) in (st, j', p\<lparr>pr_deque := d\<rparr>))"

subsection \<open>Facts\<close>

text \<open>A deque on which a steal is not contended for ever.\<close>

definition steals_settle :: "('d, 'j, 'r) deque_api \<Rightarrow> 'd \<Rightarrow> nat \<Rightarrow> bool" where
  "steals_settle api d n \<longleftrightarrow> fst (da_steal api (((snd \<circ> da_steal api) ^^ n) d)) \<noteq> Steal_Retry"

lemma da_steal_law:
  assumes "deque_laws api contents injected"
  shows "case da_steal api d of
      (Steal_Empty, d') \<Rightarrow> contents d = [] \<and> contents d' = []
    | (Steal_Success r, d') \<Rightarrow> contents d = r # contents d'
    | (Steal_Retry, d') \<Rightarrow> contents d' = contents d"
  using assms by (simp add: deque_laws_def)

lemma steal_loop_ends:
  assumes laws: "deque_laws api contents injected" and "steals_settle api d n"
  shows "\<exists>d'. steal_loop api d = Some (case contents d of [] \<Rightarrow> None | r # rs \<Rightarrow> Some r, d') \<and>
     contents d' = tl (contents d)"
  using assms(2)
proof (induction n arbitrary: d)
  case 0
  note l = da_steal_law [OF laws, of d]
  then show ?case
    using 0 by (auto simp: steals_settle_def steal_loop.simps [of api d] split: prod.splits steal.splits)
next
  case (Suc n)
  obtain st d1 where s: "da_steal api d = (st, d1)" by (cases "da_steal api d")
  note l = da_steal_law [OF laws, of d]
  have "steals_settle api d1 n"
    using Suc.prems s by (simp add: steals_settle_def funpow_swap1)
  from Suc.IH [OF this] l s show ?case
    by (auto simp: steal_loop.simps [of api d] split: steal.splits)
qed

lemma da_pop_law:
  assumes "deque_laws api contents injected"
  shows "case da_pop api d of
      (None, d') \<Rightarrow> contents d = [] \<and> contents d' = []
    | (Some r, d') \<Rightarrow> contents d = contents d' @ [r]"
  using assms by (simp add: deque_laws_def)

lemma producer_pop_eq:
  assumes "deque_laws api contents injected" "steals_settle api (pr_deque p) n"
  shows "\<exists>r p'. producer_pop api be_fair p = Some (r, p') \<and>
    (case contents (pr_deque p) of
       [] \<Rightarrow> r = None \<and> contents (pr_deque p') = []
     | t # ts \<Rightarrow>
         if be_fair \<or> pr_be_fair p
         then r = Some t \<and> contents (pr_deque p') = ts
         else r = Some (last (t # ts)) \<and> contents (pr_deque p') = butlast (t # ts))"
proof (cases "be_fair \<or> pr_be_fair p")
  case True
  from steal_loop_ends [OF assms] obtain d' where
    "steal_loop api (pr_deque p) = Some (case contents (pr_deque p) of [] \<Rightarrow> None | r # rs \<Rightarrow> Some r, d')"
    "contents d' = tl (contents (pr_deque p))" by blast
  then show ?thesis
    using True by (cases "contents (pr_deque p)"; cases be_fair) (auto simp: producer_pop_def)
next
  case False
  obtain r d where pop: "da_pop api (pr_deque p) = (r, d)" by (cases "da_pop api (pr_deque p)")
  then have run: "producer_pop api be_fair p = Some (r, p\<lparr>pr_be_fair := False, pr_deque := d\<rparr>)"
    using False by (simp add: producer_pop_def)
  note l = da_pop_law [OF assms(1), of "pr_deque p", unfolded pop]
  show ?thesis
  proof (cases r)
    case None
    then show ?thesis using run l False by auto
  next
    case (Some y)
    then have c: "contents (pr_deque p) = contents d @ [y]" using l by simp
    then obtain t ts where t: "contents (pr_deque p) = t # ts" by (cases "contents d") simp_all
    have "last (t # ts) = y" "butlast (t # ts) = contents d"
      unfolding t [symmetric] c by simp_all
    then show ?thesis using run Some t False by simp
  qed
qed

text \<open>
  \<open>Producer::pop\<close> returns, as long as its steals are not contended for ever, and takes the
  newest task of the run queue or, when the caller or the last fair push asked for it, the
  oldest one; only an empty queue gives \<open>None\<close>, and every other task stays in its order.
\<close>

theorem producer_pop_takes_an_end:
  assumes "deque_laws api contents injected" "steals_settle api (pr_deque p) n"
  shows "\<exists>r p'. producer_pop api be_fair p = Some (r, p') \<and>
    (case contents (pr_deque p) of
       [] \<Rightarrow> r = None \<and> contents (pr_deque p') = []
     | t # ts \<Rightarrow>
         if be_fair \<or> pr_be_fair p
         then r = Some t \<and> contents (pr_deque p') = ts
         else r = Some (last (t # ts)) \<and> contents (pr_deque p') = butlast (t # ts))"
  by (rule producer_pop_eq [OF assms])

theorem producer_pop_takes_an_end_witness:
  "\<exists>r p'. producer_pop list_deques False \<lparr>pr_be_fair = True, pr_deque = [1, 2, 3 :: nat]\<rparr> = Some (r, p') \<and>
     r = Some 1 \<and> pr_deque p' = [2, 3]"
proof -
  have "steals_settle list_deques [1, 2, 3 :: nat] 0"
    by (simp add: steals_settle_def list_deques_def list_steal_def)
  from producer_pop_takes_an_end [OF list_deques_laws, of
      "\<lparr>pr_be_fair = True, pr_deque = [1, 2, 3 :: nat]\<rparr>" 0 False] this
  show ?thesis by simp
qed

text \<open>Moving tasks between queues neither loses nor duplicates one.\<close>

lemma moved_mset:
  "moved src dst st src' dst' \<Longrightarrow>
   mset src + mset dst = mset src' + mset dst' + (case st of Steal_Success r \<Rightarrow> {#r#} | _ \<Rightarrow> {#})"
  by (cases st) auto

lemma da_batch_law:
  assumes "deque_laws api contents injected"
  shows "case da_batch api d e of
    (st, d', e') \<Rightarrow> moved (contents d) (contents e) st (contents d') (contents e')"
  using assms by (simp add: deque_laws_def)

lemma da_inj_batch_law:
  assumes "deque_laws api contents injected"
  shows "case da_inj_batch api j d of
    (st, j', d') \<Rightarrow> moved (injected j) (contents d) st (injected j') (contents d')"
  using assms by (simp add: deque_laws_def)

lemma producer_steal_mset:
  assumes "deque_laws api contents injected" "producer_steal api source p = (st, source', p')"
  shows "mset (contents source) + mset (contents (pr_deque p)) =
    mset (contents source') + mset (contents (pr_deque p')) +
      (case st of Steal_Success r \<Rightarrow> {#r#} | _ \<Rightarrow> {#})"
    "pr_be_fair p' = pr_be_fair p"
proof -
  obtain s2 d where b: "da_batch api source (pr_deque p) = (st, s2, d)" "source' = s2" "p' = p\<lparr>pr_deque := d\<rparr>"
    using assms(2) by (auto simp: producer_steal_def Let_def split: prod.splits)
  have "moved (contents source) (contents (pr_deque p)) st (contents s2) (contents d)"
    using da_batch_law [OF assms(1), of source "pr_deque p"] b(1) by simp
  from moved_mset [OF this] b show "mset (contents source) + mset (contents (pr_deque p)) =
    mset (contents source') + mset (contents (pr_deque p')) +
      (case st of Steal_Success r \<Rightarrow> {#r#} | _ \<Rightarrow> {#})" "pr_be_fair p' = pr_be_fair p" by simp_all
qed

lemma producer_consume_mset:
  assumes "deque_laws api contents injected" "producer_consume api j p = (st, j', p')"
  shows "mset (injected j) + mset (contents (pr_deque p)) =
    mset (injected j') + mset (contents (pr_deque p')) +
      (case st of Steal_Success r \<Rightarrow> {#r#} | _ \<Rightarrow> {#})"
    "pr_be_fair p' = pr_be_fair p"
proof -
  obtain j2 d where b: "da_inj_batch api j (pr_deque p) = (st, j2, d)" "j' = j2" "p' = p\<lparr>pr_deque := d\<rparr>"
    using assms(2) by (auto simp: producer_consume_def Let_def split: prod.splits)
  have "moved (injected j) (contents (pr_deque p)) st (injected j2) (contents d)"
    using da_inj_batch_law [OF assms(1), of j "pr_deque p"] b(1) by simp
  from moved_mset [OF this] b show "mset (injected j) + mset (contents (pr_deque p)) =
    mset (injected j') + mset (contents (pr_deque p')) +
      (case st of Steal_Success r \<Rightarrow> {#r#} | _ \<Rightarrow> {#})" "pr_be_fair p' = pr_be_fair p" by simp_all
qed

text \<open>A \<open>pop\<close> removes the task it returns and no other.\<close>

definition option_mset :: "'r option \<Rightarrow> 'r multiset" where
  "option_mset r = (case r of None \<Rightarrow> {#} | Some t \<Rightarrow> {#t#})"

lemma option_mset_simps [simp]: "option_mset None = {#}" "option_mset (Some t) = {#t#}"
  by (simp_all add: option_mset_def)

lemma option_mset_steal: "option_mset (steal_success st) = (case st of Steal_Success r \<Rightarrow> {#r#} | _ \<Rightarrow> {#})"
  by (cases st) (simp_all add: steal_success_def)

definition loop_takes :: "('d, 'j, 'r) deque_api \<Rightarrow> ('d \<Rightarrow> 'r list) \<Rightarrow> ('d, 'j, 'r) deque_api \<Rightarrow> 'd \<Rightarrow>
    'r option \<times> 'd \<Rightarrow> bool" where
  "loop_takes api contents a d y \<longleftrightarrow> a = api \<longrightarrow> mset (contents d) = mset (contents (snd y)) + option_mset (fst y)"

lemma steal_loop_mset:
  fixes api :: "('d, 'j, 'r) deque_api"
  assumes laws: "deque_laws api contents injected" and run: "steal_loop api d = Some (r, d')"
  shows "mset (contents d) = mset (contents d') + option_mset r"
proof -
  have "loop_takes api contents api d (r, d')"
  proof (rule steal_loop.raw_induct [where P = "loop_takes api contents", OF _ run])
    fix loop :: "('d, 'j, 'r) deque_api \<Rightarrow> 'd \<Rightarrow> ('r option \<times> 'd) option" and a e y
    assume IH: "\<And>a e y. loop a e = Some y \<Longrightarrow> loop_takes api contents a e y"
      and eq: "(case da_steal a e of (Steal_Success r, d') \<Rightarrow> Some (Some r, d')
        | (Steal_Empty, d') \<Rightarrow> Some (None, d') | (Steal_Retry, d') \<Rightarrow> loop a d') = Some y"
    obtain st e1 where st: "da_steal a e = (st, e1)" by (cases "da_steal a e")
    have law: "a = api \<Longrightarrow> case st of
        Steal_Empty \<Rightarrow> contents e = [] \<and> contents e1 = []
      | Steal_Success r \<Rightarrow> contents e = r # contents e1
      | Steal_Retry \<Rightarrow> contents e1 = contents e"
      using da_steal_law [OF laws, of e] st by simp
    show "loop_takes api contents a e y"
    proof (cases st)
      case Steal_Retry
      then have "loop_takes api contents a e1 y" using eq st IH [of a e1 y] by simp
      then show ?thesis using law Steal_Retry by (simp add: loop_takes_def)
    qed (use eq st law in \<open>auto simp: loop_takes_def\<close>)
  qed
  then show ?thesis by (simp add: loop_takes_def)
qed

lemma producer_pop_mset:
  assumes laws: "deque_laws api contents injected" and run: "producer_pop api be_fair p = Some (r, p')"
  shows "mset (contents (pr_deque p)) = mset (contents (pr_deque p')) + option_mset r"
proof (cases "be_fair \<or> pr_be_fair p")
  case True
  then obtain d' where "steal_loop api (pr_deque p) = Some (r, d')" "pr_deque p' = d'"
    using run by (cases be_fair) (auto simp: producer_pop_def split: if_splits)
  then show ?thesis using steal_loop_mset [OF laws] by simp
next
  case False
  obtain x d where pop: "da_pop api (pr_deque p) = (x, d)" by (cases "da_pop api (pr_deque p)")
  then have "x = r" "pr_deque p' = d" using run False by (auto simp: producer_pop_def)
  then show ?thesis using da_pop_law [OF laws, of "pr_deque p"] pop by (cases r) auto
qed

end
