(* ===== verification/Dispatch.thy ===== *)
theory Dispatch
  imports Run_Queue Task_State
begin

text \<open>
  Where a task goes when it is scheduled: \<open>Executor::schedule\<close> and \<open>Executor::inject\<close> of
  \<open>src/src/runtime/internal/executor.rs\<close>, \<open>Task::schedule\<close> of \<open>src/src/runtime/internal/task.rs\<close> and
  the ways to spawn in \<open>src/src/runtime/handle.rs\<close> and \<open>src/src/task.rs\<close>. Executors are named by numbers.
\<close>

subsection \<open>State\<close>

text \<open>
  The fields of a thread's \<open>Context\<close>, and of each executor the injector with the numbers of
  calls of \<open>notify\<close> and of \<open>task_begin\<close>; what these calls do is in the scheduler and the pool.
\<close>

record ('d, 'r) rt_context =
  cx_executor :: nat
  cx_worker :: "nat option"
  cx_producer :: "'d producer option"
  cx_intercept :: "'r list option"

record 'j dispatch =
  dx_injector :: 'j
  dx_notifies :: nat
  dx_begun :: nat

type_synonym 'j executors = "nat \<Rightarrow> 'j dispatch"

definition context_enter :: "nat \<Rightarrow> ('d, 'r) rt_context" where
  "context_enter ex = \<lparr>cx_executor = ex, cx_worker = None, cx_producer = None, cx_intercept = None\<rparr>"

subsection \<open>Operations\<close>

definition executor_notify :: "nat \<Rightarrow> 'j executors \<Rightarrow> 'j executors" where
  "executor_notify ex xs = xs(ex := (xs ex)\<lparr>dx_notifies := dx_notifies (xs ex) + 1\<rparr>)"

definition executor_inject :: "('d, 'j, 'r) deque_api \<Rightarrow> nat \<Rightarrow> 'r list \<Rightarrow> 'j executors \<Rightarrow> 'j executors" where
  "executor_inject api ex rs xs =
     executor_notify ex (xs(ex := (xs ex)\<lparr>dx_injector := fold (injector_push api) rs (dx_injector (xs ex))\<rparr>))"

text \<open>The result is the caller's context, when there is one, and the executors.\<close>

definition executor_schedule :: "('d, 'j, 'r) deque_api \<Rightarrow> nat \<Rightarrow> 'r \<Rightarrow> ('d, 'r) rt_context option \<Rightarrow> bool \<Rightarrow>
    'j executors \<Rightarrow> (('d, 'r) rt_context option \<times> 'j executors) res" where
  "executor_schedule api ex r ctx be_fair xs =
     (case ctx of
        None \<Rightarrow> Inr (None, executor_inject api ex [r] xs)
      | Some c \<Rightarrow>
          rbind (rassert (ex = cx_executor c)) (\<lambda>_.
            case cx_intercept c of
              Some intercept \<Rightarrow> Inr (Some (c\<lparr>cx_intercept := Some (intercept @ [r])\<rparr>), xs)
            | None \<Rightarrow>
                (case cx_producer c of
                   Some p \<Rightarrow>
                     Inr (Some (c\<lparr>cx_producer := Some (producer_push api r be_fair p)\<rparr>), executor_notify ex xs)
                 | None \<Rightarrow> Inr (Some c, executor_inject api ex [r] xs))))"

text \<open>
  \<open>Task::schedule\<close>, called by a waker: the executor of the thread's context if there is one,
  and the task's own otherwise. \<open>Handle::spawn\<close> always takes the handle's executor.
\<close>

definition task_schedule :: "('d, 'j, 'r) deque_api \<Rightarrow> nat \<Rightarrow> 'r \<Rightarrow> ('d, 'r) rt_context option \<Rightarrow>
    'j executors \<Rightarrow> (('d, 'r) rt_context option \<times> 'j executors) res" where
  "task_schedule api own r ctx xs =
     (case ctx of
        Some c \<Rightarrow> executor_schedule api (cx_executor c) r (Some c) False xs
      | None \<Rightarrow> executor_schedule api own r None False xs)"

text \<open>
  \<open>Task::spawn\<close> counts the task, makes its fresh state scheduled and schedules it; \<open>r\<close> is the new
  task.
\<close>

definition task_begun :: "nat \<Rightarrow> 'j executors \<Rightarrow> 'j executors" where
  "task_begun ex xs = xs(ex := (xs ex)\<lparr>dx_begun := dx_begun (xs ex) + 1\<rparr>)"

definition task_spawn_on :: "('d, 'j, 'r) deque_api \<Rightarrow> nat \<Rightarrow> 'r \<Rightarrow> ('d, 'r) rt_context option \<Rightarrow>
    'j executors \<Rightarrow> (u8 \<times> ('d, 'r) rt_context option \<times> 'j executors) res" where
  "task_spawn_on api ex r ctx xs =
     (let (won, st) = to_scheduled task_state_new
      in rbind (rassert won) (\<lambda>_.
         rbind (executor_schedule api ex r ctx False (task_begun ex xs)) (\<lambda>(ctx', xs'). Inr (st, ctx', xs'))))"

definition handle_spawn :: "('d, 'j, 'r) deque_api \<Rightarrow> nat \<Rightarrow> 'r \<Rightarrow> ('d, 'r) rt_context option \<Rightarrow>
    'j executors \<Rightarrow> (u8 \<times> ('d, 'r) rt_context option \<times> 'j executors) res" where
  "handle_spawn api handle r ctx xs = task_spawn_on api handle r ctx xs"

definition spawn :: "('d, 'j, 'r) deque_api \<Rightarrow> 'r \<Rightarrow> ('d, 'r) rt_context option \<Rightarrow>
    'j executors \<Rightarrow> (u8 \<times> ('d, 'r) rt_context option \<times> 'j executors) res" where
  "spawn api r ctx xs =
     (case ctx of
        None \<Rightarrow> Inl Expect_Failed
      | Some c \<Rightarrow> task_spawn_on api (cx_executor c) r (Some c) xs)"

subsection \<open>Where the tasks are\<close>

text \<open>The tasks a context holds, and those of an executor's injector.\<close>

definition context_tasks :: "('d \<Rightarrow> 'r list) \<Rightarrow> ('d, 'r) rt_context option \<Rightarrow> 'r multiset" where
  "context_tasks contents ctx =
     (case ctx of
        None \<Rightarrow> {#}
      | Some c \<Rightarrow>
          (case cx_intercept c of Some rs \<Rightarrow> mset rs | None \<Rightarrow> {#}) +
          (case cx_producer c of Some p \<Rightarrow> mset (contents (pr_deque p)) | None \<Rightarrow> {#}))"

definition injector_tasks :: "('j \<Rightarrow> 'r list) \<Rightarrow> nat \<Rightarrow> 'j executors \<Rightarrow> 'r multiset" where
  "injector_tasks injected ex xs = mset (injected (dx_injector (xs ex)))"

lemma fold_injector_push:
  "deque_laws api contents injected \<Longrightarrow> injected (fold (injector_push api) rs j) = injected j @ rs"
proof (induction rs arbitrary: j)
  case (Cons r rs)
  have "injected (injector_push api r j) = injected j @ [r]"
    using Cons.prems by (simp add: deque_laws_def injector_push_def)
  then show ?case using Cons by simp
qed simp

lemma executor_notify_simps [simp]:
  "dx_injector (executor_notify ex xs e) = dx_injector (xs e)"
  "injector_tasks injected e (executor_notify ex xs) = injector_tasks injected e xs"
  "e \<noteq> ex \<Longrightarrow> executor_notify ex xs e = xs e"
  "dx_notifies (executor_notify ex xs ex) = dx_notifies (xs ex) + 1"
  by (simp_all add: executor_notify_def injector_tasks_def)

lemma executor_inject_other [simp]: "e \<noteq> ex \<Longrightarrow> executor_inject api ex rs xs e = xs e"
  by (simp add: executor_inject_def)

lemma executor_inject_tasks:
  assumes "deque_laws api contents injected"
  shows "injector_tasks injected e (executor_inject api ex rs xs) =
    injector_tasks injected e xs + (if e = ex then mset rs else {#})"
    "dx_notifies (executor_inject api ex rs xs ex) = dx_notifies (xs ex) + 1"
  using fold_injector_push [OF assms]
  by (simp_all add: executor_inject_def injector_tasks_def executor_notify_def)

lemma producer_push_contents:
  "deque_laws api contents injected \<Longrightarrow>
   contents (pr_deque (producer_push api r be_fair p)) = contents (pr_deque p) @ [r]"
  by (simp add: producer_push_def Let_def deque_laws_def)

lemma executor_schedule_tasks:
  assumes "deque_laws api contents injected"
  shows "case executor_schedule api ex r ctx be_fair xs of
      Inl p \<Rightarrow> p = Assert_Failed \<and> (\<exists>c. ctx = Some c \<and> cx_executor c \<noteq> ex)
    | Inr (ctx', xs') \<Rightarrow>
        (\<forall>c. ctx = Some c \<longrightarrow> cx_executor c = ex) \<and>
        context_tasks contents ctx' + injector_tasks injected ex xs' =
          add_mset r (context_tasks contents ctx + injector_tasks injected ex xs) \<and>
        (\<forall>e. e \<noteq> ex \<longrightarrow> xs' e = xs e) \<and>
        dx_notifies (xs' ex) =
          dx_notifies (xs ex) + (if \<exists>c q. ctx = Some c \<and> cx_intercept c = Some q then 0 else 1)"
proof -
  note inj = executor_inject_tasks [OF assms] and push = producer_push_contents [OF assms]
  show ?thesis
    by (auto simp: executor_schedule_def context_tasks_def inj push rassert_def ac_simps split: option.splits)
qed

text \<open>
  Scheduling puts a task into exactly one place of its executor: the intercepting poller of
  the thread, else the run queue of the worker the thread runs, else the injector; in the
  last two cases the executor is notified, and no other task moves. The call panics
  exactly when the thread is in another runtime.
\<close>

theorem schedule_puts_the_task_once:
  assumes "deque_laws api contents injected"
  shows "case executor_schedule api ex r ctx be_fair xs of
      Inl p \<Rightarrow> p = Assert_Failed \<and> (\<exists>c. ctx = Some c \<and> cx_executor c \<noteq> ex)
    | Inr (ctx', xs') \<Rightarrow>
        (\<forall>c. ctx = Some c \<longrightarrow> cx_executor c = ex) \<and>
        context_tasks contents ctx' + injector_tasks injected ex xs' =
          add_mset r (context_tasks contents ctx + injector_tasks injected ex xs) \<and>
        (\<forall>e. e \<noteq> ex \<longrightarrow> xs' e = xs e) \<and>
        dx_notifies (xs' ex) =
          dx_notifies (xs ex) + (if \<exists>c q. ctx = Some c \<and> cx_intercept c = Some q then 0 else 1)"
  by (rule executor_schedule_tasks [OF assms])

theorem schedule_puts_the_task_once_witness:
  "case executor_schedule list_deques 0 (7 :: nat) None False
      (\<lambda>_. \<lparr>dx_injector = [], dx_notifies = 0, dx_begun = 0\<rparr>) of
    Inl p \<Rightarrow> False
  | Inr (ctx', xs') \<Rightarrow> context_tasks (\<lambda>d. d) ctx' + injector_tasks (\<lambda>j. j) 0 xs' = {#7#} \<and>
      dx_notifies (xs' 0) = 1"
  using schedule_puts_the_task_once [OF list_deques_laws, where ex = 0 and r = "7 :: nat" and ctx = None
      and be_fair = False and xs = "\<lambda>_. \<lparr>dx_injector = [], dx_notifies = 0, dx_begun = 0\<rparr>"]
  by (auto simp: injector_tasks_def context_tasks_def [of _ None] split: sum.splits)

text \<open>
  Using a second runtime from inside a first one goes wrong in two ways. Spawning on the
  handle of the second panics, whatever the task; and a task of the second that is woken
  on a thread of the first is put into the first's queues, so that it runs, and is counted as
  complete, on a runtime it was never counted on.
\<close>

theorem two_runtimes_do_not_mix:
  assumes "deque_laws api contents injected" "cx_executor c \<noteq> own"
  shows "handle_spawn api own r (Some c) xs = Inl Assert_Failed \<and>
    (\<exists>ctx' xs'. task_schedule api own r (Some c) xs = Inr (ctx', xs') \<and> xs' own = xs own \<and>
      context_tasks contents ctx' + injector_tasks injected (cx_executor c) xs' =
        add_mset r (context_tasks contents (Some c) + injector_tasks injected (cx_executor c) xs))"
proof -
  have "case executor_schedule api (cx_executor c) r (Some c) False xs of
      Inl p \<Rightarrow> False
    | Inr (ctx', xs') \<Rightarrow> xs' own = xs own \<and>
        context_tasks contents ctx' + injector_tasks injected (cx_executor c) xs' =
          add_mset r (context_tasks contents (Some c) + injector_tasks injected (cx_executor c) xs)"
  proof (cases "cx_intercept c")
    case None
    then show ?thesis
      using assms(2) producer_push_contents [OF assms(1)] fold_injector_push [OF assms(1), where rs = "[r]"]
      by (cases "cx_producer c")
        (auto simp: executor_schedule_def context_tasks_def executor_inject_def executor_notify_def
          injector_tasks_def rassert_def)
  next
    case (Some q)
    then show ?thesis by (simp add: executor_schedule_def context_tasks_def rassert_def)
  qed
  then show ?thesis
    using assms(2)
    by (auto simp: handle_spawn_def task_spawn_on_def task_state_new_def task_schedule_def executor_schedule_def
        rassert_def split: sum.splits)
qed

theorem two_runtimes_do_not_mix_witness:
  "handle_spawn list_deques 1 (7 :: nat) (Some (context_enter 0)) (\<lambda>_. \<lparr>dx_injector = [], dx_notifies = 0, dx_begun = 0\<rparr>) =
     Inl Assert_Failed"
  using two_runtimes_do_not_mix [OF list_deques_laws, where c = "context_enter 0" and own = 1
      and r = "7 :: nat" and xs = "\<lambda>_. \<lparr>dx_injector = [], dx_notifies = 0, dx_begun = 0\<rparr>"]
  by (simp add: context_enter_def)

text \<open>
  \<open>task::spawn\<close> panics exactly outside of a runtime; inside, the new task is scheduled, is
  counted once and is in exactly one place of the current runtime, and no other runtime changes.
\<close>

theorem spawn_counts_and_queues_once:
  assumes "deque_laws api contents injected"
  shows "case spawn api r ctx xs of
      Inl p \<Rightarrow> p = Expect_Failed \<and> ctx = None
    | Inr (st, ctx', xs') \<Rightarrow>
        (\<exists>c. ctx = Some c \<and> st = TASK_SCHEDULED \<and> dx_begun (xs' (cx_executor c)) = dx_begun (xs (cx_executor c)) + 1 \<and>
          context_tasks contents ctx' + injector_tasks injected (cx_executor c) xs' =
            add_mset r (context_tasks contents ctx + injector_tasks injected (cx_executor c) xs) \<and>
          (\<forall>e. e \<noteq> cx_executor c \<longrightarrow> xs' e = xs e))"
proof (cases ctx)
  case None
  then show ?thesis by (simp add: spawn_def)
next
  case (Some c)
  let ?ex = "cx_executor c"
  have t: "injector_tasks injected ?ex (task_begun ?ex xs) = injector_tasks injected ?ex xs"
    "dx_begun (task_begun ?ex xs ?ex) = dx_begun (xs ?ex) + 1" "e \<noteq> ?ex \<Longrightarrow> task_begun ?ex xs e = xs e" for e
    by (simp_all add: task_begun_def injector_tasks_def)
  obtain ctx' xs' where run: "executor_schedule api ?ex r (Some c) False (task_begun ?ex xs) = Inr (ctx', xs')"
    and b: "dx_begun (xs' ?ex) = dx_begun (task_begun ?ex xs ?ex)"
    by (cases "cx_intercept c"; cases "cx_producer c")
      (auto simp: executor_schedule_def rassert_def executor_inject_def executor_notify_def)
  note s = executor_schedule_tasks [OF assms, where ex = ?ex and r = r and ctx = "Some c" and be_fair = False
      and xs = "task_begun ?ex xs", unfolded run]
  have "spawn api r ctx xs = Inr (TASK_SCHEDULED, ctx', xs')"
    using Some run by (simp add: spawn_def task_spawn_on_def task_state_new_def)
  then show ?thesis using s b t Some by simp
qed

theorem spawn_counts_and_queues_once_witness:
  "case spawn list_deques (7 :: nat) (Some (context_enter 0)) (\<lambda>_. \<lparr>dx_injector = [], dx_notifies = 0, dx_begun = 0\<rparr>) of
      Inl p \<Rightarrow> False
    | Inr (st, ctx', xs') \<Rightarrow> st = TASK_SCHEDULED \<and> dx_begun (xs' 0) = 1"
  using spawn_counts_and_queues_once [OF list_deques_laws, where r = "7 :: nat" and ctx = "Some (context_enter 0)"
      and xs = "\<lambda>_. \<lparr>dx_injector = [], dx_notifies = 0, dx_begun = 0\<rparr>"]
  by (auto simp: context_enter_def split: sum.splits)

end
