(* ===== verification/Rt_Poller.thy ===== *)
theory Rt_Poller
  imports Timer_Properties Net_Poller Dispatch
begin

text \<open>
  \<open>src/src/runtime/internal/poller.rs\<close>: the poller of a worker, which turns expired timers and I/O
  events into tasks to run. While it wakes them it intercepts what its context schedules. A
  waker is a value of type \<open>'w\<close>; the task it hands to \<open>Task::schedule\<close> is \<open>wr w\<close>, \<open>None\<close> when the
  task is scheduled already or the waker belongs to a parker.
\<close>

record 'r poller =
  po_expired :: "entry list"
  po_events :: "poll_event list"
  po_ready :: "'r list"

definition poller_default :: "'r poller" where
  "poller_default = \<lparr>po_expired = [], po_events = [], po_ready = []\<rparr>"

definition poller_pending :: "'r poller \<Rightarrow> bool" where
  "poller_pending p \<longleftrightarrow> length (po_ready p) > 0"

definition poller_inject :: "('d, 'j, 'r) deque_api \<Rightarrow> nat \<Rightarrow> 'r poller \<Rightarrow> 'j executors \<Rightarrow>
    'r poller \<times> 'j executors" where
  "poller_inject api ex p xs =
     (if poller_pending p then (p\<lparr>po_ready := []\<rparr>, executor_inject api ex (po_ready p) xs) else (p, xs))"

definition pop_and_inject :: "('d, 'j, 'r) deque_api \<Rightarrow> nat \<Rightarrow> 'r poller \<Rightarrow> 'j executors \<Rightarrow>
    'r option \<times> 'r poller \<times> 'j executors" where
  "pop_and_inject api ex p xs =
     (let (runnable, rest) = (case po_ready p of [] \<Rightarrow> (None, []) | r # rs \<Rightarrow> (Some r, rs));
          (p1, xs1) = poller_inject api ex (p\<lparr>po_ready := rest\<rparr>) xs
      in (runnable, p1, xs1))"

subsection \<open>Waking with interception\<close>

fun wake_tasks :: "('d, 'j, 'r) deque_api \<Rightarrow> ('w \<Rightarrow> 'r option) \<Rightarrow> 'w list \<Rightarrow> ('d, 'r) rt_context \<Rightarrow>
    'j executors \<Rightarrow> (('d, 'r) rt_context \<times> 'j executors) res" where
  "wake_tasks api wr [] c xs = Inr (c, xs)"
| "wake_tasks api wr (w # ws) c xs =
     (case wr w of
        None \<Rightarrow> wake_tasks api wr ws c xs
      | Some r \<Rightarrow>
          rbind (task_schedule api (cx_executor c) r (Some c) xs) (\<lambda>(ctx, xs1).
          rbind (unwrap ctx) (\<lambda>c1. wake_tasks api wr ws c1 xs1)))"

definition poller_collect :: "('d, 'j, 'r) deque_api \<Rightarrow> ('w \<Rightarrow> 'r option) \<Rightarrow> 'w list \<Rightarrow> 'r poller \<Rightarrow>
    ('d, 'r) rt_context \<Rightarrow> 'j executors \<Rightarrow> ('r poller \<times> ('d, 'r) rt_context \<times> 'j executors) res" where
  "poller_collect api wr ws p c xs =
     rbind (rassert (cx_intercept c = None)) (\<lambda>_.
     rbind (wake_tasks api wr ws (c\<lparr>cx_intercept := Some (po_ready p)\<rparr>) xs) (\<lambda>(c1, xs1).
     rbind (unwrap (cx_intercept c1)) (\<lambda>ready.
       Inr (p\<lparr>po_ready := ready\<rparr>, c1\<lparr>cx_intercept := None\<rparr>, xs1))))"

lemma wake_tasks_intercepted:
  "cx_intercept c = Some rs \<Longrightarrow>
   wake_tasks api wr ws c xs = Inr (c\<lparr>cx_intercept := Some (rs @ List.map_filter wr ws)\<rparr>, xs)"
proof (induction ws arbitrary: c rs)
  case Nil
  then show ?case by (simp add: List.map_filter_def)
next
  case (Cons w ws)
  show ?case
  proof (cases "wr w")
    case None
    then show ?thesis using Cons.IH [OF Cons.prems] by (simp add: List.map_filter_def)
  next
    case (Some r)
    let ?c = "c\<lparr>cx_intercept := Some (rs @ [r])\<rparr>"
    have "task_schedule api (cx_executor c) r (Some c) xs = Inr (Some ?c, xs)"
      using Cons.prems by (simp add: task_schedule_def executor_schedule_def)
    then show ?thesis
      using Some Cons.IH [of ?c "rs @ [r]"] by (simp add: List.map_filter_def)
  qed
qed

text \<open>Waking collects the tasks behind the wakers and nothing else.\<close>

lemma poller_collect_eq:
  assumes "cx_intercept c = None"
  shows "poller_collect api wr ws p c xs = Inr (p\<lparr>po_ready := po_ready p @ List.map_filter wr ws\<rparr>, c, xs)"
  using assms wake_tasks_intercepted [of "c\<lparr>cx_intercept := Some (po_ready p)\<rparr>" "po_ready p" api wr ws xs]
  by (simp add: poller_collect_def)

subsection \<open>Timers\<close>

text \<open>
  \<open>poll_timers\<close> takes and returns the two variables of the caller, \<open>now\<close> and \<open>timeout\<close>; \<open>clock\<close> is
  what \<open>Instant::now\<close> gives.
\<close>

definition poll_instant :: "instant option \<Rightarrow> instant \<Rightarrow> instant" where
  "poll_instant now clock = (case now of None \<Rightarrow> clock | Some n \<Rightarrow> n)"

definition poller_poll_timers :: "('d, 'j, 'r) deque_api \<Rightarrow> ('w \<Rightarrow> 'r option) \<Rightarrow> instant \<Rightarrow>
    'w timer_queue \<Rightarrow> instant option \<Rightarrow> duration option \<Rightarrow> 'r poller \<Rightarrow> ('d, 'r) rt_context \<Rightarrow>
    'j executors \<Rightarrow> (instant option \<times> duration option \<times> 'w timer_queue \<times> 'r poller \<times>
      ('d, 'r) rt_context \<times> 'j executors) res" where
  "poller_poll_timers api wr clock q now timeout p c xs =
     (case tq_expires_at q of
        None \<Rightarrow> Inr (now, timeout, q, p, c, xs)
      | Some expires \<Rightarrow>
          let current = tq_since q (poll_instant now clock)
          in if current < expires
             then let duration = unat (expires - current) * 1000000
                  in Inr (Some (poll_instant now clock), Some (case timeout of Some t \<Rightarrow> min t duration | None \<Rightarrow> duration),
                          q, p, c, xs)
             else rbind (tq_poll q current (po_expired p)) (\<lambda>(q1, expired).
               if \<not> expired_pending expired
               then Inr (Some (poll_instant now clock), timeout, q1, p\<lparr>po_expired := expired\<rparr>, c, xs)
               else rbind (expired_process q1 expired) (\<lambda>(ws, q2).
                 rbind (poller_collect api wr ws (p\<lparr>po_expired := []\<rparr>) c xs) (\<lambda>(p1, c1, xs1).
                   Inr (Some (poll_instant now clock), timeout, q2, p1, c1, xs1)))))"

text \<open>The waker that a wake of an entry calls.\<close>

definition entry_waker :: "'w timer_queue \<Rightarrow> entry \<Rightarrow> 'w option" where
  "entry_waker q e =
     (let w = re_waker (tq_heap q e) in if aw_state w = WAITING then aw_waker w else None)"

lemma map_filter_simps [simp]:
  "List.map_filter f [] = []"
  "List.map_filter f (x # xs) = (case f x of None \<Rightarrow> [] | Some y \<Rightarrow> [y]) @ List.map_filter f xs"
  "List.map_filter f (xs @ ys) = List.map_filter f xs @ List.map_filter f ys"
  by (auto simp: List.map_filter_def split: option.split)

lemma map_filter_cong: "(\<And>x. x \<in> set xs \<Longrightarrow> f x = g x) \<Longrightarrow> List.map_filter f xs = List.map_filter g xs"
proof (induction xs)
  case (Cons x xs)
  have "f x = g x" "List.map_filter f xs = List.map_filter g xs" using Cons by auto
  then show ?case by (cases "g x") simp_all
qed simp

lemma expired_process_ok:
  assumes "tq_inv q live" "distinct es"
  shows "\<exists>q'. expired_process q es = Inr (List.map_filter (entry_waker q) es, q') \<and> tq_inv q' live \<and>
     tq_tree q' = tq_tree q"
  using assms
proof (induction es arbitrary: q)
  case Nil
  then show ?case by simp
next
  case (Cons e es)
  obtain f w where wake: "tq_entry_wake q e =
      Inr (f, q\<lparr>tq_heap := (tq_heap q)(e := (tq_heap q e)\<lparr>re_waker := w\<rparr>)\<rparr>)"
    and inv: "tq_inv (q\<lparr>tq_heap := (tq_heap q)(e := (tq_heap q e)\<lparr>re_waker := w\<rparr>)\<rparr>) live"
    and aw: "aw_wake (re_waker (tq_heap q e)) = Inr (f, w)"
    by (rule tq_entry_wake_ok [OF Cons.prems(1), of e]) (rule that)
  let ?q = "q\<lparr>tq_heap := (tq_heap q)(e := (tq_heap q e)\<lparr>re_waker := w\<rparr>)\<rparr>"
  have "aw_ok (re_waker (tq_heap q e))" using Cons.prems(1) by (simp add: tq_inv_def)
  from aw_wake_simp [OF this] aw have f: "f = entry_waker q e"
    by (auto simp: entry_waker_def Let_def split: if_splits)
  from Cons.IH [OF inv] Cons.prems(2) obtain q' where
    "expired_process ?q es = Inr (List.map_filter (entry_waker ?q) es, q')" "tq_inv q' live"
    "tq_tree q' = tq_tree q" by auto
  moreover have "List.map_filter (entry_waker ?q) es = List.map_filter (entry_waker q) es"
    using Cons.prems(2) by (intro map_filter_cong) (auto simp: entry_waker_def)
  ultimately show ?case using wake f by (cases "entry_waker q e") auto
qed

lemma tq_expires_at_eq:
  assumes "tq_inv q live"
  shows "tq_expires_at q = (case tq_tree q of [] \<Rightarrow> None | (d, es) # m \<Rightarrow> Some d)"
  using assms earliest_zero [of "tq_tree q"]
  by (auto simp: tq_expires_at_def nonzero64_def tq_inv_def earliest_def tree_ok_def split: list.splits)

lemma poller_poll_timers_eq:
  assumes inv: "tq_inv q live" and c: "cx_intercept c = None" and p: "po_expired p = []"
  shows "case tq_expires_at q of
      None \<Rightarrow> poller_poll_timers api wr clock q now timeout p c xs = Inr (now, timeout, q, p, c, xs)
    | Some expires \<Rightarrow>
        if tq_since q (poll_instant now clock) < expires
        then \<exists>t. poller_poll_timers api wr clock q now timeout p c xs = Inr (Some (poll_instant now clock), Some t, q, p, c, xs) \<and>
          t \<le> unat (expires - (tq_since q (poll_instant now clock))) * 1000000
        else \<exists>q'. poller_poll_timers api wr clock q now timeout p c xs =
            Inr (Some (poll_instant now clock), timeout, q', p\<lparr>po_ready := po_ready p @
              List.map_filter wr (List.map_filter (entry_waker q)
                (map snd (filter (due (max (tq_current q) (tq_since q (poll_instant now clock)))) (pending_timers q))))\<rparr>, c, xs) \<and>
          pending_timers q' = filter (\<lambda>x. \<not> due (max (tq_current q) (tq_since q (poll_instant now clock))) x) (pending_timers q) \<and>
          tq_inv q' live"
proof (cases "tq_expires_at q")
  case None
  then show ?thesis by (simp add: poller_poll_timers_def)
next
  case (Some expires)
  define current where "current = tq_since q (poll_instant now clock)"
  show ?thesis
  proof (cases "current < expires")
    case True
    then show ?thesis
      using Some by (auto simp: poller_poll_timers_def Let_def current_def split: option.split)
  next
    case False
    let ?due = "map snd (filter (due (max (tq_current q) current)) (pending_timers q))"
    from tq_poll_ok [OF inv, of current "[]"] obtain q1 where poll: "tq_poll q current [] = Inr (q1, ?due)"
      and pend: "pending_timers q1 = filter (\<lambda>x. \<not> due (max (tq_current q) current) x) (pending_timers q)"
      and inv1: "tq_inv q1 live" and same: "\<And>x. re_waker (tq_heap q1 x) = re_waker (tq_heap q x)"
      by auto
    have "distinct (map snd (pending_timers q))" using inv by (simp add: tq_inv_def tree_ok_def)
    then have dist: "distinct ?due" by (simp add: distinct_map_filter)
    from expired_process_ok [OF inv1 dist] obtain q2 where
      proc: "expired_process q1 ?due = Inr (List.map_filter (entry_waker q1) ?due, q2)"
      and inv2: "tq_inv q2 live" and tree: "tq_tree q2 = tq_tree q1" by blast
    have ew: "entry_waker q1 = entry_waker q" using same by (simp add: entry_waker_def fun_eq_iff)
    have e: "poller_poll_timers api wr clock q now timeout p c xs =
        (if ?due = [] then Inr (Some (poll_instant now clock), timeout, q1, p\<lparr>po_expired := []\<rparr>, c, xs)
         else Inr (Some (poll_instant now clock), timeout, q2, p\<lparr>po_expired := [],
           po_ready := po_ready p @ List.map_filter wr (List.map_filter (entry_waker q) ?due)\<rparr>, c, xs))"
      using Some False poll proc p ew
      by (simp add: poller_poll_timers_def Let_def current_def expired_pending_def poller_collect_eq [OF c])
    have "p\<lparr>po_expired := []\<rparr> = p" "p\<lparr>po_expired := [], po_ready := r\<rparr> = p\<lparr>po_ready := r\<rparr>" for r
      using p by simp_all
    then show ?thesis
      using Some False e pend inv1 inv2 tree unfolding current_def by (cases "?due = []") auto
  qed
qed


text \<open>The queue of \<open>two_timers\<close>, with a task that waits for the first of them.\<close>

definition waiting_cell :: "nat atomic_waker" where
  "waiting_cell = \<lparr>aw_state = WAITING, aw_notified = False, aw_waker = Some 42\<rparr>"

definition waited_timers :: "nat timer_queue" where
  "waited_timers = two_timers\<lparr>tq_heap := (tq_heap two_timers)(0 := (tq_heap two_timers 0)\<lparr>re_waker := waiting_cell\<rparr>)\<rparr>"

lemma waited_timers_facts:
  "tq_inv waited_timers two_delays" "pending_timers waited_timers = [(5, 0), (7, 1)]"
  "tq_expires_at waited_timers = Some 5" "tq_current waited_timers = 0"
  "tq_since waited_timers 6000000 = 6" "entry_waker waited_timers 0 = Some 42"
proof -
  show "tq_inv waited_timers two_delays"
    unfolding waited_timers_def
    by (rule tq_inv_waker [OF two_timers_inv]) (simp add: aw_ok_def waiting_cell_def)
qed (simp_all add: waited_timers_def two_timers_def tq_expires_at_def nonzero64_def tq_new_def
    tq_since_def try_u64_def as_millis_def entry_waker_def Let_def waiting_cell_def)


subsection \<open>Events\<close>

text \<open>
  \<open>try_poll_network\<close> is \<open>np_try_poll\<close>; \<open>PollNetworkGuard::poll\<close> selects (the events are a
  parameter), gives up the selector and processes the events.
\<close>

definition poller_poll_network :: "('d, 'j, 'r) deque_api \<Rightarrow> ('w \<Rightarrow> 'r option) \<Rightarrow> poll_event list \<Rightarrow>
    'w net_poller \<Rightarrow> 'r poller \<Rightarrow> ('d, 'r) rt_context \<Rightarrow> 'j executors \<Rightarrow>
    ('w net_poller \<times> 'r poller \<times> ('d, 'r) rt_context \<times> 'j executors) res" where
  "poller_poll_network api wr events np p c xs =
     (let np1 = np_drop_guard np
      in rbind (process_events events np1) (\<lambda>(ws, np2).
         rbind (poller_collect api wr ws (p\<lparr>po_events := events\<rparr>) c xs) (\<lambda>(p1, c1, xs1).
           Inr (np2, p1, c1, xs1))))"

lemma poller_poll_network_eq:
  assumes "cx_intercept c = None" "process_events events (np_drop_guard np) = Inr (ws, np')"
  shows "poller_poll_network api wr events np p c xs =
    Inr (np', p\<lparr>po_events := events, po_ready := po_ready p @ List.map_filter wr ws\<rparr>, c, xs)"
  using assms by (simp add: poller_poll_network_def Let_def poller_collect_eq)

subsection \<open>Handing tasks out\<close>

lemma pop_and_inject_eq:
  assumes "deque_laws api contents injected"
  shows "case pop_and_inject api ex p xs of (r, p', xs') \<Rightarrow>
    po_ready p = (case r of Some t \<Rightarrow> [t] | None \<Rightarrow> []) @ tl (po_ready p) \<and> po_ready p' = [] \<and>
    injected (dx_injector (xs' ex)) = injected (dx_injector (xs ex)) @ tl (po_ready p) \<and>
    dx_notifies (xs' ex) = dx_notifies (xs ex) + (if tl (po_ready p) = [] then 0 else 1)"
  using fold_injector_push [OF assms]
  by (cases "po_ready p")
    (auto simp: pop_and_inject_def poller_inject_def poller_pending_def executor_inject_def
      executor_notify_def)

text \<open>
  \<open>pop_and_inject\<close> hands out the task that became ready first and injects all others, in
  order, for other workers to take; the executor is notified exactly when there were
  others, and the poller keeps nothing.
\<close>

theorem pop_and_inject_shares_the_rest:
  assumes "deque_laws api contents injected"
  shows "case pop_and_inject api ex p xs of (r, p', xs') \<Rightarrow>
    po_ready p = (case r of Some t \<Rightarrow> [t] | None \<Rightarrow> []) @ tl (po_ready p) \<and> po_ready p' = [] \<and>
    injected (dx_injector (xs' ex)) = injected (dx_injector (xs ex)) @ tl (po_ready p) \<and>
    dx_notifies (xs' ex) = dx_notifies (xs ex) + (if tl (po_ready p) = [] then 0 else 1)"
  by (rule pop_and_inject_eq [OF assms])

theorem pop_and_inject_shares_the_rest_witness:
  "case pop_and_inject list_deques 0 \<lparr>po_expired = [], po_events = [], po_ready = [1, 2, 3 :: nat]\<rparr>
      (\<lambda>_. \<lparr>dx_injector = [], dx_notifies = 0, dx_begun = 0\<rparr>) of (r, p', xs') \<Rightarrow>
    r \<noteq> None \<and> dx_injector (xs' 0) = [2, 3] \<and> dx_notifies (xs' 0) = 1"
  using pop_and_inject_shares_the_rest [OF list_deques_laws, where ex = 0 and
      p = "\<lparr>po_expired = [], po_events = [], po_ready = [1, 2, 3 :: nat]\<rparr>" and
      xs = "\<lambda>_. \<lparr>dx_injector = [], dx_notifies = 0, dx_begun = 0\<rparr>"]
  by (auto split: prod.splits option.splits)

end
