(* ===== verification/Worker.thy ===== *)
theory Worker
  imports Rt_Poller Executor Random_Source Net_Proofs
begin

text \<open>
  \<open>poll_worker\<close> of \<open>src/src/runtime/internal/worker.rs\<close>: where a worker looks for the next task,
  run without interference. It composes the net poller, the timer queues, the run queues, the
  injector, the count of searching threads and the random visiting orders.
\<close>

subsection \<open>State\<close>

text \<open>
  What a worker reaches: its own fields (\<open>tick\<close>, \<open>searching\<close>, the poller), its context, and
  the executor with the other workers' run queues and all timer queues. The entry of
  \<open>wo_queues\<close> for the worker itself is not used, since its deque is the producer's. \<open>wo_selects\<close>
  are the events of the next calls of the selector, in order, and \<open>wo_clock\<close> is the time.
\<close>

record ('d, 'j, 'r, 'w) world =
  wo_tick :: usize
  wo_searching :: bool
  wo_poller :: "'r poller"
  wo_context :: "('d, 'r) rt_context"
  wo_rng :: random_generator
  wo_queues :: "'d list"
  wo_timers :: "'w timer_queue list"
  wo_net :: "'w net_poller"
  wo_search :: executor
  wo_source :: random_iter_source
  wo_execs :: "'j executors"
  wo_now :: "instant option"
  wo_timeout :: "duration option"
  wo_selects :: "poll_event list list"
  wo_clock :: instant

text \<open>What the calls go through: the deques and what a waker schedules.\<close>

record ('d, 'j, 'r, 'w) services =
  sv_deques :: "('d, 'j, 'r) deque_api"
  sv_wakes :: "'w \<Rightarrow> 'r option"

definition MAX_ATTEMPTS :: nat where "MAX_ATTEMPTS = 32"
definition MAX_RETRIES :: nat where "MAX_RETRIES = 4"

subsection \<open>Polling for events and timers\<close>

definition world_pop :: "('d, 'j, 'r, 'w) services \<Rightarrow> ('d, 'j, 'r, 'w) world \<Rightarrow>
    'r option \<times> ('d, 'j, 'r, 'w) world" where
  "world_pop sv w =
     (let (r, p, xs) = pop_and_inject (sv_deques sv) (cx_executor (wo_context w)) (wo_poller w) (wo_execs w)
      in (r, w\<lparr>wo_poller := p, wo_execs := xs\<rparr>))"

definition worker_poll_io :: "('d, 'j, 'r, 'w) services \<Rightarrow> ('d, 'j, 'r, 'w) world \<Rightarrow>
    ('r option \<times> ('d, 'j, 'r, 'w) world) res" where
  "worker_poll_io sv w =
     (let (locked, np) = np_try_poll (wo_net w)
      in if \<not> locked then Inr (None, w\<lparr>wo_net := np\<rparr>)
         else
           let (events, selects) = (case wo_selects w of [] \<Rightarrow> ([], []) | ev # evs \<Rightarrow> (ev, evs))
           in rbind (poller_poll_network (sv_deques sv) (sv_wakes sv) events np (wo_poller w) (wo_context w)
                       (wo_execs w)) (\<lambda>(np1, p, c, xs).
                Inr (world_pop sv (w\<lparr>wo_net := np1, wo_poller := p, wo_context := c, wo_execs := xs,
                       wo_selects := selects\<rparr>))))"

definition worker_poll_timers :: "('d, 'j, 'r, 'w) services \<Rightarrow> nat \<Rightarrow> ('d, 'j, 'r, 'w) world \<Rightarrow>
    ('r option \<times> ('d, 'j, 'r, 'w) world) res" where
  "worker_poll_timers sv i w =
     rbind (index (wo_timers w) i) (\<lambda>q.
     rbind (poller_poll_timers (sv_deques sv) (sv_wakes sv) (wo_clock w) q (wo_now w) (wo_timeout w)
              (wo_poller w) (wo_context w) (wo_execs w)) (\<lambda>(now, timeout, q1, p, c, xs).
       Inr (world_pop sv (w\<lparr>wo_timers := (wo_timers w)[i := q1], wo_now := now, wo_timeout := timeout,
              wo_poller := p, wo_context := c, wo_execs := xs\<rparr>))))"

subsection \<open>The queues\<close>

definition world_producer :: "('d, 'j, 'r, 'w) world \<Rightarrow> 'd producer res" where
  "world_producer w = unwrap (cx_producer (wo_context w))"

definition put_producer :: "'d producer \<Rightarrow> ('d, 'j, 'r, 'w) world \<Rightarrow> ('d, 'j, 'r, 'w) world" where
  "put_producer p w = w\<lparr>wo_context := (wo_context w)\<lparr>cx_producer := Some p\<rparr>\<rparr>"

definition worker_consume :: "('d, 'j, 'r, 'w) services \<Rightarrow> ('d, 'j, 'r, 'w) world \<Rightarrow>
    ('r steal \<times> ('d, 'j, 'r, 'w) world) res" where
  "worker_consume sv w =
     rbind (world_producer w) (\<lambda>p.
       let ex = cx_executor (wo_context w);
           (st, j, p1) = producer_consume (sv_deques sv) (dx_injector (wo_execs w ex)) p
       in Inr (st, put_producer p1 (w\<lparr>wo_execs := (wo_execs w)(ex := (wo_execs w ex)\<lparr>dx_injector := j\<rparr>)\<rparr>)))"

definition worker_steal :: "('d, 'j, 'r, 'w) services \<Rightarrow> nat \<Rightarrow> ('d, 'j, 'r, 'w) world \<Rightarrow>
    ('r steal \<times> ('d, 'j, 'r, 'w) world) res" where
  "worker_steal sv i w =
     rbind (world_producer w) (\<lambda>p.
     rbind (index (wo_queues w) i) (\<lambda>d.
       let (st, d1, p1) = producer_steal (sv_deques sv) d p
       in Inr (st, put_producer p1 (w\<lparr>wo_queues := (wo_queues w)[i := d1]\<rparr>))))"

text \<open>\<open>None\<close> is a pop that spins for ever.\<close>

definition worker_pop :: "('d, 'j, 'r, 'w) services \<Rightarrow> bool \<Rightarrow> ('d, 'j, 'r, 'w) world \<Rightarrow>
    ('r option \<times> ('d, 'j, 'r, 'w) world) res option" where
  "worker_pop sv be_fair w =
     (case world_producer w of
        Inl e \<Rightarrow> Some (Inl e)
      | Inr p \<Rightarrow> map_option (\<lambda>(r, p1). Inr (r, put_producer p1 w)) (producer_pop (sv_deques sv) be_fair p))"

subsection \<open>The search\<close>

text \<open>
  One round over the other workers; \<open>last\<close> tells that timers are polled in a round without
  contention. The flag returned with the task is \<open>was_contended\<close>.
\<close>

fun steal_round :: "('d, 'j, 'r, 'w) services \<Rightarrow> nat \<Rightarrow> bool \<Rightarrow> nat list \<Rightarrow> bool \<Rightarrow> ('d, 'j, 'r, 'w) world \<Rightarrow>
    ('r option \<times> bool \<times> ('d, 'j, 'r, 'w) world) res" where
  "steal_round sv own timers_too [] contended w = Inr (None, contended, w)"
| "steal_round sv own timers_too (i # order) contended w =
     (if i = own then steal_round sv own timers_too order contended w
      else rbind (worker_steal sv i w) (\<lambda>(st, w1).
        case st of
          Steal_Success r \<Rightarrow> Inr (Some r, contended, w1)
        | _ \<Rightarrow>
            let contended1 = (contended \<or> st = Steal_Retry)
            in if \<not> contended1 \<and> timers_too
               then rbind (worker_poll_timers sv i w1) (\<lambda>(r, w2).
                      case r of
                        Some t \<Rightarrow> Inr (Some t, contended1, w2)
                      | None \<Rightarrow> steal_round sv own timers_too order contended1 w2)
               else steal_round sv own timers_too order contended1 w1))"

text \<open>The loop over the attempts, \<open>n\<close> of which are left.\<close>

fun search_loop :: "('d, 'j, 'r, 'w) services \<Rightarrow> nat \<Rightarrow> nat \<Rightarrow> nat \<Rightarrow> ('d, 'j, 'r, 'w) world \<Rightarrow>
    ('r option \<times> ('d, 'j, 'r, 'w) world) res" where
  "search_loop sv own 0 retries w = Inr (None, w)"
| "search_loop sv own (Suc n) retries w =
     rbind (worker_consume sv w) (\<lambda>(st, w1).
       case st of
         Steal_Success r \<Rightarrow> Inr (Some r, w1)
       | _ \<Rightarrow>
           rbind (gen_iter (wo_rng w1) (wo_source w1)) (\<lambda>(order, g).
           rbind (steal_round sv own (retries = 1 \<or> n = 0) order (st = Steal_Retry) (w1\<lparr>wo_rng := g\<rparr>))
             (\<lambda>(r, contended, w2).
               case r of
                 Some t \<Rightarrow> Inr (Some t, w2)
               | None \<Rightarrow>
                   if contended \<or> 0 < retries
                   then if \<not> contended \<and> retries = 0 then Inl Arithmetic_Overflow
                        else search_loop sv own n (if contended then retries else retries - 1) w2
                   else Inr (None, w2))))"

definition obind :: "'a res option \<Rightarrow> ('a \<Rightarrow> 'b res option) \<Rightarrow> 'b res option" where
  "obind m f = (case m of None \<Rightarrow> None | Some (Inl p) \<Rightarrow> Some (Inl p) | Some (Inr x) \<Rightarrow> f x)"

text \<open>A step that gives a task ends the search, otherwise the next one runs.\<close>

definition or_then :: "('r option \<times> 's) res option \<Rightarrow> ('s \<Rightarrow> ('r option \<times> 's) res option) \<Rightarrow>
    ('r option \<times> 's) res option" where
  "or_then m f = obind m (\<lambda>(r, w). case r of Some t \<Rightarrow> Some (Inr (Some t, w)) | None \<Rightarrow> f w)"

definition poll_worker_search :: "('d, 'j, 'r, 'w) services \<Rightarrow> nat \<Rightarrow> ('d, 'j, 'r, 'w) world \<Rightarrow>
    ('r option \<times> ('d, 'j, 'r, 'w) world) res option" where
  "poll_worker_search sv own w =
     obind (if wo_searching w then Some (Inr (True, wo_search w)) else Some (search_begin (wo_search w)))
       (\<lambda>(searching, ex).
         let w1 = w\<lparr>wo_searching := searching, wo_search := ex\<rparr>
         in if \<not> searching then Some (Inr (None, w1))
            else or_then (Some (worker_poll_io sv w1)) (\<lambda>w2.
                   Some (search_loop sv own MAX_ATTEMPTS MAX_RETRIES w2)))"

definition poll_worker :: "('d, 'j, 'r, 'w) services \<Rightarrow> nat \<Rightarrow> ('d, 'j, 'r, 'w) world \<Rightarrow>
    ('r option \<times> ('d, 'j, 'r, 'w) world) res option" where
  "poll_worker sv own w =
     obind (Some (world_producer w)) (\<lambda>_.
       let be_fair = (unat (wo_tick w) mod 61 = 0)
       in or_then (if be_fair then Some (worker_poll_io sv w) else Some (Inr (None, w))) (\<lambda>w1.
          or_then (if be_fair then Some (rbind (worker_consume sv w1) (\<lambda>(st, w').
                                     Inr (steal_success st, w')))
                   else Some (Inr (None, w1))) (\<lambda>w2.
          or_then (Some (worker_poll_timers sv own w2)) (\<lambda>w3.
          or_then (worker_pop sv be_fair w3) (\<lambda>w4.
            poll_worker_search sv own w4)))))"

end
