(* ===== verification/Worker_Proofs.thy ===== *)
theory Worker_Proofs
  imports Worker
begin

text \<open>
  What every step of \<open>poll_worker\<close> keeps: the tasks a worker can reach are neither lost nor
  duplicated, and the state stays one in which the next step does not panic.
\<close>

subsection \<open>The tasks\<close>

lemma moved_balance:
  assumes "w1 + a = w + b" "w2 + c = w1 + d" "a + c = b + d + (r :: 'a multiset)"
  shows "w2 + r = w"
proof (rule multiset_eqI)
  fix x
  show "count (w2 + r) x = count w x"
    using assms [THEN arg_cong, where f = "\<lambda>m. count m x"] by simp
qed

definition queued_tasks :: "('d \<Rightarrow> 'r list) \<Rightarrow> nat \<Rightarrow> 'd list \<Rightarrow> 'r multiset" where
  "queued_tasks contents own qs = tally (\<lambda>i. if i = own then {#} else mset (contents (qs ! i))) [0..<length qs]"

lemma tally_cong: "(\<And>x. x \<in> set xs \<Longrightarrow> f x = g x) \<Longrightarrow> tally f xs = tally g xs"
proof (induction xs)
  case (Cons x xs)
  have "f x = g x" "tally f xs = tally g xs" using Cons by simp_all
  then show ?case by simp
qed simp

lemma queued_tasks_update:
  assumes "i < length qs" "i \<noteq> own"
  shows "queued_tasks contents own (qs[i := d]) + mset (contents (qs ! i)) =
    queued_tasks contents own qs + mset (contents d)"
proof -
  have split: "[0..<length qs] = [0..<i] @ i # [Suc i..<length qs]"
    using assms(1) upt_add_eq_append [of 0 i "length qs - i"] by (simp add: upt_conv_Cons)
  let ?f = "\<lambda>qs k. if k = own then {#} else mset (contents (qs ! k))"
  have "tally (?f (qs[i := d])) [0..<i] = tally (?f qs) [0..<i]"
    "tally (?f (qs[i := d])) [Suc i..<length qs] = tally (?f qs) [Suc i..<length qs]"
    by (rule tally_cong; simp)+
  then show ?thesis using assms by (simp add: queued_tasks_def split ac_simps)
qed

definition world_tasks :: "('d \<Rightarrow> 'r list) \<Rightarrow> ('j \<Rightarrow> 'r list) \<Rightarrow> nat \<Rightarrow> ('d, 'j, 'r, 'w) world \<Rightarrow> 'r multiset" where
  "world_tasks contents injected own w =
     mset (po_ready (wo_poller w)) + context_tasks contents (Some (wo_context w)) +
     injector_tasks injected (cx_executor (wo_context w)) (wo_execs w) +
     queued_tasks contents own (wo_queues w)"

subsection \<open>The invariant\<close>

definition event_ok :: "nat \<Rightarrow> 'w waker_storage \<Rightarrow> poll_event \<Rightarrow> bool" where
  "event_ok ne ws ev \<longleftrightarrow> ev_token ev = SIGNAL_TOKEN \<or>
     (case index_from_usize (ev_token ev) of Inr i \<Rightarrow> in_blocks ne ws i | Inl p \<Rightarrow> False)"

lemma event_ok_cong:
  "(\<And>i. in_blocks ne ws' i = in_blocks ne ws i) \<Longrightarrow> event_ok ne ws' ev = event_ok ne ws ev"
  by (cases "index_from_usize (ev_token ev)") (simp_all add: event_ok_def)

definition net_ok :: "nat \<Rightarrow> nat \<Rightarrow> 'w net_poller \<Rightarrow> poll_event list list \<Rightarrow> bool" where
  "net_ok nb ne np selects \<longleftrightarrow> (\<exists>live. ws_inv nb ne (np_storage np) live) \<and>
     (\<forall>evs \<in> set selects. \<forall>ev \<in> set evs. event_ok ne (np_storage np) ev)"

definition world_ok :: "nat \<Rightarrow> nat \<Rightarrow> nat \<Rightarrow> ('d, 'j, 'r, 'w) world \<Rightarrow> bool" where
  "world_ok nb ne own w \<longleftrightarrow>
     cx_intercept (wo_context w) = None \<and> cx_producer (wo_context w) \<noteq> None \<and>
     po_expired (wo_poller w) = [] \<and>
     own < length (wo_timers w) \<and> length (wo_queues w) = length (wo_timers w) \<and>
     (\<forall>q \<in> set (wo_timers w). \<exists>live. tq_inv q live) \<and>
     net_ok nb ne (wo_net w) (wo_selects w) \<and>
     rng_ok (wo_rng w) \<and> src_ok (wo_source w) \<and> ri_range (wo_source w) = length (wo_timers w) \<and>
     unat (ex_searching (wo_search w)) \<le> ex_workers (wo_search w) \<and> ex_workers (wo_search w) < 2 ^ 63"

text \<open>
  No task moved: every queue holds what it held and, if nothing was ready, nothing is. A worker
  that was searching still is.
\<close>

definition own_tasks :: "('d \<Rightarrow> 'r list) \<Rightarrow> ('d, 'j, 'r, 'w) world \<Rightarrow> 'r list" where
  "own_tasks contents w = (case cx_producer (wo_context w) of Some p \<Rightarrow> contents (pr_deque p) | None \<Rightarrow> [])"

definition injected_tasks :: "('j \<Rightarrow> 'r list) \<Rightarrow> ('d, 'j, 'r, 'w) world \<Rightarrow> 'r list" where
  "injected_tasks injected w = injected (dx_injector (wo_execs w (cx_executor (wo_context w))))"

definition still :: "('d \<Rightarrow> 'r list) \<Rightarrow> ('j \<Rightarrow> 'r list) \<Rightarrow> ('d, 'j, 'r, 'w) world \<Rightarrow>
    ('d, 'j, 'r, 'w) world \<Rightarrow> bool" where
  "still contents injected w w' \<longleftrightarrow>
     injected_tasks injected w' = injected_tasks injected w \<and> own_tasks contents w' = own_tasks contents w \<and>
     map contents (wo_queues w') = map contents (wo_queues w) \<and>
     (po_ready (wo_poller w) = [] \<longrightarrow> po_ready (wo_poller w') = []) \<and>
     (wo_searching w \<longrightarrow> wo_searching w')"

lemma still_refl: "still contents injected w w"
  by (simp add: still_def)

lemma still_trans: "still contents injected w w1 \<Longrightarrow> still contents injected w1 w2 \<Longrightarrow> still contents injected w w2"
  by (simp add: still_def)

lemma still_nth:
  assumes "still contents injected w w'" "i < length (wo_queues w)"
  shows "contents (wo_queues w' ! i) = contents (wo_queues w ! i)"
proof -
  have m: "map contents (wo_queues w') = map contents (wo_queues w)" using assms(1) by (simp add: still_def)
  then have "length (wo_queues w') = length (wo_queues w)" by (rule map_eq_imp_length_eq)
  then show ?thesis using arg_cong [OF m, where f = "\<lambda>xs. xs ! i"] assms(2) by simp
qed

text \<open>
  A step from \<open>w\<close> to \<open>w'\<close> that may hand out a task: the tasks in \<open>w'\<close> and the one handed out
  are those in \<open>w\<close> and the ones of some wakers that were called. A step that hands out none
  moves none.
\<close>

definition conserves :: "('d \<Rightarrow> 'r list) \<Rightarrow> ('j \<Rightarrow> 'r list) \<Rightarrow> ('w \<Rightarrow> 'r option) \<Rightarrow> nat \<Rightarrow>
    ('d, 'j, 'r, 'w) world \<Rightarrow> 'r option \<Rightarrow> ('d, 'j, 'r, 'w) world \<Rightarrow> bool" where
  "conserves contents injected wr own w r w' \<longleftrightarrow>
     (\<exists>ws. world_tasks contents injected own w' + option_mset r =
        world_tasks contents injected own w + mset (List.map_filter wr ws)) \<and>
     (r = None \<longrightarrow> still contents injected w w')"

lemma conservesI:
  "world_tasks contents injected own w' + option_mset r =
     world_tasks contents injected own w + mset (List.map_filter wr ws) \<Longrightarrow>
   (r = None \<Longrightarrow> still contents injected w w') \<Longrightarrow>
   conserves contents injected wr own w r w'"
  unfolding conserves_def by blast

lemma conserves_eq:
  "world_tasks contents injected own w' + option_mset r = world_tasks contents injected own w \<Longrightarrow>
   (r = None \<Longrightarrow> still contents injected w w') \<Longrightarrow>
   conserves contents injected wr own w r w'"
  by (rule conservesI [where ws = "[]"]) simp_all

lemma conserves_refl: "conserves contents injected wr own w None w"
  by (rule conserves_eq) (simp_all add: still_refl)

lemma conserves_still: "conserves contents injected wr own w None w' \<Longrightarrow> still contents injected w w'"
  by (simp add: conserves_def)

lemma conserves_trans:
  assumes "conserves contents injected wr own w None w1" "conserves contents injected wr own w1 r w2"
  shows "conserves contents injected wr own w r w2"
proof -
  obtain ws1 where 1: "world_tasks contents injected own w1 =
      world_tasks contents injected own w + mset (List.map_filter wr ws1)" and s: "still contents injected w w1"
    using assms(1) by (auto simp: conserves_def)
  obtain ws2 where 2: "world_tasks contents injected own w2 + option_mset r =
      world_tasks contents injected own w1 + mset (List.map_filter wr ws2)" and
    "r = None \<Longrightarrow> still contents injected w1 w2"
    using assms(2) by (auto simp: conserves_def)
  then show ?thesis
    using still_trans [OF s] by (intro conservesI [where ws = "ws1 @ ws2"]) (simp_all add: 1 ac_simps)
qed

subsection \<open>The poller's steps\<close>

lemma world_pop_ok:
  assumes laws: "deque_laws (sv_deques sv) contents injected" and ok: "world_ok nb ne own w"
  shows "case world_pop sv w of (r, w') \<Rightarrow> world_ok nb ne own w' \<and>
    world_tasks contents injected own w' + option_mset r = world_tasks contents injected own w \<and>
    (r = None \<longrightarrow> po_ready (wo_poller w) = [] \<and> still contents injected w w')"
proof -
  let ?api = "sv_deques sv" and ?ex = "cx_executor (wo_context w)"
  obtain r p xs where pop: "pop_and_inject ?api ?ex (wo_poller w) (wo_execs w) = (r, p, xs)"
    by (cases "pop_and_inject ?api ?ex (wo_poller w) (wo_execs w)")
  have p: "po_expired p = po_expired (wo_poller w)"
    using pop by (auto simp: pop_and_inject_def poller_inject_def Let_def split: list.splits prod.splits if_splits)
  note s = pop_and_inject_eq [OF laws, where ex = ?ex and p = "wo_poller w" and xs = "wo_execs w", unfolded pop, simplified]
  have "mset (po_ready (wo_poller w)) = option_mset r + mset (tl (po_ready (wo_poller w)))"
    using arg_cong [OF conjunct1 [OF s], where f = mset] by (simp add: option_mset_def split: option.splits)
  moreover have "mset (injected (dx_injector (xs ?ex))) =
      mset (injected (dx_injector (wo_execs w ?ex))) + mset (tl (po_ready (wo_poller w)))"
    using s by simp
  moreover have "po_ready (wo_poller w) = []" if "r = None" using s that by (cases "po_ready (wo_poller w)") simp_all
  ultimately show ?thesis
    using ok p s pop
    by (simp add: world_pop_def world_ok_def world_tasks_def injector_tasks_def still_def own_tasks_def
        injected_tasks_def ac_simps)
qed

lemma events_process:
  assumes "ws_inv nb ne (np_storage np) live" "\<forall>ev \<in> set evs. event_ok ne (np_storage np) ev"
  shows "\<exists>ws np'. process_events evs np = Inr (ws, np') \<and> ws_inv nb ne (np_storage np') live \<and>
    (\<forall>i. in_blocks ne (np_storage np') i = in_blocks ne (np_storage np) i)"
  using assms
proof (induction evs arbitrary: np)
  case (Cons ev evs)
  show ?case
  proof (cases "ev_token ev = SIGNAL_TOKEN")
    case True
    then show ?thesis using Cons by (auto simp: process_event_def)
  next
    case False
    then obtain i where i: "index_from_usize (ev_token ev) = Inr i" "in_blocks ne (np_storage np) i"
      using Cons.prems(2) by (auto simp: event_ok_def split: sum.splits)
    obtain ws e e' where pe: "process_event ev np = Inr (ws, np\<lparr>np_storage := ws_put i e' (np_storage np)\<rparr>)"
      and ok: "\<And>k. aw_ok (e' k)"
      by (rule process_event_ok [OF Cons.prems(1) False i]) (rule that)
    let ?np = "np\<lparr>np_storage := ws_put i e' (np_storage np)\<rparr>"
    have inv: "ws_inv nb ne (np_storage ?np) live"
      using ws_inv_put [OF Cons.prems(1) i(2) ok] by simp
    have "blocks_ok nb ne (np_storage np)" using Cons.prems(1) by (simp add: ws_inv_def)
    from ws_put_ok(2) [OF this i(2) ok]
    have same: "in_blocks ne (np_storage ?np) j = in_blocks ne (np_storage np) j" for j
      by (simp add: in_blocks_def)
    have "event_ok ne (np_storage ?np) x = event_ok ne (np_storage np) x" for x
      by (rule event_ok_cong) (rule same)
    then have "\<forall>ev \<in> set evs. event_ok ne (np_storage ?np) ev" using Cons.prems(2) by simp
    from Cons.IH [OF inv this] pe same show ?thesis by auto
  qed
qed auto

lemma poll_io_ok:
  assumes laws: "deque_laws (sv_deques sv) contents injected" and ok: "world_ok nb ne own w"
  shows "\<exists>r w'. worker_poll_io sv w = Inr (r, w') \<and> world_ok nb ne own w' \<and>
    conserves contents injected (sv_wakes sv) own w r w'"
proof (cases "np_try_poll (wo_net w)")
  case (Pair locked np)
  have st: "np_storage np = np_storage (wo_net w)"
    using Pair by (auto simp: np_try_poll_def split: if_splits)
  show ?thesis
  proof (cases locked)
    case False
    have "world_ok nb ne own (w\<lparr>wo_net := np\<rparr>)" using ok st by (simp add: world_ok_def net_ok_def)
    moreover have "world_tasks contents injected own (w\<lparr>wo_net := np\<rparr>) = world_tasks contents injected own w"
      by (simp add: world_tasks_def)
    ultimately show ?thesis
      using Pair False
      by (auto simp: worker_poll_io_def still_def own_tasks_def injected_tasks_def intro: conserves_eq)
  next
    case True
    obtain events selects where sel: "(case wo_selects w of [] \<Rightarrow> ([], []) | ev # evs \<Rightarrow> (ev, evs)) =
        (events, selects)" by fastforce
    then have ev: "\<forall>ev \<in> set events. event_ok ne (np_storage (wo_net w)) ev"
      and rest: "set selects \<subseteq> set (wo_selects w)"
      using ok by (auto simp: world_ok_def net_ok_def split: list.splits)
    obtain live where live: "ws_inv nb ne (np_storage (wo_net w)) live"
      using ok by (auto simp: world_ok_def net_ok_def)
    have g: "np_storage (np_drop_guard np) = np_storage (wo_net w)" using st by (simp add: np_drop_guard_def)
    from events_process [of nb ne "np_drop_guard np" live events] live ev g obtain ws np1 where
      pe: "process_events events (np_drop_guard np) = Inr (ws, np1)" and inv1: "ws_inv nb ne (np_storage np1) live"
      and blocks: "\<forall>i. in_blocks ne (np_storage np1) i = in_blocks ne (np_storage (wo_net w)) i" by auto
    let ?p = "(wo_poller w)\<lparr>po_events := events,
      po_ready := po_ready (wo_poller w) @ List.map_filter (sv_wakes sv) ws\<rparr>"
    let ?w = "w\<lparr>wo_net := np1, wo_poller := ?p, wo_context := wo_context w, wo_execs := wo_execs w,
      wo_selects := selects\<rparr>"
    have c: "cx_intercept (wo_context w) = None" using ok by (simp add: world_ok_def)
    have run: "worker_poll_io sv w = Inr (world_pop sv ?w)"
      using Pair True sel
      by (simp add: worker_poll_io_def poller_poll_network_eq [OF c pe])
    have "event_ok ne (np_storage np1) x = event_ok ne (np_storage (wo_net w)) x" for x
      by (rule event_ok_cong) (simp add: blocks)
    then have "\<forall>evs \<in> set selects. \<forall>ev \<in> set evs. event_ok ne (np_storage np1) ev"
      using ok rest by (auto simp: world_ok_def net_ok_def)
    then have ok1: "world_ok nb ne own ?w"
      using ok inv1 by (auto simp: world_ok_def net_ok_def)
    have tasks: "world_tasks contents injected own ?w =
        world_tasks contents injected own w + mset (List.map_filter (sv_wakes sv) ws)"
      by (simp add: world_tasks_def ac_simps)
    obtain r w' where pop: "world_pop sv ?w = (r, w')" by (cases "world_pop sv ?w")
    from world_pop_ok [OF laws ok1] pop have ok2: "world_ok nb ne own w'"
      and t: "world_tasks contents injected own w' + option_mset r = world_tasks contents injected own ?w"
      and none: "r = None \<Longrightarrow> po_ready (wo_poller ?w) = [] \<and> still contents injected ?w w'" by auto
    have "still contents injected w ?w" if "po_ready (wo_poller ?w) = []"
      using that by (simp add: still_def own_tasks_def injected_tasks_def)
    then have "still contents injected w w'" if "r = None" using none [OF that] still_trans by blast
    then have "conserves contents injected (sv_wakes sv) own w r w'"
      by (rule conservesI [OF trans [OF t tasks]])
    then show ?thesis using run pop ok2 by auto
  qed
qed

lemma poller_timers_cases:
  assumes inv: "tq_inv q live" and c: "cx_intercept c = None" and p: "po_expired p = []"
  obtains now' timeout' q' ws where
    "poller_poll_timers api wr clock q now timeout p c xs =
       Inr (now', timeout', q', p\<lparr>po_ready := po_ready p @ List.map_filter wr ws\<rparr>, c, xs)"
    "tq_inv q' live"
proof (cases "tq_expires_at q")
  case None
  then show ?thesis
    using that [where ws = "[]" and q' = q] inv poller_poll_timers_eq [OF assms, where api = api and wr = wr and
      clock = clock and now = now and timeout = timeout and xs = xs] by simp
next
  case (Some expires)
  note due = poller_poll_timers_eq [OF assms, where api = api and wr = wr and
      clock = clock and now = now and timeout = timeout and xs = xs]
  show ?thesis
  proof (cases "tq_since q (poll_instant now clock) < expires")
    case True
    then show ?thesis using that [where ws = "[]" and q' = q] inv due Some by auto
  next
    case False
    let ?ws = "List.map_filter (entry_waker q)
      (map snd (filter (due (max (tq_current q) (tq_since q (poll_instant now clock)))) (pending_timers q)))"
    from due Some False obtain q' where
      "poller_poll_timers api wr clock q now timeout p c xs = Inr (Some (poll_instant now clock), timeout, q',
         p\<lparr>po_ready := po_ready p @ List.map_filter wr ?ws\<rparr>, c, xs)" "tq_inv q' live" by auto
    then show ?thesis by (rule that)
  qed
qed

lemma poll_timers_ok:
  assumes laws: "deque_laws (sv_deques sv) contents injected" and ok: "world_ok nb ne own w"
    and i: "i < length (wo_timers w)"
  shows "\<exists>r w'. worker_poll_timers sv i w = Inr (r, w') \<and> world_ok nb ne own w' \<and>
    length (wo_timers w') = length (wo_timers w) \<and> conserves contents injected (sv_wakes sv) own w r w'"
proof -
  have c: "cx_intercept (wo_context w) = None" and p: "po_expired (wo_poller w) = []"
    using ok by (simp_all add: world_ok_def)
  have "\<exists>live. tq_inv (wo_timers w ! i) live" using ok i nth_mem [of i "wo_timers w"] by (simp add: world_ok_def)
  then obtain live where live: "tq_inv (wo_timers w ! i) live" ..
  obtain now' timeout' q' ws where poll:
    "poller_poll_timers (sv_deques sv) (sv_wakes sv) (wo_clock w) (wo_timers w ! i) (wo_now w) (wo_timeout w)
       (wo_poller w) (wo_context w) (wo_execs w) = Inr (now', timeout', q',
        (wo_poller w)\<lparr>po_ready := po_ready (wo_poller w) @ List.map_filter (sv_wakes sv) ws\<rparr>, wo_context w, wo_execs w)"
    and inv: "tq_inv q' live"
    by (rule poller_timers_cases [OF live c p, where api = "sv_deques sv" and wr = "sv_wakes sv" and
        clock = "wo_clock w" and now = "wo_now w" and timeout = "wo_timeout w" and xs = "wo_execs w"]) (rule that)
  let ?w = "w\<lparr>wo_timers := (wo_timers w)[i := q'], wo_now := now', wo_timeout := timeout',
    wo_poller := (wo_poller w)\<lparr>po_ready := po_ready (wo_poller w) @ List.map_filter (sv_wakes sv) ws\<rparr>,
    wo_context := wo_context w, wo_execs := wo_execs w\<rparr>"
  have "set ((wo_timers w)[i := q']) \<subseteq> insert q' (set (wo_timers w))" by (rule set_update_subset_insert)
  then have "\<forall>q \<in> set ((wo_timers w)[i := q']). \<exists>live. tq_inv q live"
    using ok inv by (auto simp: world_ok_def)
  then have ok1: "world_ok nb ne own ?w" using ok by (simp add: world_ok_def)
  have tasks: "world_tasks contents injected own ?w =
      world_tasks contents injected own w + mset (List.map_filter (sv_wakes sv) ws)"
    by (simp add: world_tasks_def ac_simps)
  obtain r w' where pop: "world_pop sv ?w = (r, w')" by (cases "world_pop sv ?w")
  have run: "worker_poll_timers sv i w = Inr (r, w')"
    using i poll pop by (simp add: worker_poll_timers_def)
  have len: "length (wo_timers w') = length (wo_timers w)"
    using pop by (auto simp: world_pop_def split: prod.splits)
  from world_pop_ok [OF laws ok1] pop have ok2: "world_ok nb ne own w'"
    and t: "world_tasks contents injected own w' + option_mset r = world_tasks contents injected own ?w"
    and none: "r = None \<Longrightarrow> po_ready (wo_poller ?w) = [] \<and> still contents injected ?w w'" by auto
  have "still contents injected w ?w" if "po_ready (wo_poller ?w) = []"
    using that by (simp add: still_def own_tasks_def injected_tasks_def)
  then have "still contents injected w w'" if "r = None" using none [OF that] still_trans by blast
  then have "conserves contents injected (sv_wakes sv) own w r w'"
    by (rule conservesI [OF trans [OF t tasks]])
  then show ?thesis using run len ok2 by blast
qed

subsection \<open>The queues\<close>

text \<open>A step at the queues, whose result is a \<open>steal\<close>.\<close>

definition steal_mset :: "'r steal \<Rightarrow> 'r multiset" where
  "steal_mset st = (case st of Steal_Success r \<Rightarrow> {#r#} | _ \<Rightarrow> {#})"

lemma steal_mset_success: "steal_mset st = option_mset (steal_success st)"
  by (cases st) (simp_all add: steal_mset_def steal_success_def)

lemma put_producer_ok:
  assumes "world_ok nb ne own w" "cx_producer (wo_context w) = Some p"
  shows "world_ok nb ne own (put_producer p' w)"
    and "world_tasks contents injected own (put_producer p' w) + mset (contents (pr_deque p)) =
      world_tasks contents injected own w + mset (contents (pr_deque p'))"
  using assms by (simp_all add: put_producer_def world_ok_def world_tasks_def context_tasks_def ac_simps)

lemma world_producer_ok:
  assumes "world_ok nb ne own w"
  obtains p where "cx_producer (wo_context w) = Some p" "world_producer w = Inr p"
  using assms by (auto simp: world_ok_def world_producer_def)

lemma moved_still:
  "moved src dst st src' dst' \<Longrightarrow> steal_success st = None \<Longrightarrow>
   src' = src \<and> dst' = dst \<and> (st = Steal_Empty \<longrightarrow> src = [])"
  by (cases st) (simp_all add: steal_success_def)

lemma producer_consume_still:
  assumes "deque_laws api contents injected" "producer_consume api j p = (st, j', p')" "steal_success st = None"
  shows "injected j' = injected j \<and> contents (pr_deque p') = contents (pr_deque p) \<and>
    (st = Steal_Empty \<longrightarrow> injected j = [])"
  using da_inj_batch_law [OF assms(1), of j "pr_deque p"] assms(2,3) moved_still
  by (fastforce simp: producer_consume_def split: prod.splits)

lemma producer_steal_still:
  assumes "deque_laws api contents injected" "producer_steal api d p = (st, d', p')" "steal_success st = None"
  shows "contents d' = contents d \<and> contents (pr_deque p') = contents (pr_deque p) \<and>
    (st = Steal_Empty \<longrightarrow> contents d = [])"
  using da_batch_law [OF assms(1), of d "pr_deque p"] assms(2,3) moved_still
  by (fastforce simp: producer_steal_def split: prod.splits)

lemma consume_ok:
  assumes laws: "deque_laws (sv_deques sv) contents injected" and ok: "world_ok nb ne own w"
  shows "\<exists>st w'. worker_consume sv w = Inr (st, w') \<and> world_ok nb ne own w' \<and>
    (st = Steal_Empty \<longrightarrow> injected_tasks injected w = []) \<and>
    conserves contents injected (sv_wakes sv) own w (steal_success st) w'"
proof -
  obtain p where p: "cx_producer (wo_context w) = Some p" "world_producer w = Inr p"
    by (rule world_producer_ok [OF ok])
  let ?ex = "cx_executor (wo_context w)"
  let ?j = "dx_injector (wo_execs w ?ex)"
  obtain st j p1 where c: "producer_consume (sv_deques sv) ?j p = (st, j, p1)"
    by (cases "producer_consume (sv_deques sv) ?j p")
  let ?w = "w\<lparr>wo_execs := (wo_execs w)(?ex := (wo_execs w ?ex)\<lparr>dx_injector := j\<rparr>)\<rparr>"
  have run: "worker_consume sv w = Inr (st, put_producer p1 ?w)"
    using p c by (simp add: worker_consume_def Let_def)
  have ok1: "world_ok nb ne own ?w" using ok by (simp add: world_ok_def)
  have pw: "cx_producer (wo_context ?w) = Some p" using p by simp
  have t1: "world_tasks contents injected own ?w + mset (injected ?j) =
      world_tasks contents injected own w + mset (injected j)"
    by (simp add: world_tasks_def injector_tasks_def ac_simps)
  note t2 = put_producer_ok(2) [OF ok1 pw, of contents injected p1]
  have t3: "mset (injected ?j) + mset (contents (pr_deque p)) =
      mset (injected j) + mset (contents (pr_deque p1)) + option_mset (steal_success st)"
    using producer_consume_mset(1) [OF laws c] by (simp add: steal_mset_success [symmetric] steal_mset_def)
  have "conserves contents injected (sv_wakes sv) own w (steal_success st) (put_producer p1 ?w)"
  proof (rule conserves_eq [OF moved_balance [OF t1 t2 t3]])
    assume "steal_success st = None"
    from producer_consume_still [OF laws c this] p
    show "still contents injected w (put_producer p1 ?w)"
      by (simp add: still_def own_tasks_def injected_tasks_def put_producer_def)
  qed
  moreover have "injected_tasks injected w = []" if "st = Steal_Empty"
    using producer_consume_still [OF laws c] that by (simp add: injected_tasks_def steal_success_def)
  ultimately show ?thesis using run put_producer_ok(1) [OF ok1 pw] by blast
qed

lemma steal_ok:
  assumes laws: "deque_laws (sv_deques sv) contents injected" and ok: "world_ok nb ne own w"
    and i: "i < length (wo_queues w)" "i \<noteq> own"
  shows "\<exists>st w'. worker_steal sv i w = Inr (st, w') \<and> world_ok nb ne own w' \<and>
    length (wo_timers w') = length (wo_timers w) \<and> (st = Steal_Empty \<longrightarrow> contents (wo_queues w ! i) = []) \<and>
    conserves contents injected (sv_wakes sv) own w (steal_success st) w'"
proof -
  obtain p where p: "cx_producer (wo_context w) = Some p" "world_producer w = Inr p"
    by (rule world_producer_ok [OF ok])
  let ?d = "wo_queues w ! i"
  obtain st d p1 where c: "producer_steal (sv_deques sv) ?d p = (st, d, p1)"
    by (cases "producer_steal (sv_deques sv) ?d p")
  let ?w = "w\<lparr>wo_queues := (wo_queues w)[i := d]\<rparr>"
  have run: "worker_steal sv i w = Inr (st, put_producer p1 ?w)"
    using p c i by (simp add: worker_steal_def Let_def)
  have ok1: "world_ok nb ne own ?w" using ok by (simp add: world_ok_def)
  have pw: "cx_producer (wo_context ?w) = Some p" using p by simp
  have t1: "world_tasks contents injected own ?w + mset (contents ?d) =
      world_tasks contents injected own w + mset (contents d)"
    using queued_tasks_update [OF i, of contents d] by (simp add: world_tasks_def ac_simps)
  note t2 = put_producer_ok(2) [OF ok1 pw, of contents injected p1]
  have t3: "mset (contents ?d) + mset (contents (pr_deque p)) =
      mset (contents d) + mset (contents (pr_deque p1)) + option_mset (steal_success st)"
    using producer_steal_mset(1) [OF laws c] by (simp add: steal_mset_success [symmetric] steal_mset_def)
  have "conserves contents injected (sv_wakes sv) own w (steal_success st) (put_producer p1 ?w)"
  proof (rule conserves_eq [OF moved_balance [OF t1 t2 t3]])
    assume "steal_success st = None"
    from producer_steal_still [OF laws c this] p i
    show "still contents injected w (put_producer p1 ?w)"
      by (simp add: still_def own_tasks_def injected_tasks_def put_producer_def map_update list_update_same_conv)
  qed
  moreover have "contents (wo_queues w ! i) = []" if "st = Steal_Empty"
    using producer_steal_still [OF laws c] that by (simp add: steal_success_def)
  moreover have "length (wo_timers (put_producer p1 ?w)) = length (wo_timers w)" by (simp add: put_producer_def)
  ultimately show ?thesis using run put_producer_ok(1) [OF ok1 pw] by blast
qed

lemma producer_pop_settled:
  assumes "deque_laws api contents injected" "steals_settle api (pr_deque p) n"
  obtains r p' where "producer_pop api be_fair p = Some (r, p')"
    "mset (contents (pr_deque p)) = mset (contents (pr_deque p')) + option_mset r"
    "r = None \<Longrightarrow> contents (pr_deque p) = [] \<and> contents (pr_deque p') = []"
proof -
  obtain r p' where run: "producer_pop api be_fair p = Some (r, p')" and
    cs: "case contents (pr_deque p) of
       [] \<Rightarrow> r = None \<and> contents (pr_deque p') = []
     | t # ts \<Rightarrow>
         if be_fair \<or> pr_be_fair p
         then r = Some t \<and> contents (pr_deque p') = ts
         else r = Some (last (t # ts)) \<and> contents (pr_deque p') = butlast (t # ts)"
    using producer_pop_eq [OF assms, of be_fair] by blast
  have "mset (contents (pr_deque p)) = mset (contents (pr_deque p')) + option_mset r"
    by (rule producer_pop_mset [OF assms(1) run])
  moreover have "contents (pr_deque p) = [] \<and> contents (pr_deque p') = []" if "r = None"
    using cs that by (simp split: list.splits if_splits)
  ultimately show ?thesis using run by (intro that) blast+
qed

lemma pop_ok:
  assumes laws: "deque_laws (sv_deques sv) contents injected" and ok: "world_ok nb ne own w"
    and settle: "\<And>d. \<exists>n. steals_settle (sv_deques sv) d n"
  shows "\<exists>r w'. worker_pop sv be_fair w = Some (Inr (r, w')) \<and> world_ok nb ne own w' \<and>
    (r = None \<longrightarrow> own_tasks contents w = []) \<and> conserves contents injected (sv_wakes sv) own w r w'"
proof -
  obtain p where p: "cx_producer (wo_context w) = Some p" "world_producer w = Inr p"
    by (rule world_producer_ok [OF ok])
  obtain n where n: "steals_settle (sv_deques sv) (pr_deque p) n" using settle by blast
  obtain r p1 where pop: "producer_pop (sv_deques sv) be_fair p = Some (r, p1)"
    and t: "mset (contents (pr_deque p)) = mset (contents (pr_deque p1)) + option_mset r"
    and none: "r = None \<Longrightarrow> contents (pr_deque p) = [] \<and> contents (pr_deque p1) = []"
    by (rule producer_pop_settled [OF laws n, where be_fair = be_fair]) (rule that, assumption, assumption, blast)
  have run: "worker_pop sv be_fair w = Some (Inr (r, put_producer p1 w))"
    using p pop by (simp add: worker_pop_def)
  have t1: "world_tasks contents injected own w + {#} = world_tasks contents injected own w + {#}" by simp
  have "conserves contents injected (sv_wakes sv) own w r (put_producer p1 w)"
  proof (rule conserves_eq)
    show "world_tasks contents injected own (put_producer p1 w) + option_mset r = world_tasks contents injected own w"
      by (rule moved_balance [OF t1 put_producer_ok(2) [OF ok p(1)]]) (simp add: t)
    show "still contents injected w (put_producer p1 w)" if "r = None"
      using none [OF that] p by (simp add: still_def own_tasks_def injected_tasks_def put_producer_def)
  qed
  moreover have "r = None \<longrightarrow> own_tasks contents w = []" using none p by (simp add: own_tasks_def)
  ultimately show ?thesis using run put_producer_ok(1) [OF ok p(1)] by blast
qed

subsection \<open>The search\<close>

lemma steal_round_ok:
  assumes laws: "deque_laws (sv_deques sv) contents injected"
  shows "world_ok nb ne own w \<Longrightarrow> set order \<subseteq> {0..<length (wo_timers w)} \<Longrightarrow>
    \<exists>r c w'. steal_round sv own timers_too order contended w = Inr (r, c, w') \<and> world_ok nb ne own w' \<and>
      conserves contents injected (sv_wakes sv) own w r w'"
proof (induction order arbitrary: contended w)
  case Nil
  then show ?case using conserves_refl by auto
next
  case (Cons i order)
  show ?case
  proof (cases "i = own")
    case True
    then show ?thesis using Cons by simp
  next
    case False
    have i: "i < length (wo_timers w)" "i < length (wo_queues w)"
      using Cons.prems by (simp_all add: world_ok_def)
    obtain st w1 where st: "worker_steal sv i w = Inr (st, w1)" and ok1: "world_ok nb ne own w1"
      and len: "length (wo_timers w1) = length (wo_timers w)"
      and t1: "conserves contents injected (sv_wakes sv) own w (steal_success st) w1"
      using steal_ok [OF laws Cons.prems(1) i(2) False] by blast
    show ?thesis
    proof (cases "steal_success st")
      case (Some r)
      then have "st = Steal_Success r" by (cases st) (simp_all add: steal_success_def)
      then show ?thesis using False st ok1 t1 Some by auto
    next
      case None
      let ?c = "contended \<or> st = Steal_Retry"
      have t1': "conserves contents injected (sv_wakes sv) own w None w1" using t1 None by simp
      have run: "steal_round sv own timers_too (i # order) contended w =
          (if \<not> ?c \<and> timers_too
           then rbind (worker_poll_timers sv i w1) (\<lambda>(r, w2).
                  case r of Some t \<Rightarrow> Inr (Some t, ?c, w2)
                  | None \<Rightarrow> steal_round sv own timers_too order ?c w2)
           else steal_round sv own timers_too order ?c w1)"
        using False st None by (cases st) (auto simp: steal_success_def cong: option.case_cong)
      show ?thesis
      proof (cases "\<not> ?c \<and> timers_too")
        case True
        have "i < length (wo_timers w1)" using i len by simp
        from poll_timers_ok [OF laws ok1 this] obtain r w2 where
          pt: "worker_poll_timers sv i w1 = Inr (r, w2)" and ok2: "world_ok nb ne own w2"
          and len2: "length (wo_timers w2) = length (wo_timers w1)"
          and t2: "conserves contents injected (sv_wakes sv) own w1 r w2" by blast
        note t12 = conserves_trans [OF t1' t2]
        show ?thesis
        proof (cases r)
          case (Some t)
          then have "steal_round sv own timers_too (i # order) contended w = Inr (Some t, ?c, w2)"
            unfolding run using pt True by simp
          then show ?thesis using ok2 t12 Some by blast
        next
          case r: None
          have "set order \<subseteq> {0..<length (wo_timers w2)}" using Cons.prems(2) len len2 by simp
          from Cons.IH [OF ok2 this, of ?c] obtain r' c w' where
            rest: "steal_round sv own timers_too order ?c w2 = Inr (r', c, w')" and ok3: "world_ok nb ne own w'"
            and t3: "conserves contents injected (sv_wakes sv) own w2 r' w'" by blast
          have "conserves contents injected (sv_wakes sv) own w None w2" using t12 r by simp
          then have "conserves contents injected (sv_wakes sv) own w r' w'" using t3 by (rule conserves_trans)
          moreover have "steal_round sv own timers_too (i # order) contended w = Inr (r', c, w')"
            unfolding run using pt r rest True by simp
          ultimately show ?thesis using ok3 by blast
        qed
      next
        case False
        have "set order \<subseteq> {0..<length (wo_timers w1)}" using Cons.prems(2) len by simp
        from Cons.IH [OF ok1 this, of ?c] obtain r' c w' where
          "steal_round sv own timers_too order ?c w1 = Inr (r', c, w')" "world_ok nb ne own w'"
          "conserves contents injected (sv_wakes sv) own w1 r' w'" by blast
        then show ?thesis unfolding run if_not_P [OF False] using conserves_trans [OF t1'] by blast
      qed
    qed
  qed
qed

lemma gen_iter_below:
  assumes "rng_ok g" "src_ok src"
  obtains items g' where "gen_iter g src = Inr (items, g')" "rng_ok g'" "set items = {0..<ri_range src}"
proof -
  have "unat (xorshift (rg_xorshift g)) mod ri_range src < ri_range src"
    using assms(2) by (simp add: src_ok_def)
  then obtain items where "iter_items src (ri_range src) (unat (xorshift (rg_xorshift g)) mod ri_range src) = Inr items"
    "set items = {0..<ri_range src}"
    by (rule iter_items_perm [OF assms(2)]) (rule that)
  then show ?thesis
    using that [of items] rng_gen_ok [OF assms(1)] by (simp add: gen_iter_def)
qed

lemma search_loop_ok:
  assumes laws: "deque_laws (sv_deques sv) contents injected"
  shows "world_ok nb ne own w \<Longrightarrow>
    \<exists>r w'. search_loop sv own n retries w = Inr (r, w') \<and> world_ok nb ne own w' \<and>
      conserves contents injected (sv_wakes sv) own w r w'"
proof (induction n arbitrary: retries w)
  case 0
  then show ?case using conserves_refl by auto
next
  case (Suc n)
  obtain st w1 where st: "worker_consume sv w = Inr (st, w1)" and ok1: "world_ok nb ne own w1"
    and t1: "conserves contents injected (sv_wakes sv) own w (steal_success st) w1"
    using consume_ok [OF laws Suc.prems] by blast
  show ?case
  proof (cases "steal_success st")
    case (Some r)
    then have "st = Steal_Success r" by (cases st) (simp_all add: steal_success_def)
    then show ?thesis using st ok1 t1 Some by auto
  next
    case None
    let ?timers = "retries = 1 \<or> n = 0" and ?c = "st = Steal_Retry"
    have g: "rng_ok (wo_rng w1)" "src_ok (wo_source w1)" "ri_range (wo_source w1) = length (wo_timers w1)"
      using ok1 by (simp_all add: world_ok_def)
    obtain order g' where iter: "gen_iter (wo_rng w1) (wo_source w1) = Inr (order, g')" and g': "rng_ok g'"
      and order: "set order = {0..<ri_range (wo_source w1)}"
      by (rule gen_iter_below [OF g(1,2)])
    let ?w = "w1\<lparr>wo_rng := g'\<rparr>"
    have ok2: "world_ok nb ne own ?w" using ok1 g' by (simp add: world_ok_def)
    have t2: "conserves contents injected (sv_wakes sv) own w None ?w"
      using t1 None by (simp add: conserves_def world_tasks_def still_def own_tasks_def injected_tasks_def)
    have "set order \<subseteq> {0..<length (wo_timers ?w)}" using order g(3) by simp
    from steal_round_ok [OF laws ok2 this, of ?timers ?c] obtain r c w2 where
      round: "steal_round sv own ?timers order ?c ?w = Inr (r, c, w2)" and ok3: "world_ok nb ne own w2"
      and t3: "conserves contents injected (sv_wakes sv) own ?w r w2" by blast
    note t23 = conserves_trans [OF t2 t3]
    have run: "search_loop sv own (Suc n) retries w =
        (case r of Some t \<Rightarrow> Inr (Some t, w2)
         | None \<Rightarrow> if c \<or> 0 < retries then search_loop sv own n (if c then retries else retries - 1) w2
                  else Inr (None, w2))"
      using st None iter round by (cases st; cases r; cases c) (simp_all add: steal_success_def)
    show ?thesis
    proof (cases r)
      case (Some t)
      then show ?thesis unfolding run using ok3 t23 by simp
    next
      case r: None
      show ?thesis
      proof (cases "c \<or> 0 < retries")
        case True
        from Suc.IH [OF ok3, of "if c then retries else retries - 1"] obtain r' w' where
          "search_loop sv own n (if c then retries else retries - 1) w2 = Inr (r', w')" "world_ok nb ne own w'"
          "conserves contents injected (sv_wakes sv) own w2 r' w'" by blast
        moreover have "conserves contents injected (sv_wakes sv) own w None w2" using t23 r by simp
        moreover have "search_loop sv own (Suc n) retries w = Inr (r', w')"
          unfolding run using r True calculation(1) by simp
        ultimately show ?thesis using conserves_trans by blast
      next
        case False
        then show ?thesis unfolding run using r ok3 t23 by simp
      qed
    qed
  qed
qed

subsection \<open>The whole poll\<close>

definition keeps :: "('d \<Rightarrow> 'r list) \<Rightarrow> ('j \<Rightarrow> 'r list) \<Rightarrow> ('w \<Rightarrow> 'r option) \<Rightarrow> nat \<Rightarrow> nat \<Rightarrow> nat \<Rightarrow>
    ('d, 'j, 'r, 'w) world \<Rightarrow> ('r option \<times> ('d, 'j, 'r, 'w) world) res option \<Rightarrow> bool" where
  "keeps contents injected wr nb ne own w m \<longleftrightarrow>
     (\<exists>r w'. m = Some (Inr (r, w')) \<and> world_ok nb ne own w' \<and> conserves contents injected wr own w r w')"

lemma keeps_Inr:
  "\<exists>r w'. m = Inr (r, w') \<and> world_ok nb ne own w' \<and> conserves contents injected wr own w r w' \<Longrightarrow>
   keeps contents injected wr nb ne own w (Some m)"
  by (auto simp: keeps_def)

lemma keeps_skip: "world_ok nb ne own w \<Longrightarrow> keeps contents injected wr nb ne own w (Some (Inr (None, w)))"
  using conserves_refl by (auto simp: keeps_def)

lemma keeps_or_then:
  assumes "keeps contents injected wr nb ne own w m"
    and "\<And>w1. world_ok nb ne own w1 \<Longrightarrow> keeps contents injected wr nb ne own w1 (f w1)"
  shows "keeps contents injected wr nb ne own w (or_then m f)"
proof -
  obtain r w1 where m: "m = Some (Inr (r, w1))" "world_ok nb ne own w1" "conserves contents injected wr own w r w1"
    using assms(1) by (auto simp: keeps_def)
  show ?thesis
  proof (cases r)
    case None
    from assms(2) [OF m(2)] obtain r' w' where f: "f w1 = Some (Inr (r', w'))" and ok: "world_ok nb ne own w'"
      and t: "conserves contents injected wr own w1 r' w'" unfolding keeps_def by blast
    have "or_then m f = Some (Inr (r', w'))" using m(1) None f by (simp add: or_then_def obind_def)
    then show ?thesis unfolding keeps_def using ok conserves_trans [OF m(3) [unfolded None] t] by blast
  next
    case (Some t)
    then show ?thesis using m by (auto simp: keeps_def or_then_def obind_def)
  qed
qed

lemma search_begin_ok:
  assumes "unat (ex_searching ex) \<le> ex_workers ex" "ex_workers ex < 2 ^ 63"
  obtains s ex' where "search_begin ex = Inr (s, ex')" "unat (ex_searching ex') \<le> ex_workers ex'"
    "ex_workers ex' = ex_workers ex"
proof (cases "2 * unat (ex_searching ex) < ex_workers ex")
  case True
  have "unat (ex_searching ex + 1) = unat (ex_searching ex) + 1"
    using True assms by (simp add: unat_word_ariths)
  then show ?thesis using True assms
    by (intro that [of True "ex\<lparr>ex_searching := ex_searching ex + 1\<rparr>"])
      (simp_all add: search_begin_def search_wanted_def searching_add_def)
next
  case False
  then show ?thesis using assms
    by (intro that [of False ex]) (simp_all add: search_begin_def search_wanted_def)
qed

subsection \<open>A search that finds nothing\<close>

text \<open>Deques whose steals are never contended.\<close>

definition never_retries :: "('d, 'j, 'r) deque_api \<Rightarrow> bool" where
  "never_retries api \<longleftrightarrow> (\<forall>d e. fst (da_batch api d e) \<noteq> Steal_Retry) \<and>
     (\<forall>j d. fst (da_inj_batch api j d) \<noteq> Steal_Retry)"

lemma never_retries_steps:
  assumes "never_retries (sv_deques sv)"
  shows "worker_consume sv w = Inr (st, w') \<Longrightarrow> st \<noteq> Steal_Retry"
    and "worker_steal sv i w = Inr (st, w') \<Longrightarrow> st \<noteq> Steal_Retry"
proof -
  have j: "fst (da_inj_batch (sv_deques sv) j d) \<noteq> Steal_Retry" and b: "fst (da_batch (sv_deques sv) d e) \<noteq> Steal_Retry"
    for j d e using assms by (simp_all add: never_retries_def)
  show "worker_consume sv w = Inr (st, w') \<Longrightarrow> st \<noteq> Steal_Retry"
    using j by (auto simp: worker_consume_def producer_consume_def Let_def split: prod.splits) (metis fst_conv)
  show "worker_steal sv i w = Inr (st, w') \<Longrightarrow> st \<noteq> Steal_Retry"
    using b by (auto simp: worker_steal_def producer_steal_def Let_def split: prod.splits) (metis fst_conv)
qed

lemma steal_round_empty:
  assumes laws: "deque_laws (sv_deques sv) contents injected" and never: "never_retries (sv_deques sv)"
  shows "world_ok nb ne own w \<Longrightarrow> set order \<subseteq> {0..<length (wo_timers w)} \<Longrightarrow>
    steal_round sv own timers_too order contended w = Inr (None, c, w') \<Longrightarrow>
    \<forall>i \<in> set order. i \<noteq> own \<longrightarrow> contents (wo_queues w ! i) = []"
proof (induction order arbitrary: contended w)
  case (Cons i order)
  show ?case
  proof (cases "i = own")
    case True
    then show ?thesis using Cons by simp
  next
    case False
    have i: "i < length (wo_queues w)" using Cons.prems by (simp add: world_ok_def)
    obtain st w1 where st: "worker_steal sv i w = Inr (st, w1)" and ok1: "world_ok nb ne own w1"
      and len: "length (wo_timers w1) = length (wo_timers w)"
      and em: "st = Steal_Empty \<longrightarrow> contents (wo_queues w ! i) = []"
      and t1: "conserves contents injected (sv_wakes sv) own w (steal_success st) w1"
      using steal_ok [OF laws Cons.prems(1) i False] by blast
    have "steal_success st = None" using Cons.prems(3) False st by (cases st) (auto simp: steal_success_def)
    then have e: "st = Steal_Empty" and s1: "still contents injected w w1"
      using never_retries_steps(2) [OF never st] t1 by (cases st, auto simp: steal_success_def conserves_still)+
    have "\<exists>w2. world_ok nb ne own w2 \<and> length (wo_timers w2) = length (wo_timers w) \<and> still contents injected w1 w2 \<and>
      steal_round sv own timers_too order contended w2 = Inr (None, c, w')"
    proof (cases "\<not> contended \<and> timers_too")
      case True
      have "i < length (wo_timers w1)" using Cons.prems(2) len by simp
      from poll_timers_ok [OF laws ok1 this] obtain r w2 where
        pt: "worker_poll_timers sv i w1 = Inr (r, w2)" and ok2: "world_ok nb ne own w2"
        and len2: "length (wo_timers w2) = length (wo_timers w1)"
        and t2: "conserves contents injected (sv_wakes sv) own w1 r w2" by blast
      have r: "r = None" "steal_round sv own timers_too order contended w2 = Inr (None, c, w')"
        using Cons.prems(3) False st e True pt by (cases r; simp)+
      have "still contents injected w1 w2" by (rule conserves_still [OF t2 [unfolded r(1)]])
      then show ?thesis using r ok2 len len2 by auto
    next
      case False
      then have "steal_round sv own timers_too order contended w1 = Inr (None, c, w')"
        using Cons.prems(3) \<open>i \<noteq> own\<close> st e by (auto split: if_splits)
      then show ?thesis using ok1 len still_refl by blast
    qed
    then obtain w2 where ok2: "world_ok nb ne own w2" and len2: "length (wo_timers w2) = length (wo_timers w)"
      and s2: "still contents injected w1 w2"
      and rest: "steal_round sv own timers_too order contended w2 = Inr (None, c, w')" by blast
    have sub: "set order \<subseteq> {0..<length (wo_timers w2)}" using Cons.prems(2) len2 by simp
    note s12 = still_trans [OF s1 s2]
    have "contents (wo_queues w ! j) = []" if "j \<in> set order" "j \<noteq> own" for j
    proof -
      have "j < length (wo_queues w)" using Cons.prems(1,2) that(1) by (auto simp: world_ok_def)
      from still_nth [OF s12 this] Cons.IH [OF ok2 sub rest] that show ?thesis by simp
    qed
    then show ?thesis using em e by auto
  qed
qed simp

lemma search_loop_empty:
  assumes laws: "deque_laws (sv_deques sv) contents injected" and never: "never_retries (sv_deques sv)"
    and ok: "world_ok nb ne own w" and run: "search_loop sv own (Suc n) retries w = Inr (None, w')"
  shows "injected_tasks injected w = []" "\<And>i. i < length (wo_queues w) \<Longrightarrow> i \<noteq> own \<Longrightarrow> contents (wo_queues w ! i) = []"
proof -
  obtain st w1 where st: "worker_consume sv w = Inr (st, w1)" and ok1: "world_ok nb ne own w1"
    and em: "st = Steal_Empty \<longrightarrow> injected_tasks injected w = []"
    and t1: "conserves contents injected (sv_wakes sv) own w (steal_success st) w1"
    using consume_ok [OF laws ok] by blast
  have none: "steal_success st = None" using run st by (cases st) (auto simp: steal_success_def)
  then have e: "st = Steal_Empty" using never_retries_steps(1) [OF never st] by (cases st) (auto simp: steal_success_def)
  then show "injected_tasks injected w = []" using em by simp
  have s1: "still contents injected w w1" by (rule conserves_still [OF t1 [unfolded none]])
  have g: "rng_ok (wo_rng w1)" "src_ok (wo_source w1)" "ri_range (wo_source w1) = length (wo_timers w1)"
    using ok1 by (simp_all add: world_ok_def)
  obtain order g' where iter: "gen_iter (wo_rng w1) (wo_source w1) = Inr (order, g')" and g': "rng_ok g'"
    and order: "set order = {0..<ri_range (wo_source w1)}"
    by (rule gen_iter_below [OF g(1,2)])
  let ?w = "w1\<lparr>wo_rng := g'\<rparr>" and ?timers = "retries = 1 \<or> n = 0"
  have ok2: "world_ok nb ne own ?w" using ok1 g' by (simp add: world_ok_def)
  have sub: "set order \<subseteq> {0..<length (wo_timers ?w)}" using order g(3) by simp
  from steal_round_ok [OF laws ok2 sub, of ?timers False] obtain r c w2 where
    round: "steal_round sv own ?timers order False ?w = Inr (r, c, w2)" by blast
  have "r = None" using run st e iter round by (cases r) simp_all
  with round steal_round_empty [OF laws never ok2 sub] have
    none: "\<forall>i \<in> set order. i \<noteq> own \<longrightarrow> contents (wo_queues ?w ! i) = []" by blast
  fix i assume i: "i < length (wo_queues w)" "i \<noteq> own"
  have "length (wo_queues w1) = length (wo_queues w)"
    using s1 by (metis length_map still_def)
  then have "i \<in> set order" using i order g(3) ok1 by (simp add: world_ok_def)
  then show "contents (wo_queues w ! i) = []" using none i still_nth [OF s1 i(1)] by simp
qed

subsection \<open>What a poll does\<close>

lemma search_start:
  assumes ok: "world_ok nb ne own w"
  obtains s e where "(if wo_searching w then Some (Inr (True, wo_search w)) else Some (search_begin (wo_search w))) =
      Some (Inr (s, e))" "world_ok nb ne own (w\<lparr>wo_searching := s, wo_search := e\<rparr>)"
    "wo_searching w \<Longrightarrow> s"
proof -
  obtain b ex where sb: "search_begin (wo_search w) = Inr (b, ex)" and
    ex: "unat (ex_searching ex) \<le> ex_workers ex" "ex_workers ex = ex_workers (wo_search w)"
    by (rule search_begin_ok [of "wo_search w"]) (use ok in \<open>simp_all add: world_ok_def\<close>)
  obtain s e where s: "(if wo_searching w then Some (Inr (True, wo_search w)) else Some (search_begin (wo_search w))) =
      Some (Inr (s, e))" and e: "unat (ex_searching e) \<le> ex_workers e" "ex_workers e = ex_workers (wo_search w)"
    and keep: "wo_searching w \<Longrightarrow> s"
  proof (cases "wo_searching w")
    case True
    then show ?thesis using ok by (intro that [of True "wo_search w"]) (simp_all add: world_ok_def)
  next
    case False
    then show ?thesis using sb ex by (intro that [of b ex]) simp_all
  qed
  have "world_ok nb ne own (w\<lparr>wo_searching := s, wo_search := e\<rparr>)" using ok e by (simp add: world_ok_def)
  with s show ?thesis using keep by (rule that)
qed

lemma keeps_search:
  assumes laws: "deque_laws (sv_deques sv) contents injected" and ok: "world_ok nb ne own w"
  shows "keeps contents injected (sv_wakes sv) nb ne own w (poll_worker_search sv own w)"
proof -
  obtain s e where s: "(if wo_searching w then Some (Inr (True, wo_search w)) else Some (search_begin (wo_search w))) =
      Some (Inr (s, e))" and ok1: "world_ok nb ne own (w\<lparr>wo_searching := s, wo_search := e\<rparr>)"
    and keep: "wo_searching w \<Longrightarrow> s"
    by (rule search_start [OF ok]) (rule that, assumption, assumption, blast)
  let ?w = "w\<lparr>wo_searching := s, wo_search := e\<rparr>"
  have "keeps contents injected (sv_wakes sv) nb ne own ?w (or_then (Some (worker_poll_io sv ?w)) (\<lambda>w2.
      Some (search_loop sv own MAX_ATTEMPTS MAX_RETRIES w2)))"
    by (intro keeps_or_then keeps_Inr poll_io_ok [OF laws ok1] search_loop_ok [OF laws])
  then have "keeps contents injected (sv_wakes sv) nb ne own ?w (poll_worker_search sv own w)"
    using keeps_skip [OF ok1] unfolding poll_worker_search_def s obind_def Let_def by (cases s) auto
  moreover have "conserves contents injected (sv_wakes sv) own w None ?w"
    using keep by (intro conserves_eq) (simp_all add: world_tasks_def still_def own_tasks_def injected_tasks_def)
  ultimately show ?thesis unfolding keeps_def using conserves_trans by blast
qed

lemma keeps_consume:
  assumes "deque_laws (sv_deques sv) contents injected" "world_ok nb ne own w"
  shows "keeps contents injected (sv_wakes sv) nb ne own w
    (Some (rbind (worker_consume sv w) (\<lambda>(st, w'). Inr (steal_success st, w'))))"
proof -
  obtain st w' where "worker_consume sv w = Inr (st, w')" "world_ok nb ne own w'"
    "conserves contents injected (sv_wakes sv) own w (steal_success st) w'" using consume_ok [OF assms] by blast
  then show ?thesis by (simp add: keeps_def)
qed

lemma keeps_timers:
  assumes "deque_laws (sv_deques sv) contents injected" "world_ok nb ne own w"
  shows "keeps contents injected (sv_wakes sv) nb ne own w (Some (worker_poll_timers sv own w))"
proof -
  have "own < length (wo_timers w)" using assms(2) by (simp add: world_ok_def)
  from poll_timers_ok [OF assms this] show ?thesis by (auto simp: keeps_def)
qed

lemma keeps_pop:
  assumes "deque_laws (sv_deques sv) contents injected" "world_ok nb ne own w"
    and "\<And>d. \<exists>n. steals_settle (sv_deques sv) d n"
  shows "keeps contents injected (sv_wakes sv) nb ne own w (worker_pop sv be_fair w)"
  using pop_ok [OF assms, of be_fair] by (auto simp: keeps_def)

text \<open>The steps of a poll before its search.\<close>

definition poll_before :: "('d, 'j, 'r, 'w) services \<Rightarrow> nat \<Rightarrow> ('d, 'j, 'r, 'w) world \<Rightarrow>
    ('r option \<times> ('d, 'j, 'r, 'w) world) res option" where
  "poll_before sv own w =
     or_then (if unat (wo_tick w) mod 61 = 0 then Some (worker_poll_io sv w) else Some (Inr (None, w))) (\<lambda>w1.
     or_then (if unat (wo_tick w) mod 61 = 0 then Some (rbind (worker_consume sv w1) (\<lambda>(st, w').
                                Inr (steal_success st, w')))
              else Some (Inr (None, w1))) (\<lambda>w2.
       Some (worker_poll_timers sv own w2)))"

lemma or_then_assoc: "or_then (or_then m f) g = or_then m (\<lambda>w. or_then (f w) g)"
  by (auto simp: or_then_def obind_def split: option.split sum.split)

lemma poll_worker_eq:
  assumes "world_ok nb ne own w"
  shows "poll_worker sv own w = or_then (poll_before sv own w) (\<lambda>w3.
    or_then (worker_pop sv (unat (wo_tick w) mod 61 = 0) w3) (poll_worker_search sv own))"
proof -
  obtain p where "world_producer w = Inr p" by (rule world_producer_ok [OF assms])
  then show ?thesis by (simp add: poll_worker_def poll_before_def or_then_assoc obind_def Let_def)
qed

lemma keeps_before:
  assumes laws: "deque_laws (sv_deques sv) contents injected" and ok: "world_ok nb ne own w"
  shows "keeps contents injected (sv_wakes sv) nb ne own w (poll_before sv own w)"
  unfolding poll_before_def
proof (intro keeps_or_then)
  show "keeps contents injected (sv_wakes sv) nb ne own w
     (if unat (wo_tick w) mod 61 = 0 then Some (worker_poll_io sv w) else Some (Inr (None, w)))"
    using keeps_Inr [OF poll_io_ok [OF laws ok]] keeps_skip [OF ok] by simp
next
  fix w1 :: "('a, 'b, 'c, 'd) world"
  assume ok1: "world_ok nb ne own w1"
  show "keeps contents injected (sv_wakes sv) nb ne own w1
     (if unat (wo_tick w) mod 61 = 0
      then Some (rbind (worker_consume sv w1) (\<lambda>(st, w'). Inr (steal_success st, w')))
      else Some (Inr (None, w1)))"
    using keeps_consume [OF laws ok1] keeps_skip [OF ok1] by simp
qed (rule keeps_timers [OF laws])

lemma poll_worker_keeps:
  assumes laws: "deque_laws (sv_deques sv) contents injected" and ok: "world_ok nb ne own w"
    and settle: "\<And>d. \<exists>n. steals_settle (sv_deques sv) d n"
  shows "keeps contents injected (sv_wakes sv) nb ne own w (poll_worker sv own w)"
  unfolding poll_worker_eq [OF ok]
  by (intro keeps_or_then keeps_before [OF laws ok] keeps_pop [OF laws _ settle] keeps_search [OF laws])

lemma or_then_None:
  "or_then m f = Some (Inr (None, w')) \<Longrightarrow>
   \<exists>w1. m = Some (Inr (None, w1)) \<and> f w1 = Some (Inr (None, w'))"
  by (auto simp: or_then_def obind_def split: option.splits sum.splits)

lemma keeps_None:
  "keeps contents injected wr nb ne own w (Some (Inr (None, w1))) \<Longrightarrow>
   world_ok nb ne own w1 \<and> still contents injected w w1"
  by (auto simp: keeps_def conserves_still)

lemma poll_worker_search_None:
  assumes ok: "world_ok nb ne own w" and run: "poll_worker_search sv own w = Some (Inr (None, w'))"
    and search: "wo_searching w'"
  obtains e w5 where "world_ok nb ne own (w\<lparr>wo_searching := True, wo_search := e\<rparr>)"
    "worker_poll_io sv (w\<lparr>wo_searching := True, wo_search := e\<rparr>) = Inr (None, w5)"
    "search_loop sv own MAX_ATTEMPTS MAX_RETRIES w5 = Inr (None, w')"
proof -
  obtain s e where s: "(if wo_searching w then Some (Inr (True, wo_search w)) else Some (search_begin (wo_search w))) =
      Some (Inr (s, e))" and ok1: "world_ok nb ne own (w\<lparr>wo_searching := s, wo_search := e\<rparr>)"
    by (rule search_start [OF ok])
  have cases: "(if \<not> s then Some (Inr (None, w\<lparr>wo_searching := s, wo_search := e\<rparr>))
      else or_then (Some (worker_poll_io sv (w\<lparr>wo_searching := s, wo_search := e\<rparr>))) (\<lambda>w2.
        Some (search_loop sv own MAX_ATTEMPTS MAX_RETRIES w2))) = Some (Inr (None, w'))"
    using run unfolding poll_worker_search_def s obind_def Let_def by simp
  have "s" using cases search by (auto split: if_splits)
  then have "or_then (Some (worker_poll_io sv (w\<lparr>wo_searching := True, wo_search := e\<rparr>))) (\<lambda>w2.
        Some (search_loop sv own MAX_ATTEMPTS MAX_RETRIES w2)) = Some (Inr (None, w'))" using cases by simp
  from or_then_None [OF this] show ?thesis using that ok1 \<open>s\<close> by auto
qed


text \<open>
  C13: a worker that searched and returns without a task, so that its thread goes on to park, has
  left nothing behind: when no steal was contended, its own run queue, the injector and the run
  queue of every other worker are empty.
\<close>

theorem parking_worker_leaves_no_task:
  assumes laws: "deque_laws (sv_deques sv) contents injected" and ok: "world_ok nb ne own w"
    and settle: "\<And>d. \<exists>n. steals_settle (sv_deques sv) d n" and never: "never_retries (sv_deques sv)"
    and run: "poll_worker sv own w = Some (Inr (None, w'))" and search: "wo_searching w'"
  shows "injected_tasks injected w' = [] \<and> own_tasks contents w' = [] \<and>
    (\<forall>i < length (wo_queues w'). i \<noteq> own \<longrightarrow> contents (wo_queues w' ! i) = [])"
proof -
  obtain w3 w4 where before: "poll_before sv own w = Some (Inr (None, w3))"
    and pop: "worker_pop sv (unat (wo_tick w) mod 61 = 0) w3 = Some (Inr (None, w4))"
    and sr: "poll_worker_search sv own w4 = Some (Inr (None, w'))"
    using run unfolding poll_worker_eq [OF ok] by (auto dest!: or_then_None)
  from keeps_None [OF keeps_before [OF laws ok, unfolded before]] have ok3: "world_ok nb ne own w3" by simp
  from pop_ok [OF laws ok3 settle, of "unat (wo_tick w) mod 61 = 0"] pop
  have own: "own_tasks contents w3 = []" and ok4: "world_ok nb ne own w4"
    and t4: "conserves contents injected (sv_wakes sv) own w3 None w4" by auto
  have own4: "own_tasks contents w4 = []" using conserves_still [OF t4] own by (simp add: still_def)
  obtain e w5 where ok5: "world_ok nb ne own (w4\<lparr>wo_searching := True, wo_search := e\<rparr>)"
    and io: "worker_poll_io sv (w4\<lparr>wo_searching := True, wo_search := e\<rparr>) = Inr (None, w5)"
    and loop: "search_loop sv own MAX_ATTEMPTS MAX_RETRIES w5 = Inr (None, w')"
    by (rule poll_worker_search_None [OF ok4 sr search])
  let ?w = "w4\<lparr>wo_searching := True, wo_search := e\<rparr>"
  have s5: "still contents injected ?w w5" and ok6: "world_ok nb ne own w5"
    using keeps_None [OF keeps_Inr [OF poll_io_ok [OF laws ok5], unfolded io]] by simp_all
  have s6: "still contents injected w5 w'"
    using keeps_None [OF keeps_Inr [OF search_loop_ok [OF laws ok6, of MAX_ATTEMPTS MAX_RETRIES], unfolded loop]] by simp
  have "own_tasks contents ?w = []" using own4 by (simp add: own_tasks_def)
  then have "own_tasks contents w' = []" using s5 s6 by (simp add: still_def)
  moreover have "MAX_ATTEMPTS = Suc 31" by (simp add: MAX_ATTEMPTS_def)
  note empty = search_loop_empty [OF laws never ok6 loop [unfolded this]]
  have len: "length (wo_queues w') = length (wo_queues w5)" using s6 by (metis length_map still_def)
  moreover have "injected_tasks injected w' = []" using empty(1) s6 by (simp add: still_def)
  moreover have "contents (wo_queues w' ! i) = []" if "i < length (wo_queues w')" "i \<noteq> own" for i
    using that empty(2) [of i] still_nth [OF s6, of i] len by simp
  ultimately show ?thesis by blast
qed

subsection \<open>Two workers\<close>

text \<open>
  Worker 0 of two, which is searching: its own tasks, the injected ones and those of worker 1;
  no timers, no events, and wakers that wake nothing.
\<close>

definition two_workers :: "nat list \<Rightarrow> nat list \<Rightarrow> nat list \<Rightarrow> (nat list, nat list, nat, nat) world" where
  "two_workers own j other =
     \<lparr>wo_tick = 1, wo_searching = True, wo_poller = poller_default,
      wo_context = \<lparr>cx_executor = 0, cx_worker = Some 0,
        cx_producer = Some \<lparr>pr_be_fair = False, pr_deque = own\<rparr>, cx_intercept = None\<rparr>,
      wo_rng = fst (rng_new 5), wo_queues = [[], other], wo_timers = [tq_new 0, tq_new 0], wo_net = np_new,
      wo_search = (executor_from 2)\<lparr>ex_searching := 1\<rparr>, wo_source = \<lparr>ri_range = 2, ri_prime = 1\<rparr>,
      wo_execs = (\<lambda>_. \<lparr>dx_injector = j, dx_notifies = 0, dx_begun = 0\<rparr>), wo_now = None, wo_timeout = None,
      wo_selects = [], wo_clock = 0\<rparr>"

definition list_services :: "(nat list, nat list, nat, nat) services" where
  "list_services = \<lparr>sv_deques = list_deques, sv_wakes = (\<lambda>_. None)\<rparr>"

lemma two_workers_ok: "world_ok 1 1 0 (two_workers own j other)"
  using tq_inv_new ws_inv_new [of 1 1]
  by (auto simp: world_ok_def two_workers_def poller_default_def net_ok_def np_new_def src_ok_def executor_from_def)

lemma two_workers_tasks:
  "world_tasks (\<lambda>d. d) (\<lambda>j. j) 0 (two_workers own j other) = mset own + mset j + mset other"
  by (simp add: world_tasks_def two_workers_def poller_default_def context_tasks_def injector_tasks_def
      queued_tasks_def upt_rec ac_simps)

lemma list_services_facts:
  "deque_laws (sv_deques list_services) (\<lambda>d. d) (\<lambda>j. j)" "\<exists>n. steals_settle (sv_deques list_services) d n"
  "never_retries (sv_deques list_services)" "List.map_filter (sv_wakes list_services) ws = []"
proof -
  show "deque_laws (sv_deques list_services) (\<lambda>d. d) (\<lambda>j. j)"
    by (simp add: list_services_def list_deques_laws)
  have "steals_settle list_deques d 0"
    by (simp add: steals_settle_def list_deques_def list_steal_def split: list.split)
  then show "\<exists>n. steals_settle (sv_deques list_services) d n" by (auto simp: list_services_def)
  show "never_retries (sv_deques list_services)"
    by (simp add: never_retries_def list_services_def list_deques_def list_batch_def split: list.split)
  show "List.map_filter (sv_wakes list_services) ws = []"
    by (simp add: list_services_def List.map_filter_def)
qed


theorem parking_worker_leaves_no_task_witness:
  "\<exists>w'. poll_worker list_services 0 (two_workers [] [] []) = Some (Inr (None, w')) \<and>
     injected_tasks (\<lambda>j. j) w' = [] \<and> own_tasks (\<lambda>d. d) w' = []"
proof -
  from poll_worker_keeps [OF list_services_facts(1) two_workers_ok list_services_facts(2), of "[]" "[]" "[]"]
  obtain r w' where run: "poll_worker list_services 0 (two_workers [] [] []) = Some (Inr (r, w'))"
    and c: "conserves (\<lambda>d. d) (\<lambda>j. j) (sv_wakes list_services) 0 (two_workers [] [] []) r w'"
    by (auto simp: keeps_def)
  have r: "r = None"
    using c by (cases r) (simp_all add: conserves_def two_workers_tasks list_services_facts(4))
  have "wo_searching w'" using c r by (simp add: conserves_def still_def two_workers_def)
  from parking_worker_leaves_no_task [OF list_services_facts(1) two_workers_ok list_services_facts(2,3)
      run [unfolded r] this] run r show ?thesis by blast
qed

end
