(* ===== verification/Fair_Turns.thy ===== *)
theory Fair_Turns
  imports Worker_Proofs
begin

text \<open>
  The loop of \<open>WorkerContext::run\<close> in \<open>src/src/runtime/internal/worker.rs\<close> for a thread that has a
  worker and whose own future is pending: every turn polls the worker and counts a tick, and every
  61st tick is a fair one. The lemmas show what a fair turn takes and that one comes in time,
  across the wrap-around of the counter too.
\<close>

subsection \<open>A turn\<close>

text \<open>
  What the turn does after its poll. \<open>search_discovered\<close> notifies the executor when the last
  searching thread has found a task.
\<close>

definition turn_end :: "('d, 'j, 'r, 'w) world \<Rightarrow> ('d, 'j, 'r, 'w) world res" where
  "turn_end w =
     (let w1 = w\<lparr>wo_tick := wo_tick w + 1, wo_searching := False\<rparr>
      in if \<not> wo_searching w then Inr w1
         else rbind (search_discovered (wo_search w1)) (\<lambda>(notify, ex).
                let w2 = w1\<lparr>wo_search := ex\<rparr>
                in Inr (if notify
                        then w2\<lparr>wo_execs := executor_notify (cx_executor (wo_context w2)) (wo_execs w2)\<rparr>
                        else w2)))"

text \<open>
  A turn: \<open>now\<close> and \<open>timeout\<close> are fresh in every round of \<open>poll\<close>. When the worker finds no task the
  call of \<open>poll\<close> goes on, to give the worker back, and the turn has not ended.
\<close>

definition worker_turn :: "('d, 'j, 'r, 'w) services \<Rightarrow> nat \<Rightarrow> ('d, 'j, 'r, 'w) world \<Rightarrow>
    ('r option \<times> ('d, 'j, 'r, 'w) world) res option" where
  "worker_turn sv own w =
     obind (poll_worker sv own (w\<lparr>wo_now := None, wo_timeout := None\<rparr>)) (\<lambda>(r, w1).
       case r of
         None \<Rightarrow> Some (Inr (None, w1))
       | Some t \<Rightarrow> Some (rbind (turn_end w1) (\<lambda>w2. Inr (Some t, w2))))"

subsection \<open>Ticks\<close>

text \<open>Of 61 ticks in a row one is fair; after the wrap-around the tick is 0, which is fair.\<close>

lemma a_tick_is_fair: "\<exists>i < 61. unat (t + of_nat i :: usize) mod 61 = 0"
proof -
  define i where "i = (61 - unat t mod 61) mod 61"
  have i: "i < 61" by (simp add: i_def)
  have "unat t + (61 - unat t mod 61) = 61 * (unat t div 61) + 61"
    using mult_div_mod_eq [of 61 "unat t"] mod_less_divisor [of 61 "unat t"] by linarith
  then have fair: "(unat t + i) mod 61 = 0" by (simp add: i_def mod_add_right_eq)
  have unat: "unat (t + of_nat k) = (unat t + k) mod 2 ^ 64" for k
    by (simp add: unat_word_ariths unat_of_nat mod_add_right_eq)
  show ?thesis
  proof (cases "unat t + i < 2 ^ 64")
    case True
    then show ?thesis using i fair by (auto simp: unat)
  next
    case False
    have "unat t < 2 ^ 64" using unsigned_less [of t, where ?'a = nat] by simp
    then show ?thesis using False i by (intro exI [of _ "2 ^ 64 - unat t"]) (simp add: unat)
  qed
qed

text \<open>The steps before the search leave the tick, the flag and the count of searching threads alone.\<close>

definition own_fields :: "('d, 'j, 'r, 'w) world \<Rightarrow> usize \<times> bool \<times> executor" where
  "own_fields w = (wo_tick w, wo_searching w, wo_search w)"


lemma world_pop_fields: "world_pop sv w = (r, w') \<Longrightarrow> own_fields w' = own_fields w"
  by (auto simp: world_pop_def own_fields_def split: prod.splits)

lemma poll_io_fields: "worker_poll_io sv w = Inr (r, w') \<Longrightarrow> own_fields w' = own_fields w"
  by (auto simp: worker_poll_io_def own_fields_def Let_def rbind_def split: prod.splits if_splits sum.splits dest!: world_pop_fields)

lemma poll_timers_fields: "worker_poll_timers sv i w = Inr (r, w') \<Longrightarrow> own_fields w' = own_fields w"
  by (auto simp: worker_poll_timers_def own_fields_def rbind_def split: prod.splits sum.splits dest!: world_pop_fields)

lemma consume_fields: "worker_consume sv w = Inr (st, w') \<Longrightarrow> own_fields w' = own_fields w"
  by (auto simp: worker_consume_def own_fields_def put_producer_def rbind_def Let_def split: prod.splits sum.splits)

lemma steal_fields: "worker_steal sv i w = Inr (st, w') \<Longrightarrow> own_fields w' = own_fields w"
  by (auto simp: worker_steal_def own_fields_def put_producer_def rbind_def Let_def split: prod.splits sum.splits)

lemma pop_fields: "worker_pop sv fair w = Some (Inr (r, w')) \<Longrightarrow> own_fields w' = own_fields w"
  by (auto simp: worker_pop_def own_fields_def put_producer_def split: prod.splits sum.splits)

lemma steal_round_fields:
  "steal_round sv own timers_too order contended w = Inr (r, c, w') \<Longrightarrow> own_fields w' = own_fields w"
proof (induction order arbitrary: contended w)
  case (Cons i order)
  show ?case
  proof (cases "i = own")
    case False
    obtain st w1 where st: "worker_steal sv i w = Inr (st, w1)" using Cons.prems False by auto
    note fields = steal_fields [OF st]
    show ?thesis
    proof (cases "\<exists>t. st = Steal_Success t")
      case True
      then show ?thesis using Cons.prems False st fields by auto
    next
      case miss: False
      then obtain d where "(if \<not> d \<and> timers_too
           then rbind (worker_poll_timers sv i w1) (\<lambda>(r, w2).
                  case r of Some t \<Rightarrow> Inr (Some t, d, w2)
                  | None \<Rightarrow> steal_round sv own timers_too order d w2)
           else steal_round sv own timers_too order d w1) = Inr (r, c, w')"
        using Cons.prems False st that [of contended] that [of True] by (cases st) (simp_all add: Let_def)
      then show ?thesis
        using Cons.IH fields poll_timers_fields
        by (fastforce split: if_splits option.splits)
    qed
  qed (use Cons in simp)
qed simp

lemma search_loop_fields:
  "search_loop sv own n retries w = Inr (r, w') \<Longrightarrow> own_fields w' = own_fields w"
proof (induction n arbitrary: retries w)
  case (Suc n)
  obtain st w1 where st: "worker_consume sv w = Inr (st, w1)" using Suc.prems by auto
  note fields = consume_fields [OF st]
  show ?case
  proof (cases "\<exists>t. st = Steal_Success t")
    case True
    then show ?thesis using Suc.prems st fields by auto
  next
    case False
    then obtain order g r2 c w2 where
      round: "steal_round sv own (retries = 1 \<or> n = 0) order (st = Steal_Retry) (w1\<lparr>wo_rng := g\<rparr>) = Inr (r2, c, w2)"
      and rest: "(case r2 of Some t \<Rightarrow> Inr (Some t, w2)
        | None \<Rightarrow>
            if c \<or> 0 < retries
            then if \<not> c \<and> retries = 0 then Inl Arithmetic_Overflow
                 else search_loop sv own n (if c then retries else retries - 1) w2
            else Inr (None, w2)) = Inr (r, w')"
      using Suc.prems st by (cases st) auto
    have "own_fields w2 = own_fields w" using steal_round_fields [OF round] fields by (simp add: own_fields_def)
    then show ?thesis using rest Suc.IH by (auto split: option.splits if_splits)
  qed
qed simp

text \<open>A worker that searches is counted.\<close>

definition counted :: "('d, 'j, 'r, 'w) world \<Rightarrow> bool" where
  "counted w \<longleftrightarrow> (wo_searching w \<longrightarrow> 1 \<le> unat (ex_searching (wo_search w)))"

lemma counted_fields:
  "own_fields w' = own_fields w \<Longrightarrow> counted w' = counted w \<and> wo_tick w' = wo_tick w"
  by (simp add: own_fields_def counted_def)

lemma search_begin_counts:
  assumes "search_begin ex = Inr (True, ex')" "ex_workers ex < 2 ^ 63"
  shows "1 \<le> unat (ex_searching ex')"
proof -
  have "2 * unat (ex_searching ex) < ex_workers ex" "ex' = ex\<lparr>ex_searching := ex_searching ex + 1\<rparr>"
    using assms(1) by (auto simp: search_begin_def search_wanted_def searching_add_def rassert_def split: if_splits)
  then show ?thesis using assms(2) unat_add64 [of "ex_searching ex" 1] by simp
qed

definition turn_fields :: "('d, 'j, 'r, 'w) world \<Rightarrow> ('d, 'j, 'r, 'w) world \<Rightarrow> bool" where
  "turn_fields w w' \<longleftrightarrow> wo_tick w' = wo_tick w \<and> (counted w \<longrightarrow> counted w')"

text \<open>The state that a part of the poll of \<open>w\<close> leaves, when it returns, can go on and keeps these fields.\<close>

definition leaves_ok :: "nat \<Rightarrow> nat \<Rightarrow> nat \<Rightarrow> ('d, 'j, 'r, 'w) world \<Rightarrow>
    ('r option \<times> ('d, 'j, 'r, 'w) world) res option \<Rightarrow> bool" where
  "leaves_ok nb ne own w m \<longleftrightarrow>
     (\<forall>r w'. m = Some (Inr (r, w')) \<longrightarrow> world_ok nb ne own w' \<and> turn_fields w w')"

lemma leaves_ok_or_then:
  assumes "leaves_ok nb ne own w m"
    and "\<And>w1. world_ok nb ne own w1 \<Longrightarrow> turn_fields w w1 \<Longrightarrow> leaves_ok nb ne own w (f w1)"
  shows "leaves_ok nb ne own w (or_then m f)"
  unfolding leaves_ok_def
proof (intro allI impI)
  fix r w' assume run: "or_then m f = Some (Inr (r, w'))"
  then obtain r1 w1 where m: "m = Some (Inr (r1, w1))" and
    rest: "(case r1 of Some t \<Rightarrow> Some (Inr (Some t, w1)) | None \<Rightarrow> f w1) = Some (Inr (r, w'))"
    by (cases m rule: option.exhaust; auto simp: or_then_def obind_def split: sum.splits)
  have ok: "world_ok nb ne own w1" "turn_fields w w1" using assms(1) m by (simp_all add: leaves_ok_def)
  show "world_ok nb ne own w' \<and> turn_fields w w'"
  proof (cases r1)
    case None
    then show ?thesis using assms(2) [OF ok] rest by (simp add: leaves_ok_def)
  qed (use ok rest in simp)
qed

lemma leaves_ok_step:
  assumes "turn_fields w w1" "keeps contents injected wr nb ne own w1 m"
    and "\<And>r w2. m = Some (Inr (r, w2)) \<Longrightarrow> own_fields w2 = own_fields w1"
  shows "leaves_ok nb ne own w m"
  unfolding leaves_ok_def
proof (intro allI impI)
  fix r w2 assume m: "m = Some (Inr (r, w2))"
  have "own_fields w2 = own_fields w1" by (rule assms(3) [OF m])
  then show "world_ok nb ne own w2 \<and> turn_fields w w2"
    using assms(1,2) m counted_fields [of w2 w1] by (simp add: keeps_def turn_fields_def)
qed

lemma leaves_ok_same: "turn_fields w w1 \<Longrightarrow> world_ok nb ne own w1 \<Longrightarrow> leaves_ok nb ne own w (Some (Inr (None, w1)))"
  by (simp add: leaves_ok_def)

lemma io_leaves_ok:
  assumes laws: "deque_laws (sv_deques sv) contents injected" and ok: "world_ok nb ne own w1" and f: "turn_fields w w1"
  shows "leaves_ok nb ne own w (Some (worker_poll_io sv w1))"
  by (rule leaves_ok_step [OF f keeps_Inr [OF poll_io_ok [OF laws ok]]]) (simp add: poll_io_fields)

lemma search_leaves_ok:
  assumes laws: "deque_laws (sv_deques sv) contents injected" and ok: "world_ok nb ne own w1" and f: "turn_fields w w1"
  shows "leaves_ok nb ne own w (poll_worker_search sv own w1)"
proof -
  obtain s e where s: "(if wo_searching w1 then Some (Inr (True, wo_search w1)) else Some (search_begin (wo_search w1))) =
      Some (Inr (s, e))" and ok1: "world_ok nb ne own (w1\<lparr>wo_searching := s, wo_search := e\<rparr>)" by (rule search_start [OF ok])
  let ?w = "w1\<lparr>wo_searching := s, wo_search := e\<rparr>"
  have "counted w1 \<longrightarrow> counted ?w"
    using s ok search_begin_counts [of "wo_search w1" e]
    by (cases s) (auto simp: counted_def world_ok_def split: if_splits)
  then have f1: "turn_fields w ?w" using f by (simp add: turn_fields_def)
  have loop: "leaves_ok nb ne own w (Some (search_loop sv own MAX_ATTEMPTS MAX_RETRIES w2))"
    if "world_ok nb ne own w2" "turn_fields w w2" for w2
    by (rule leaves_ok_step [OF that(2) keeps_Inr [OF search_loop_ok [OF laws that(1)]]]) (simp add: search_loop_fields)
  have "leaves_ok nb ne own w (or_then (Some (worker_poll_io sv ?w)) (\<lambda>w2.
      Some (search_loop sv own MAX_ATTEMPTS MAX_RETRIES w2)))"
    by (rule leaves_ok_or_then [OF io_leaves_ok [OF laws ok1 f1]]) (rule loop)
  then show ?thesis
    using leaves_ok_same [OF f1 ok1] unfolding poll_worker_search_def s obind_def Let_def by (cases s) simp_all
qed

lemma consume_leaves_ok:
  assumes laws: "deque_laws (sv_deques sv) contents injected" and ok: "world_ok nb ne own w1" and f: "turn_fields w w1"
  shows "leaves_ok nb ne own w (Some (rbind (worker_consume sv w1) (\<lambda>(st, w'). Inr (steal_success st, w'))))"
  by (rule leaves_ok_step [OF f keeps_consume [OF laws ok]]) (auto simp: consume_fields)

lemma before_leaves_ok:
  assumes laws: "deque_laws (sv_deques sv) contents injected" and ok: "world_ok nb ne own w"
  shows "leaves_ok nb ne own w (poll_before sv own w)"
proof -
  have f: "turn_fields w w" by (simp add: turn_fields_def)
  have timers: "leaves_ok nb ne own w (Some (worker_poll_timers sv own w1))"
    if "world_ok nb ne own w1" "turn_fields w w1" for w1
    by (rule leaves_ok_step [OF that(2) keeps_timers [OF laws that(1)]]) (simp add: poll_timers_fields)
  show ?thesis
    unfolding poll_before_def
    by (intro leaves_ok_or_then timers)
      (auto intro: io_leaves_ok [OF laws ok f] consume_leaves_ok [OF laws] leaves_ok_same ok f)
qed

lemma poll_worker_fields:
  assumes laws: "deque_laws (sv_deques sv) contents injected" and ok: "world_ok nb ne own w"
    and settle: "\<And>d. \<exists>n. steals_settle (sv_deques sv) d n"
  shows "leaves_ok nb ne own w (poll_worker sv own w)"
proof -
  have pop: "leaves_ok nb ne own w (worker_pop sv fair w1)"
    if "world_ok nb ne own w1" "turn_fields w w1" for w1 fair
    by (rule leaves_ok_step [OF that(2) keeps_pop [OF laws that(1) settle]]) (rule pop_fields)
  show ?thesis
    unfolding poll_worker_eq [OF ok]
    by (intro leaves_ok_or_then before_leaves_ok [OF laws ok] pop search_leaves_ok [OF laws])
qed

lemma turn_end_keeps:
  assumes "turn_end w = Inr w'"
  shows "injected_tasks injected w' = injected_tasks injected w" "wo_tick w' = wo_tick w + 1"
  using assms by (auto simp: turn_end_def Let_def injected_tasks_def executor_notify_def split: if_splits)

lemma worker_turn_cases:
  assumes "worker_turn sv own w = Some (Inr (r, w'))"
  obtains "r = None" "poll_worker sv own (w\<lparr>wo_now := None, wo_timeout := None\<rparr>) = Some (Inr (None, w'))"
  | t w1 where "r = Some t" "turn_end w1 = Inr w'"
      "poll_worker sv own (w\<lparr>wo_now := None, wo_timeout := None\<rparr>) = Some (Inr (Some t, w1))"
  using assms by (auto simp: worker_turn_def obind_def split: option.splits sum.splits prod.splits)

lemma fresh_ok: "world_ok nb ne own (w\<lparr>wo_now := a, wo_timeout := b\<rparr>) = world_ok nb ne own w"
  by (simp add: world_ok_def)

lemma worker_turn_tick:
  assumes laws: "deque_laws (sv_deques sv) contents injected" and ok: "world_ok nb ne own w"
    and settle: "\<And>d. \<exists>n. steals_settle (sv_deques sv) d n"
    and run: "worker_turn sv own w = Some (Inr (Some t, w'))"
  shows "wo_tick w' = wo_tick w + 1"
  using run
proof (cases rule: worker_turn_cases)
  case (2 t w1)
  from poll_worker_fields [OF laws _ settle, where w = "w\<lparr>wo_now := None, wo_timeout := None\<rparr>", unfolded fresh_ok, OF ok]
    turn_end_keeps(2) [OF 2(2)] show ?thesis using 2(3) by (simp add: leaves_ok_def turn_fields_def)
qed simp

subsection \<open>A fair turn\<close>

text \<open>
  The injector of crossbeam is a first-in first-out queue: a batch is its oldest tasks, and the one
  returned is of the batch.
\<close>

definition fifo_batches :: "('d, 'j, 'r) deque_api \<Rightarrow> ('j \<Rightarrow> 'r list) \<Rightarrow> bool" where
  "fifo_batches api injected \<longleftrightarrow>
     (\<forall>j d t j' d'. da_inj_batch api j d = (Steal_Success t, j', d') \<longrightarrow>
        (\<exists>k > 0. t \<in> set (take k (injected j)) \<and> injected j' = drop k (injected j)))"

definition takes_oldest :: "('j \<Rightarrow> 'r list) \<Rightarrow> ('d, 'j, 'r, 'w) world \<Rightarrow> 'r \<Rightarrow> ('d, 'j, 'r, 'w) world \<Rightarrow> bool" where
  "takes_oldest injected w t w' \<longleftrightarrow>
     (\<exists>k > 0. t \<in> set (take k (injected_tasks injected w)) \<and>
        injected_tasks injected w' = drop k (injected_tasks injected w))"

lemma consume_takes_oldest:
  assumes "fifo_batches (sv_deques sv) injected" "worker_consume sv w = Inr (Steal_Success t, w')"
  shows "takes_oldest injected w t w'"
proof -
  let ?ex = "cx_executor (wo_context w)"
  obtain p where pr: "world_producer w = Inr p" using assms(2) by (auto simp: worker_consume_def)
  obtain st j p1 where c: "producer_consume (sv_deques sv) (dx_injector (wo_execs w ?ex)) p = (st, j, p1)"
    by (rule prod_cases3)
  then have p: "producer_consume (sv_deques sv) (dx_injector (wo_execs w ?ex)) p = (Steal_Success t, j, p1)"
    and w': "w' = put_producer p1 (w\<lparr>wo_execs := (wo_execs w)(?ex := (wo_execs w ?ex)\<lparr>dx_injector := j\<rparr>)\<rparr>)"
    using assms(2) pr by (simp_all add: worker_consume_def Let_def)
  then have "\<exists>d. da_inj_batch (sv_deques sv) (dx_injector (wo_execs w ?ex)) (pr_deque p) = (Steal_Success t, j, d)"
    by (auto simp: producer_consume_def split: prod.splits)
  then show ?thesis
    using assms(1) w' unfolding fifo_batches_def takes_oldest_def
    by (auto simp: injected_tasks_def put_producer_def)
qed

lemma fair_poll:
  assumes laws: "deque_laws (sv_deques sv) contents injected" and fifo: "fifo_batches (sv_deques sv) injected"
    and never: "never_retries (sv_deques sv)" and ok: "world_ok nb ne own w"
    and fair: "unat (wo_tick w) mod 61 = 0" and waiting: "injected_tasks injected w \<noteq> []"
  shows "\<exists>t w'. poll_worker sv own w = Some (Inr (Some t, w')) \<and>
    (worker_poll_io sv w = Inr (Some t, w') \<or> takes_oldest injected w t w')"
proof -
  obtain r w1 where io: "worker_poll_io sv w = Inr (r, w1)" and ok1: "world_ok nb ne own w1"
    and c1: "conserves contents injected (sv_wakes sv) own w r w1" using poll_io_ok [OF laws ok] by blast
  show ?thesis
  proof (cases r)
    case (Some t)
    then have "poll_worker sv own w = Some (Inr (Some t, w1))"
      unfolding poll_worker_eq [OF ok] poll_before_def using fair io by (simp add: or_then_def obind_def)
    then show ?thesis using io Some by blast
  next
    case None
    have same: "injected_tasks injected w1 = injected_tasks injected w"
      using c1 None by (simp add: conserves_def still_def)
    obtain st w2 where st: "worker_consume sv w1 = Inr (st, w2)"
      and e: "st = Steal_Empty \<longrightarrow> injected_tasks injected w1 = []" using consume_ok [OF laws ok1] by blast
    then obtain t where t: "st = Steal_Success t"
      using waiting same never_retries_steps(1) [OF never st] by (cases st) auto
    then have "poll_worker sv own w = Some (Inr (Some t, w2))"
      unfolding poll_worker_eq [OF ok] poll_before_def using fair io st None
      by (simp add: or_then_def obind_def steal_success_def)
    moreover have "takes_oldest injected w t w2"
      using consume_takes_oldest [OF fifo st [unfolded t]] same by (simp add: takes_oldest_def)
    ultimately show ?thesis by blast
  qed
qed

subsection \<open>The turns of a busy worker\<close>

lemma own_tasks_are_found:
  assumes laws: "deque_laws (sv_deques sv) contents injected" and ok: "world_ok nb ne own w"
    and settle: "\<And>d. \<exists>n. steals_settle (sv_deques sv) d n"
    and run: "poll_worker sv own w = Some (Inr (None, w'))"
  shows "own_tasks contents w = []"
proof -
  obtain w3 w4 where before: "poll_before sv own w = Some (Inr (None, w3))"
    and pop: "worker_pop sv (unat (wo_tick w) mod 61 = 0) w3 = Some (Inr (None, w4))"
    using run unfolding poll_worker_eq [OF ok] by (auto dest!: or_then_None)
  from keeps_None [OF keeps_before [OF laws ok, unfolded before]]
  have ok3: "world_ok nb ne own w3" and same: "still contents injected w w3" by simp_all
  from pop_ok [OF laws ok3 settle, of "unat (wo_tick w) mod 61 = 0"] pop have "own_tasks contents w3 = []" by auto
  then show ?thesis using same by (simp add: still_def)
qed

lemma turn_end_returns:
  assumes "world_ok nb ne own w" "counted w"
  shows "\<exists>w'. turn_end w = Inr w' \<and> world_ok nb ne own w' \<and> counted w'"
proof (cases "wo_searching w")
  case True
  then have "ex_searching (wo_search w) \<noteq> 0" using assms(2) by (auto simp: counted_def)
  moreover from this have "unat (ex_searching (wo_search w) - 1) \<le> unat (ex_searching (wo_search w))"
    by (simp add: unat_minus_one)
  ultimately show ?thesis
    using assms(1) True by (auto simp: turn_end_def search_discovered_def searching_sub_def world_ok_def counted_def Let_def)
next
  case False
  then show ?thesis using assms(1) by (auto simp: turn_end_def world_ok_def counted_def)
qed

text \<open>
  A turn returns without a panic, with a task if the worker has tasks of its own, and the state
  allows the next turn.
\<close>

theorem worker_turn_returns:
  assumes laws: "deque_laws (sv_deques sv) contents injected" and ok: "world_ok nb ne own w"
    and settle: "\<And>d. \<exists>n. steals_settle (sv_deques sv) d n" and counted: "counted w"
  shows "\<exists>r w'. worker_turn sv own w = Some (Inr (r, w')) \<and> world_ok nb ne own w' \<and> counted w' \<and>
    (own_tasks contents w \<noteq> [] \<longrightarrow> r \<noteq> None)"
proof -
  let ?w = "w\<lparr>wo_now := None, wo_timeout := None\<rparr>"
  have ok0: "world_ok nb ne own ?w" using ok by (simp add: fresh_ok)
  obtain r w1 where run: "poll_worker sv own ?w = Some (Inr (r, w1))"
    using poll_worker_keeps [OF laws ok0 settle] by (auto simp: keeps_def)
  have ok1: "world_ok nb ne own w1" and c1: "counted w1"
    using poll_worker_fields [OF laws ok0 settle] run counted by (auto simp: leaves_ok_def turn_fields_def counted_def)
  show ?thesis
  proof (cases r)
    case None
    have "own_tasks contents w = []"
      using own_tasks_are_found [OF laws ok0 settle run [unfolded None]] by (simp add: own_tasks_def)
    then show ?thesis using run None ok1 c1 by (simp add: worker_turn_def obind_def)
  next
    case (Some t)
    from turn_end_returns [OF ok1 c1] show ?thesis using run Some by (auto simp: worker_turn_def obind_def)
  qed
qed

lemma fair_turn:
  assumes laws: "deque_laws (sv_deques sv) contents injected" and fifo: "fifo_batches (sv_deques sv) injected"
    and never: "never_retries (sv_deques sv)" and ok: "world_ok nb ne own w"
    and fair: "unat (wo_tick w) mod 61 = 0" and waiting: "injected_tasks injected w \<noteq> []"
    and run: "worker_turn sv own w = Some (Inr (Some t, w'))"
  shows "(\<exists>w1. worker_poll_io sv (w\<lparr>wo_now := None, wo_timeout := None\<rparr>) = Inr (Some t, w1)) \<or>
    takes_oldest injected w t w'"
  using run
proof (cases rule: worker_turn_cases)
  case (2 t1 w1)
  let ?w = "w\<lparr>wo_now := None, wo_timeout := None\<rparr>"
  have same: "injected_tasks injected ?w = injected_tasks injected w" by (simp add: injected_tasks_def)
  from fair_poll [OF laws fifo never, of nb ne own ?w] ok fair waiting 2
  have "worker_poll_io sv ?w = Inr (Some t, w1) \<or> takes_oldest injected ?w t w1"
    by (auto simp: fresh_ok same)
  then show ?thesis using same turn_end_keeps(1) [OF 2(2)] by (auto simp: takes_oldest_def)
qed simp


text \<open>Ticks before and after the wrap-around, with a task of the worker's own and one injected.\<close>

definition wrapping_turns :: "nat \<Rightarrow> (nat list, nat list, nat, nat) world" where
  "wrapping_turns i = (two_workers [3] [7] [4])\<lparr>wo_tick := of_nat i - 40\<rparr>"

lemma wrapping_turns_ok: "world_ok 1 1 0 (wrapping_turns i)"
  using two_workers_ok [of "[3]" "[7]" "[4]"] unfolding wrapping_turns_def world_ok_def by simp

lemma wrapping_turns_facts:
  "counted (wrapping_turns i)" "own_tasks (\<lambda>d. d) (wrapping_turns i) = [3]"
  "injected_tasks (\<lambda>j. j) (wrapping_turns i) = [7]" "wo_tick (wrapping_turns i) = of_nat i - 40"
  by (simp_all add: wrapping_turns_def counted_def own_tasks_def injected_tasks_def two_workers_def executor_from_def)

lemma list_fifo: "fifo_batches (sv_deques list_services) (\<lambda>j. j)"
  by (auto simp: fifo_batches_def list_services_def list_deques_def list_batch_def split: list.splits intro: exI [of _ "1 :: nat"])


end
