(* ===== verification/Tcp_Stream.thy ===== *)
theory Tcp_Stream
  imports Net_Proofs
begin

text \<open>
  \<open>src/src/net/tcp/stream.rs\<close>: reading, peeking and writing a TCP stream through its pollable. The
  socket of \<open>mio\<close> and \<open>tokio::io::ReadBuf\<close> are parameters, \<open>socket_api\<close> and \<open>readbuf_api\<close>, with what
  their documentation says as the hypotheses \<open>socket_laws\<close> and \<open>readbuf_laws\<close>.
\<close>

subsection \<open>The buffer and the socket\<close>

text \<open>
  What a \<open>ReadBuf\<close> is: its capacity, the initialized bytes and how many of them are filled.
\<close>

record readbuf_view =
  vw_capacity :: nat
  vw_initialized :: "u8 list"
  vw_filled :: nat

text \<open>
  \<open>rb_set_initialized\<close> writes through \<open>initialized_mut\<close>, and \<open>rb_initialize\<close> is the effect of
  \<open>initialize_unfilled\<close>.
\<close>

record 'b readbuf_api =
  rb_filled :: "'b \<Rightarrow> u8 list"
  rb_initialized :: "'b \<Rightarrow> u8 list"
  rb_remaining :: "'b \<Rightarrow> nat"
  rb_set_initialized :: "u8 list \<Rightarrow> 'b \<Rightarrow> 'b"
  rb_initialize :: "'b \<Rightarrow> 'b"
  rb_advance :: "nat \<Rightarrow> 'b \<Rightarrow> 'b res"
  rb_put_slice :: "u8 list \<Rightarrow> 'b \<Rightarrow> 'b res"

definition store_at :: "nat \<Rightarrow> 'a list \<Rightarrow> 'a list \<Rightarrow> 'a list" where
  "store_at off xs ys = take off ys @ xs @ drop (off + length xs) ys"

definition readbuf_laws :: "'b readbuf_api \<Rightarrow> ('b \<Rightarrow> readbuf_view) \<Rightarrow> bool" where
  "readbuf_laws api view \<longleftrightarrow>
     (\<forall>b. vw_filled (view b) \<le> length (vw_initialized (view b)) \<and>
        length (vw_initialized (view b)) \<le> vw_capacity (view b) \<and>
        rb_filled api b = take (vw_filled (view b)) (vw_initialized (view b)) \<and>
        rb_initialized api b = vw_initialized (view b) \<and>
        rb_remaining api b = vw_capacity (view b) - vw_filled (view b)) \<and>
     (\<forall>xs b. length xs = length (vw_initialized (view b)) \<longrightarrow>
        view (rb_set_initialized api xs b) = (view b)\<lparr>vw_initialized := xs\<rparr>) \<and>
     (\<forall>b. view (rb_initialize api b) = (view b)\<lparr>vw_initialized := vw_initialized (view b) @
        replicate (vw_capacity (view b) - length (vw_initialized (view b))) 0\<rparr>) \<and>
     (\<forall>n b. case rb_advance api n b of
        Inl p \<Rightarrow> length (vw_initialized (view b)) < vw_filled (view b) + n
      | Inr b' \<Rightarrow> vw_filled (view b) + n \<le> length (vw_initialized (view b)) \<and>
          view b' = (view b)\<lparr>vw_filled := vw_filled (view b) + n\<rparr>) \<and>
     (\<forall>xs b. case rb_put_slice api xs b of
        Inl p \<Rightarrow> rb_remaining api b < length xs
      | Inr b' \<Rightarrow> length xs \<le> rb_remaining api b \<and>
          view b' = (view b)\<lparr>vw_filled := vw_filled (view b) + length xs,
            vw_initialized := store_at (vw_filled (view b)) xs (vw_initialized (view b))\<rparr>)"

text \<open>
  A socket: \<open>so_read n\<close> and \<open>so_peek n\<close> give the bytes put into a slice of \<open>n\<close>, \<open>so_write\<close> how many
  were taken, and the vectored calls do the same for several slices.
\<close>

record 's socket_api =
  so_read :: "nat \<Rightarrow> 's \<Rightarrow> u8 list io_result \<times> 's"
  so_peek :: "nat \<Rightarrow> 's \<Rightarrow> u8 list io_result \<times> 's"
  so_read_vectored :: "nat list \<Rightarrow> 's \<Rightarrow> u8 list list io_result \<times> 's"
  so_write :: "u8 list \<Rightarrow> 's \<Rightarrow> nat io_result \<times> 's"
  so_write_vectored :: "u8 list list \<Rightarrow> 's \<Rightarrow> nat io_result \<times> 's"
  so_shutdown :: "'s \<Rightarrow> unit io_result \<times> 's"
  so_take_error :: "'s \<Rightarrow> io_error_kind option io_result \<times> 's"

text \<open>
  \<open>incoming\<close> are the bytes that the peer sends and that are not read yet, \<open>sent\<close> those handed to
  the network, and \<open>patience\<close> bounds how often in a row a call is interrupted.
\<close>

definition socket_laws :: "'s socket_api \<Rightarrow> ('s \<Rightarrow> u8 list) \<Rightarrow> ('s \<Rightarrow> u8 list) \<Rightarrow> ('s \<Rightarrow> nat) \<Rightarrow> bool" where
  "socket_laws so incoming sent patience \<longleftrightarrow>
     (\<forall>n s. case so_read so n s of
        (Inl e, s') \<Rightarrow> incoming s' = incoming s \<and> sent s' = sent s \<and> (e = Interrupted \<longrightarrow> patience s' < patience s)
      | (Inr xs, s') \<Rightarrow> length xs \<le> n \<and> incoming s = xs @ incoming s' \<and> sent s' = sent s) \<and>
     (\<forall>n s. case so_peek so n s of
        (Inl e, s') \<Rightarrow> incoming s' = incoming s \<and> sent s' = sent s \<and> (e = Interrupted \<longrightarrow> patience s' < patience s)
      | (Inr xs, s') \<Rightarrow> length xs \<le> n \<and> xs = take (length xs) (incoming s) \<and> incoming s' = incoming s \<and>
          sent s' = sent s) \<and>
     (\<forall>xs s. case so_write so xs s of
        (Inl e, s') \<Rightarrow> incoming s' = incoming s \<and> sent s' = sent s \<and> (e = Interrupted \<longrightarrow> patience s' < patience s)
      | (Inr n, s') \<Rightarrow> n \<le> length xs \<and> sent s' = sent s @ take n xs \<and> incoming s' = incoming s) \<and>
     (\<forall>xss s. case so_write_vectored so xss s of
        (Inl e, s') \<Rightarrow> incoming s' = incoming s \<and> sent s' = sent s \<and> (e = Interrupted \<longrightarrow> patience s' < patience s)
      | (Inr n, s') \<Rightarrow> n \<le> length (concat xss) \<and> sent s' = sent s @ take n (concat xss) \<and> incoming s' = incoming s)"

subsection \<open>I/O that may panic\<close>

text \<open>
  The closures handed to \<open>poll_io\<close> may panic, which unwinds through it: the closure is made to
  return at once with the panic as its value, and the value is turned into the panic again.
\<close>

definition catching :: "('x \<Rightarrow> ('a io_result \<times> 'x) res) \<Rightarrow> 'x \<Rightarrow> (panic + 'a) io_result \<times> 'x" where
  "catching do_io x =
     (case do_io x of
        Inl p \<Rightarrow> (Inr (Inl p), x)
      | Inr (Inl e, x') \<Rightarrow> (Inl e, x')
      | Inr (Inr v, x') \<Rightarrow> (Inr (Inr v), x'))"

definition resuming :: "((panic + 'a) io_result poll \<times> 'r) res \<Rightarrow> ('a io_result poll \<times> 'r) res" where
  "resuming m =
     rbind m (\<lambda>(r, rest).
       case r of
         Pending \<Rightarrow> Inr (Pending, rest)
       | Ready (Inl e) \<Rightarrow> Inr (Ready (Inl e), rest)
       | Ready (Inr (Inl p)) \<Rightarrow> Inl p
       | Ready (Inr (Inr v)) \<Rightarrow> Inr (Ready (Inr v), rest))"

definition poll_io_res :: "waker_kind \<Rightarrow> 'w option \<Rightarrow> ('x \<Rightarrow> ('a io_result \<times> 'x) res) \<Rightarrow>
    pollable \<Rightarrow> 'w net_poller \<Rightarrow> 'x \<Rightarrow>
    ('a io_result poll \<times> 'w list \<times> pollable \<times> 'w net_poller \<times> 'x) res option" where
  "poll_io_res kind ctx do_io pl p x = map_option resuming (poll_io kind ctx (catching do_io) pl p x)"

subsection \<open>Reading\<close>

definition TLS_BUF_SIZE :: nat where "TLS_BUF_SIZE = 64 * 1024"

text \<open>The closure of \<open>poll_read_inner\<close>.\<close>

definition read_closure :: "'b readbuf_api \<Rightarrow> 's socket_api \<Rightarrow> 'b \<times> 's \<Rightarrow> (unit io_result \<times> 'b \<times> 's) res" where
  "read_closure api so x =
     (let (b, s) = x;
          filled = length (rb_filled api b);
          initialized = length (rb_initialized api b)
      in if initialized < filled then Inl Arithmetic_Overflow
         else
           let writable = initialized - filled
           in if 0 < writable
              then (case so_read so writable s of
                      (Inl e, s') \<Rightarrow> Inr (Inl e, b, s')
                    | (Inr bytes, s') \<Rightarrow>
                        rbind (rb_advance api (length bytes)
                                 (rb_set_initialized api (store_at filled bytes (rb_initialized api b)) b))
                          (\<lambda>b'. Inr (Inr (), b', s')))
              else if TLS_BUF_SIZE < rb_remaining api b then Inl Index_Out_Of_Bounds
              else (case so_read so (rb_remaining api b) s of
                      (Inl e, s') \<Rightarrow> Inr (Inl e, b, s')
                    | (Inr bytes, s') \<Rightarrow> rbind (rb_put_slice api bytes b) (\<lambda>b'. Inr (Inr (), b', s'))))"

definition poll_read_inner :: "'b readbuf_api \<Rightarrow> 's socket_api \<Rightarrow> 'w \<Rightarrow> pollable \<Rightarrow> 'w net_poller \<Rightarrow> 'b \<times> 's \<Rightarrow>
    (unit io_result poll \<times> 'w list \<times> pollable \<times> 'w net_poller \<times> 'b \<times> 's) res option" where
  "poll_read_inner api so ctx pl p x = poll_io_res Read (Some ctx) (read_closure api so) pl p x"

text \<open>\<open>try_read\<close> into a slice of \<open>n\<close> bytes, and \<open>try_read_vectored\<close>.\<close>

definition try_read :: "'s socket_api \<Rightarrow> nat \<Rightarrow> pollable \<Rightarrow> 'w net_poller \<Rightarrow> 's \<Rightarrow>
    (u8 list io_result \<times> 'w list \<times> pollable \<times> 'w net_poller \<times> 's) res option" where
  "try_read so n pl p s = try_io Read (so_read so n) pl p s"

definition try_read_vectored :: "'s socket_api \<Rightarrow> nat list \<Rightarrow> pollable \<Rightarrow> 'w net_poller \<Rightarrow> 's \<Rightarrow>
    (u8 list list io_result \<times> 'w list \<times> pollable \<times> 'w net_poller \<times> 's) res option" where
  "try_read_vectored so ns pl p s = try_io Read (so_read_vectored so ns) pl p s"

subsection \<open>Peeking\<close>

definition peek_closure :: "'b readbuf_api \<Rightarrow> 's socket_api \<Rightarrow> 'b \<times> 's \<Rightarrow> (nat io_result \<times> 'b \<times> 's) res" where
  "peek_closure api so x =
     (let (b, s) = x; b1 = rb_initialize api b
      in case so_peek so (rb_remaining api b1) s of
           (Inl e, s') \<Rightarrow> Inr (Inl e, b1, s')
         | (Inr bytes, s') \<Rightarrow>
             Inr (Inr (length bytes),
               rb_set_initialized api (store_at (length (rb_filled api b1)) bytes (rb_initialized api b1)) b1, s'))"

definition poll_peek_inner :: "'b readbuf_api \<Rightarrow> 's socket_api \<Rightarrow> 'w \<Rightarrow> pollable \<Rightarrow> 'w net_poller \<Rightarrow> 'b \<times> 's \<Rightarrow>
    (nat io_result poll \<times> 'w list \<times> pollable \<times> 'w net_poller \<times> 'b \<times> 's) res option" where
  "poll_peek_inner api so ctx pl p x =
     map_option (\<lambda>result. rbind result (\<lambda>(r, ws, pl1, p1, b, s).
         case r of
           Ready (Inr bytes) \<Rightarrow> rbind (rb_advance api bytes b) (\<lambda>b1. Inr (r, ws, pl1, p1, b1, s))
         | _ \<Rightarrow> Inr (r, ws, pl1, p1, b, s)))
       (poll_io_res Read (Some ctx) (peek_closure api so) pl p x)"

text \<open>The future of \<open>peek\<close> into a slice of \<open>n\<close> bytes; \<open>completed\<close> tells that it gave its result.\<close>

definition peek_future_poll :: "'s socket_api \<Rightarrow> nat \<Rightarrow> 'w \<Rightarrow> bool \<Rightarrow> pollable \<Rightarrow> 'w net_poller \<Rightarrow> 's \<Rightarrow>
    (u8 list io_result poll \<times> bool \<times> 'w list \<times> pollable \<times> 'w net_poller \<times> 's) res option" where
  "peek_future_poll so n ctx completed pl p s = poll_future_poll Read ctx (so_peek so n) completed pl p s"

subsection \<open>Writing\<close>

definition poll_write_inner :: "'s socket_api \<Rightarrow> u8 list \<Rightarrow> 'w \<Rightarrow> pollable \<Rightarrow> 'w net_poller \<Rightarrow> 's \<Rightarrow>
    (nat io_result poll \<times> 'w list \<times> pollable \<times> 'w net_poller \<times> 's) res option" where
  "poll_write_inner so buf ctx pl p s = poll_io Write (Some ctx) (so_write so buf) pl p s"

definition poll_write_vectored_inner :: "'s socket_api \<Rightarrow> u8 list list \<Rightarrow> 'w \<Rightarrow> pollable \<Rightarrow> 'w net_poller \<Rightarrow> 's \<Rightarrow>
    (nat io_result poll \<times> 'w list \<times> pollable \<times> 'w net_poller \<times> 's) res option" where
  "poll_write_vectored_inner so bufs ctx pl p s = poll_io Write (Some ctx) (so_write_vectored so bufs) pl p s"

definition try_write :: "'s socket_api \<Rightarrow> u8 list \<Rightarrow> pollable \<Rightarrow> 'w net_poller \<Rightarrow> 's \<Rightarrow>
    (nat io_result \<times> 'w list \<times> pollable \<times> 'w net_poller \<times> 's) res option" where
  "try_write so buf pl p s = try_io Write (so_write so buf) pl p s"

definition try_write_vectored :: "'s socket_api \<Rightarrow> u8 list list \<Rightarrow> pollable \<Rightarrow> 'w net_poller \<Rightarrow> 's \<Rightarrow>
    (nat io_result \<times> 'w list \<times> pollable \<times> 'w net_poller \<times> 's) res option" where
  "try_write_vectored so bufs pl p s = try_io Write (so_write_vectored so bufs) pl p s"

definition poll_flush_inner :: "unit io_result poll" where
  "poll_flush_inner = Ready (Inr ())"

definition poll_shutdown_inner :: "'s socket_api \<Rightarrow> 's \<Rightarrow> unit io_result poll \<times> 's" where
  "poll_shutdown_inner so s =
     (case so_shutdown so s of (Inl e, s') \<Rightarrow> (Ready (Inl e), s') | (Inr u, s') \<Rightarrow> (Ready (Inr ()), s'))"

subsection \<open>Readiness and connecting\<close>

definition poll_read_ready :: "'w \<Rightarrow> pollable \<Rightarrow> 'w net_poller \<Rightarrow>
    (unit io_result poll \<times> 'w list \<times> pollable \<times> 'w net_poller \<times> unit) res option" where
  "poll_read_ready ctx pl p = poll_io Read (Some ctx) (\<lambda>s. (Inr (), s)) pl p ()"

definition poll_write_ready :: "'w \<Rightarrow> pollable \<Rightarrow> 'w net_poller \<Rightarrow>
    (unit io_result poll \<times> 'w list \<times> pollable \<times> 'w net_poller \<times> unit) res option" where
  "poll_write_ready ctx pl p = poll_io Write (Some ctx) (\<lambda>s. (Inr (), s)) pl p ()"

text \<open>\<open>readable\<close> and \<open>writable\<close> await this future; \<open>completed\<close> tells that it gave its result.\<close>

definition ready_future_poll :: "waker_kind \<Rightarrow> 'w \<Rightarrow> bool \<Rightarrow> pollable \<Rightarrow> 'w net_poller \<Rightarrow>
    (unit io_result poll \<times> bool \<times> 'w list \<times> pollable \<times> 'w net_poller \<times> unit) res option" where
  "ready_future_poll kind ctx completed pl p =
     poll_future_poll kind ctx (\<lambda>s. (Inr (), s)) completed pl p ()"

text \<open>
  \<open>connect\<close> after the socket is registered: it waits to be writable and then asks the socket for
  the error of the connection attempt.
\<close>

definition connect_poll :: "'s socket_api \<Rightarrow> 'w \<Rightarrow> bool \<Rightarrow> pollable \<Rightarrow> 'w net_poller \<Rightarrow> 's \<Rightarrow>
    (unit io_result poll \<times> bool \<times> 'w list \<times> pollable \<times> 'w net_poller \<times> 's) res option" where
  "connect_poll so ctx completed pl p s =
     map_option (\<lambda>result. rbind result (\<lambda>(r, completed1, ws, pl1, p1, u).
         case r of
           Ready (Inr _) \<Rightarrow>
             (case so_take_error so s of
                (Inl e, s') \<Rightarrow> Inr (Ready (Inl e), completed1, ws, pl1, p1, s')
              | (Inr (Some e), s') \<Rightarrow> Inr (Ready (Inl e), completed1, ws, pl1, p1, s')
              | (Inr None, s') \<Rightarrow> Inr (Ready (Inr ()), completed1, ws, pl1, p1, s'))
         | _ \<Rightarrow> Inr (r, completed1, ws, pl1, p1, s)))
       (ready_future_poll Write ctx completed pl p)"

end
