(* ===== verification/Tcp_Proofs.thy ===== *)
theory Tcp_Proofs
  imports Tcp_Stream
begin

text \<open>What reading, peeking and writing a stream do with the bytes.\<close>

subsection \<open>A call of \<open>poll_io\<close> with an invariant\<close>

lemma do_io_loop_inv:
  assumes "do_io_loop do_io s = Some y" "I s"
    and "\<And>s s'. I s \<Longrightarrow> do_io s = (Inl Interrupted, s') \<Longrightarrow> I s'"
  shows "\<exists>s0. I s0 \<and> do_io s0 = y"
proof -
  have "I s \<longrightarrow> (\<forall>s s'. I s \<longrightarrow> do_io s = (Inl Interrupted, s') \<longrightarrow> I s') \<longrightarrow> (\<exists>s0. I s0 \<and> do_io s0 = y)"
    by (rule do_io_loop.raw_induct [where P = "\<lambda>do_io s y. I s \<longrightarrow>
          (\<forall>s s'. I s \<longrightarrow> do_io s = (Inl Interrupted, s') \<longrightarrow> I s') \<longrightarrow> (\<exists>s0. I s0 \<and> do_io s0 = y)", OF _ assms(1)])
      (auto simp: Let_def split: prod.splits if_splits)
  then show ?thesis using assms(2,3) by blast
qed

lemma do_io_loop_measure:
  assumes "\<And>s s'. do_io s = (Inl Interrupted, s') \<Longrightarrow> f s' < (f s :: nat)"
  shows "do_io_loop do_io s \<noteq> None"
proof (induction s rule: measure_induct_rule [where f = f])
  case (less s)
  obtain r s' where "do_io s = (r, s')" by (cases "do_io s")
  then show ?case
    using less assms by (cases "r = Inl Interrupted") (simp_all add: do_io_loop.simps [of do_io s])
qed

definition io_post :: "('s \<Rightarrow> bool) \<Rightarrow> ('a io_result \<Rightarrow> 's \<Rightarrow> bool) \<Rightarrow>
    ('a io_result poll \<times> 'w list \<times> pollable \<times> 'w net_poller \<times> 's) res \<Rightarrow> bool" where
  "io_post I Q y \<longleftrightarrow> (\<forall>r ws pl p s. y = Inr (r, ws, pl, p, s) \<longrightarrow>
     (case r of Pending \<Rightarrow> I s | Ready v \<Rightarrow> Q v s))"

lemma poll_io_inv:
  fixes do_io :: "'s \<Rightarrow> 'a io_result \<times> 's" and ctx :: "'w option"
  assumes run: "poll_io kind ctx do_io pl p s = Some y" and i: "I s"
    and err: "\<And>s e s'. I s \<Longrightarrow> do_io s = (Inl e, s') \<Longrightarrow> I s'"
    and fin: "\<And>s v s'. I s \<Longrightarrow> do_io s = (v, s') \<Longrightarrow> Q v s'"
  shows "io_post I Q y"
proof -
  let ?H = "\<lambda>do_io. (\<forall>s e s'. I s \<longrightarrow> do_io s = (Inl e, s') \<longrightarrow> I s') \<and>
    (\<forall>s v s'. I s \<longrightarrow> do_io s = (v, s') \<longrightarrow> Q v s')"
  have "I s \<longrightarrow> ?H do_io \<longrightarrow> io_post I Q y"
  proof (rule poll_io.raw_induct [where P = "\<lambda>kind ctx do_io pl p s y. I s \<longrightarrow> ?H do_io \<longrightarrow> io_post I Q y", OF _ run])
    fix f :: "waker_kind \<Rightarrow> 'w option \<Rightarrow> ('s \<Rightarrow> 'a io_result \<times> 's) \<Rightarrow> pollable \<Rightarrow> 'w net_poller \<Rightarrow> 's \<Rightarrow>
        ('a io_result poll \<times> 'w list \<times> pollable \<times> 'w net_poller \<times> 's) res option"
      and kind and ctx :: "'w option" and do_io :: "'s \<Rightarrow> 'a io_result \<times> 's" and pl p s y
    assume IH: "\<And>kind ctx do_io pl p s y. f kind ctx do_io pl p s = Some y \<Longrightarrow> I s \<longrightarrow> ?H do_io \<longrightarrow> io_post I Q y"
      and step: "(case poll_io_enter kind ctx pl p of
          Inl e \<Rightarrow> Some (Inl e)
        | Inr (r, ws, pl1, p1) \<Rightarrow>
            if r = Pending then Some (Inr (Pending, ws, pl1, p1, s))
            else Option.bind (do_io_loop do_io s) (\<lambda>(out, s1).
              case poll_io_outcome kind out pl1 p1 of
                Inl e \<Rightarrow> Some (Inl e)
              | Inr (Done v, p2) \<Rightarrow> Some (Inr (Ready v, ws, pl1, p2, s1))
              | Inr (_, p2) \<Rightarrow> f kind ctx do_io pl1 p2 s1)) = Some y"
    show "I s \<longrightarrow> ?H do_io \<longrightarrow> io_post I Q y"
    proof (intro impI, elim conjE)
      assume i: "I s" and err: "\<forall>s e s'. I s \<longrightarrow> do_io s = (Inl e, s') \<longrightarrow> I s'"
        and fin: "\<forall>s v s'. I s \<longrightarrow> do_io s = (v, s') \<longrightarrow> Q v s'"
      show "io_post I Q y"
      proof (cases "poll_io_enter kind ctx pl p")
        case (Inl e)
        then show ?thesis using step by (auto simp: io_post_def)
      next
        case (Inr en)
        obtain r ws pl1 p1 where en: "en = (r, ws, pl1, p1)" by (cases en)
        show ?thesis
        proof (cases "r = Pending")
          case True
          then show ?thesis using step Inr en i by (auto simp: io_post_def)
        next
          case False
          then obtain out s1 where io: "do_io_loop do_io s = Some (out, s1)"
            using step Inr en by (cases "do_io_loop do_io s") auto
          from do_io_loop_inv [where I = I, OF io i] err obtain s0 where s0: "I s0" "do_io s0 = (out, s1)" by blast
          show ?thesis
          proof (cases "poll_io_outcome kind out pl1 p1")
            case (Inl e)
            then show ?thesis using step Inr en False io by (auto simp: io_post_def)
          next
            case out: (Inr oc)
            show ?thesis
            proof (cases "\<exists>v p2. oc = (Done v, p2)")
              case True
              then obtain v p2 where v: "oc = (Done v, p2)" by blast
              then have "v = out" using out by (auto simp: poll_io_outcome_def split: if_splits)
              then show ?thesis using step Inr en False io out v s0 fin by (auto simp: io_post_def)
            next
              case no: False
              obtain nx p2 where nx: "oc = (nx, p2)" by (cases oc)
              have rest: "f kind ctx do_io pl1 p2 s1 = Some y"
                using step Inr en False io out nx no by (cases nx) auto
              have "\<exists>e. out = Inl e"
                using out nx no by (auto simp: poll_io_outcome_def split: if_splits)
              then have "I s1" using s0 err by blast
              then show ?thesis using IH [OF rest] err fin by blast
            qed
          qed
        qed
      qed
    qed
  qed
  then show ?thesis using i err fin by blast
qed

text \<open>A pollable that is registered, in a consistent net poller.\<close>

definition registered :: "nat \<Rightarrow> nat \<Rightarrow> pollable \<Rightarrow> 'w net_poller \<Rightarrow> bool" where
  "registered nb ne pl p \<longleftrightarrow> (\<exists>live. ws_inv nb ne (np_storage p) live) \<and> in_blocks ne (np_storage p) (pl_index pl) \<and>
     flag_count pl \<le> unat (np_pending p) \<and> unat (np_pending p) \<le> 2 ^ 33"

lemma registered_poll_io:
  assumes "registered nb ne pl p" "\<And>s s'. do_io s = (Inl Interrupted, s') \<Longrightarrow> f s' < (f s :: nat)"
  shows "\<exists>result. poll_io kind ctx do_io pl p s = Some (Inr result)"
proof -
  obtain live where "ws_inv nb ne (np_storage p) live" "in_blocks ne (np_storage p) (pl_index pl)"
    "flag_count pl \<le> unat (np_pending p)" "unat (np_pending p) \<le> 2 ^ 33"
    using assms(1) by (auto simp: registered_def)
  from poll_io_total [OF this do_io_loop_measure [where f = f, OF assms(2)]] show ?thesis .
qed

lemma poll_io_res_ok:
  assumes reg: "registered nb ne pl p" and i: "I x"
    and step: "\<And>x. I x \<Longrightarrow> \<exists>r x'. do_io x = Inr (r, x') \<and> (case r of Inl e \<Rightarrow> I x' | Inr v \<Rightarrow> J v x')"
    and meas: "\<And>x x'. do_io x = Inr (Inl Interrupted, x') \<Longrightarrow> f x' < (f x :: nat)"
  shows "\<exists>r ws pl' p' x'. poll_io_res kind ctx do_io pl p x = Some (Inr (r, ws, pl', p', x')) \<and>
    (case r of Ready (Inr v) \<Rightarrow> J v x' | _ \<Rightarrow> I x')"
proof -
  let ?Q = "\<lambda>out x. case out of Inl e \<Rightarrow> I x | Inr (Inl q) \<Rightarrow> False | Inr (Inr v) \<Rightarrow> J v x"
  have c: "case catching do_io x of (out, x') \<Rightarrow> ?Q out x'" if ix: "I x" for x
  proof -
    obtain r x' where "do_io x = Inr (r, x')" "case r of Inl e \<Rightarrow> I x' | Inr v \<Rightarrow> J v x'"
      using step [OF ix] by blast
    then show ?thesis by (cases r) (simp_all add: catching_def)
  qed
  have "f x' < f x" if "catching do_io x = (Inl Interrupted, x')" for x x'
    using that meas [of x] by (auto simp: catching_def split: sum.splits)
  from registered_poll_io [OF reg, where f = f, OF this] obtain r ws pl' p' x' where
    run: "poll_io kind ctx (catching do_io) pl p x = Some (Inr (r, ws, pl', p', x'))" by (metis surj_pair)
  have "io_post I ?Q (Inr (r, ws, pl', p', x'))"
    by (rule poll_io_inv [where I = I, OF run i]) (use c in fastforce)+
  then have "case r of Pending \<Rightarrow> I x' | Ready v \<Rightarrow> ?Q v x'" by (simp add: io_post_def)
  note post = this
  show ?thesis
  proof (cases r)
    case Pending
    then show ?thesis using run post by (simp add: poll_io_res_def resuming_def)
  next
    case (Ready out)
    show ?thesis
    proof (cases out)
      case (Inl e)
      then show ?thesis using run post Ready by (simp add: poll_io_res_def resuming_def)
    next
      case (Inr v)
      then show ?thesis using run post Ready by (cases v) (simp_all add: poll_io_res_def resuming_def)
    qed
  qed
qed

lemma poll_io_keeps:
  assumes reg: "registered nb ne pl p" and i: "I x"
    and step: "\<And>x. I x \<Longrightarrow> case do_io x of (Inl e, x') \<Rightarrow> I x' | (Inr v, x') \<Rightarrow> J v x'"
    and meas: "\<And>x x'. do_io x = (Inl Interrupted, x') \<Longrightarrow> f x' < (f x :: nat)"
  shows "\<exists>r ws pl' p' x'. poll_io kind ctx do_io pl p x = Some (Inr (r, ws, pl', p', x')) \<and>
    (case r of Ready (Inr v) \<Rightarrow> J v x' | _ \<Rightarrow> I x')"
proof -
  let ?Q = "\<lambda>out x. case out of Inl e \<Rightarrow> I x | Inr v \<Rightarrow> J v x"
  from registered_poll_io [OF reg, where f = f, OF meas] obtain r ws pl' p' x' where
    run: "poll_io kind ctx do_io pl p x = Some (Inr (r, ws, pl', p', x'))" by (metis surj_pair)
  have "io_post I ?Q (Inr (r, ws, pl', p', x'))"
    by (rule poll_io_inv [where I = I, OF run i]) (use step in \<open>fastforce split: sum.splits\<close>)+
  then have "case r of Pending \<Rightarrow> I x' | Ready v \<Rightarrow> ?Q v x'" by (simp add: io_post_def)
  then show ?thesis using run by (cases r) auto
qed

subsection \<open>Buffers\<close>

definition filled :: "('b \<Rightarrow> readbuf_view) \<Rightarrow> 'b \<Rightarrow> u8 list" where
  "filled view b = take (vw_filled (view b)) (vw_initialized (view b))"

lemma store_at_facts:
  "off + length xs \<le> length ys \<Longrightarrow> length (store_at off xs ys) = length ys"
  "off \<le> length ys \<Longrightarrow> take (off + length xs) (store_at off xs ys) = take off ys @ xs"
  by (simp_all add: store_at_def)

lemma readbuf_law:
  assumes "readbuf_laws api view"
  shows "vw_filled (view b) \<le> length (vw_initialized (view b))"
    "length (vw_initialized (view b)) \<le> vw_capacity (view b)"
    "rb_filled api b = filled view b" "rb_initialized api b = vw_initialized (view b)"
    "rb_remaining api b = vw_capacity (view b) - vw_filled (view b)"
    "length xs = length (vw_initialized (view b)) \<Longrightarrow> view (rb_set_initialized api xs b) = (view b)\<lparr>vw_initialized := xs\<rparr>"
    "view (rb_initialize api b) = (view b)\<lparr>vw_initialized := vw_initialized (view b) @
        replicate (vw_capacity (view b) - length (vw_initialized (view b))) 0\<rparr>"
    "length (filled view b) = vw_filled (view b)"
  using assms by (simp_all add: readbuf_laws_def filled_def)

lemma readbuf_advance:
  assumes "readbuf_laws api view" "vw_filled (view b) + n \<le> length (vw_initialized (view b))"
  obtains b' where "rb_advance api n b = Inr b'" "view b' = (view b)\<lparr>vw_filled := vw_filled (view b) + n\<rparr>"
proof -
  have "case rb_advance api n b of
        Inl p \<Rightarrow> length (vw_initialized (view b)) < vw_filled (view b) + n
      | Inr b' \<Rightarrow> vw_filled (view b) + n \<le> length (vw_initialized (view b)) \<and>
          view b' = (view b)\<lparr>vw_filled := vw_filled (view b) + n\<rparr>"
    using assms(1) by (simp add: readbuf_laws_def)
  then show ?thesis using that assms(2) by (cases "rb_advance api n b") auto
qed

lemma readbuf_put_slice:
  assumes "readbuf_laws api view" "length xs \<le> rb_remaining api b"
  obtains b' where "rb_put_slice api xs b = Inr b'"
    "view b' = (view b)\<lparr>vw_filled := vw_filled (view b) + length xs,
       vw_initialized := store_at (vw_filled (view b)) xs (vw_initialized (view b))\<rparr>"
proof -
  have "case rb_put_slice api xs b of
        Inl p \<Rightarrow> rb_remaining api b < length xs
      | Inr b' \<Rightarrow> length xs \<le> rb_remaining api b \<and>
          view b' = (view b)\<lparr>vw_filled := vw_filled (view b) + length xs,
            vw_initialized := store_at (vw_filled (view b)) xs (vw_initialized (view b))\<rparr>"
    using assms(1) by (simp add: readbuf_laws_def)
  then show ?thesis using that assms(2) by (cases "rb_put_slice api xs b") auto
qed

lemma readbuf_store:
  assumes laws: "readbuf_laws api view" and n: "vw_filled (view b) + length xs \<le> length (vw_initialized (view b))"
  obtains b' where
    "rb_advance api (length xs) (rb_set_initialized api (store_at (vw_filled (view b)) xs (vw_initialized (view b))) b) = Inr b'"
    "filled view b' = filled view b @ xs" "vw_capacity (view b') = vw_capacity (view b)"
proof -
  let ?b = "rb_set_initialized api (store_at (vw_filled (view b)) xs (vw_initialized (view b))) b"
  have l: "length (store_at (vw_filled (view b)) xs (vw_initialized (view b))) = length (vw_initialized (view b))"
    using n by (rule store_at_facts(1))
  have v: "view ?b = (view b)\<lparr>vw_initialized := store_at (vw_filled (view b)) xs (vw_initialized (view b))\<rparr>"
    by (rule readbuf_law(6) [OF laws l])
  obtain b' where "rb_advance api (length xs) ?b = Inr b'"
    "view b' = (view ?b)\<lparr>vw_filled := vw_filled (view ?b) + length xs\<rparr>"
    by (rule readbuf_advance [OF laws, where b = ?b and n = "length xs"]) (use v l n in \<open>simp_all\<close>)
  then show ?thesis
    using that v store_at_facts(2) [OF readbuf_law(1) [OF laws, of b], of xs] by (simp add: filled_def)
qed

subsection \<open>The closures\<close>

lemma socket_read:
  "socket_laws so incoming sent patience \<Longrightarrow> case so_read so n s of
     (Inl e, s') \<Rightarrow> incoming s' = incoming s \<and> sent s' = sent s \<and> (e = Interrupted \<longrightarrow> patience s' < patience s)
   | (Inr xs, s') \<Rightarrow> length xs \<le> n \<and> incoming s = xs @ incoming s' \<and> sent s' = sent s"
  by (simp add: socket_laws_def)

lemma socket_peek:
  "socket_laws so incoming sent patience \<Longrightarrow> case so_peek so n s of
     (Inl e, s') \<Rightarrow> incoming s' = incoming s \<and> sent s' = sent s \<and> (e = Interrupted \<longrightarrow> patience s' < patience s)
   | (Inr xs, s') \<Rightarrow> length xs \<le> n \<and> xs = take (length xs) (incoming s) \<and> incoming s' = incoming s \<and>
       sent s' = sent s"
  by (simp add: socket_laws_def)

lemma socket_write:
  "socket_laws so incoming sent patience \<Longrightarrow> case so_write so xs s of
     (Inl e, s') \<Rightarrow> incoming s' = incoming s \<and> sent s' = sent s \<and> (e = Interrupted \<longrightarrow> patience s' < patience s)
   | (Inr n, s') \<Rightarrow> n \<le> length xs \<and> sent s' = sent s @ take n xs \<and> incoming s' = incoming s"
  by (simp add: socket_laws_def)

lemma read_closure_ok:
  assumes buf: "readbuf_laws api view" and sock: "socket_laws so incoming sent patience"
    and fits: "vw_filled (view b) < length (vw_initialized (view b)) \<or>
      vw_capacity (view b) - vw_filled (view b) \<le> TLS_BUF_SIZE"
  shows "\<exists>r b' s'. read_closure api so (b, s) = Inr (r, b', s') \<and> sent s' = sent s \<and>
    (case r of
       Inl e \<Rightarrow> b' = b \<and> incoming s' = incoming s
     | Inr u \<Rightarrow> filled view b' @ incoming s' = filled view b @ incoming s \<and> vw_capacity (view b') = vw_capacity (view b))"
proof -
  note L = readbuf_law [OF buf, where b = b]
  show ?thesis
  proof (cases "vw_filled (view b) < length (vw_initialized (view b))")
    case True
    let ?n = "length (vw_initialized (view b)) - vw_filled (view b)"
    obtain r s' where rd: "so_read so ?n s = (r, s')" by (cases "so_read so ?n s")
    note R = socket_read [OF sock, where n = ?n and s = s, unfolded rd]
    show ?thesis
    proof (cases r)
      case (Inl e)
      then show ?thesis using True rd R L by (simp add: read_closure_def Let_def)
    next
      case (Inr xs)
      have "vw_filled (view b) + length xs \<le> length (vw_initialized (view b))" using R Inr True by auto
      then obtain b' where "rb_advance api (length xs)
          (rb_set_initialized api (store_at (vw_filled (view b)) xs (vw_initialized (view b))) b) = Inr b'"
        "filled view b' = filled view b @ xs" "vw_capacity (view b') = vw_capacity (view b)"
        by (rule readbuf_store [OF buf])
      then show ?thesis using True rd R L Inr by (simp add: read_closure_def Let_def)
    qed
  next
    case False
    let ?n = "rb_remaining api b"
    have n: "?n \<le> TLS_BUF_SIZE" using fits False L(5) by simp
    have eq: "vw_filled (view b) = length (vw_initialized (view b))" using False L(1) by simp
    obtain r s' where rd: "so_read so ?n s = (r, s')" by (cases "so_read so ?n s")
    note R = socket_read [OF sock, where n = ?n and s = s, unfolded rd]
    show ?thesis
    proof (cases r)
      case (Inl e)
      then show ?thesis using eq n rd R L by (simp add: read_closure_def Let_def)
    next
      case (Inr xs)
      obtain b' where put: "rb_put_slice api xs b = Inr b'" and
        v: "view b' = (view b)\<lparr>vw_filled := vw_filled (view b) + length xs,
          vw_initialized := store_at (vw_filled (view b)) xs (vw_initialized (view b))\<rparr>"
        by (rule readbuf_put_slice [OF buf, where xs = xs and b = b]) (use R Inr in simp)
      have "filled view b' = filled view b @ xs"
        using v store_at_facts(2) [OF L(1)] by (simp add: filled_def)
      then show ?thesis using eq n rd R L Inr put v by (simp add: read_closure_def Let_def)
    qed
  qed
qed

lemma read_closure_patience:
  assumes "socket_laws so incoming sent patience" "read_closure api so (b, s) = Inr (Inl Interrupted, b', s')"
  shows "patience s' < patience s"
proof -
  obtain n where "so_read so n s = (Inl Interrupted, s')"
    using assms(2) by (auto simp: read_closure_def Let_def split: if_splits prod.splits sum.splits)
  then show ?thesis using socket_read [OF assms(1), where n = n and s = s] by simp
qed

lemma peek_closure_patience:
  assumes "socket_laws so incoming sent patience" "peek_closure api so (b, s) = Inr (Inl Interrupted, b', s')"
  shows "patience s' < patience s"
proof -
  obtain n where "so_peek so n s = (Inl Interrupted, s')"
    using assms(2) by (auto simp: peek_closure_def Let_def split: prod.splits sum.splits)
  then show ?thesis using socket_peek [OF assms(1), where n = n and s = s] by simp
qed

lemma peek_closure_ok:
  assumes buf: "readbuf_laws api view" and sock: "socket_laws so incoming sent patience"
  shows "\<exists>r b' s'. peek_closure api so (b, s) = Inr (r, b', s') \<and> sent s' = sent s \<and> incoming s' = incoming s \<and>
    vw_capacity (view b') = vw_capacity (view b) \<and> vw_filled (view b') = vw_filled (view b) \<and>
    filled view b' = filled view b \<and>
    (case r of
       Inl e \<Rightarrow> True
     | Inr n \<Rightarrow> vw_filled (view b') + n \<le> length (vw_initialized (view b')) \<and>
         take (vw_filled (view b') + n) (vw_initialized (view b')) = filled view b @ take n (incoming s))"
proof -
  note L = readbuf_law [OF buf, where b = b]
  let ?b = "rb_initialize api b"
  note M = readbuf_law [OF buf, where b = ?b]
  have len: "length (vw_initialized (view ?b)) = vw_capacity (view b)" using L by simp
  have fl: "filled view ?b = filled view b" using L(1) by (simp add: L(7) filled_def)
  have rem: "rb_remaining api ?b = vw_capacity (view b) - vw_filled (view b)" by (simp add: M(5) L(7))
  obtain r s' where pk: "so_peek so (vw_capacity (view b) - vw_filled (view b)) s = (r, s')"
    by (cases "so_peek so (vw_capacity (view b) - vw_filled (view b)) s")
  note R = socket_peek [OF sock, where n = "vw_capacity (view b) - vw_filled (view b)" and s = s, unfolded pk]
  show ?thesis
  proof (cases r)
    case (Inl e)
    then show ?thesis using pk R rem fl L(7) by (simp add: peek_closure_def Let_def)
  next
    case (Inr xs)
    let ?f = "vw_filled (view b)"
    have n: "?f + length xs \<le> length (vw_initialized (view ?b))" using R Inr len L(1,2) by auto
    let ?ys = "store_at ?f xs (vw_initialized (view ?b))"
    have v: "view (rb_set_initialized api ?ys ?b) = (view ?b)\<lparr>vw_initialized := ?ys\<rparr>"
      by (rule M(6)) (rule store_at_facts(1) [OF n])
    have f: "length (rb_filled api ?b) = ?f" using M(3,8) by (simp add: L(7))
    have run: "peek_closure api so (b, s) = Inr (Inr (length xs), rb_set_initialized api ?ys ?b, s')"
      using pk Inr rem f M(4) by (simp add: peek_closure_def Let_def)
    have t: "take (?f + length xs) ?ys = filled view b @ xs"
      using store_at_facts(2) [of ?f "vw_initialized (view ?b)" xs] n fl by (simp add: filled_def L(7))
    have t': "take ?f ?ys = filled view b"
      using arg_cong [OF t, where f = "take ?f"] L(8) by simp
    have l: "length ?ys = length (vw_initialized (view ?b))" by (rule store_at_facts(1) [OF n])
    have "vw_filled (view (rb_set_initialized api ?ys ?b)) + length xs \<le>
        length (vw_initialized (view (rb_set_initialized api ?ys ?b)))"
      unfolding v using n l by (simp add: L(7) del: length_append length_replicate)
    moreover have "xs = take (length xs) (incoming s)" "incoming s' = incoming s" "sent s' = sent s" using R Inr by auto
    ultimately show ?thesis using run t t' v by (simp add: filled_def L(7))
  qed
qed

end
