(* ===== verification/Tcp_Properties.thy ===== *)
theory Tcp_Properties
  imports Tcp_Proofs Net_Properties
begin

text \<open>The properties of reading, peeking and writing a TCP stream.\<close>

subsection \<open>A buffer, a socket and a pollable\<close>

text \<open>
  A buffer as its filled bytes, the initialized ones behind them and the number of those that
  are not initialized, and a socket as the bytes to read and those written.
\<close>

definition list_readbuf :: "(u8 list \<times> u8 list \<times> nat) readbuf_api" where
  "list_readbuf = \<lparr>rb_filled = (\<lambda>(f, r, k). f), rb_initialized = (\<lambda>(f, r, k). f @ r),
     rb_remaining = (\<lambda>(f, r, k). length r + k),
     rb_set_initialized = (\<lambda>xs (f, r, k). (take (length f) xs, drop (length f) xs, k)),
     rb_initialize = (\<lambda>(f, r, k). (f, r @ replicate k 0, 0)),
     rb_advance = (\<lambda>n (f, r, k). if n \<le> length r then Inr (f @ take n r, drop n r, k) else Inl Assert_Failed),
     rb_put_slice = (\<lambda>xs (f, r, k). if length xs \<le> length r + k
        then Inr (f @ xs, drop (length xs) r, k - (length xs - length r)) else Inl Assert_Failed)\<rparr>"

definition list_view :: "u8 list \<times> u8 list \<times> nat \<Rightarrow> readbuf_view" where
  "list_view = (\<lambda>(f, r, k). \<lparr>vw_capacity = length f + length r + k, vw_initialized = f @ r, vw_filled = length f\<rparr>)"

lemma list_readbuf_laws: "readbuf_laws list_readbuf list_view"
  by (auto simp: readbuf_laws_def list_readbuf_def list_view_def store_at_def)

definition list_socket :: "(u8 list \<times> u8 list) socket_api" where
  "list_socket = \<lparr>
     so_read = (\<lambda>n (i, out). if i = [] then (Inl WouldBlock, i, out) else (Inr (take n i), drop n i, out)),
     so_peek = (\<lambda>n (i, out). if i = [] then (Inl WouldBlock, i, out) else (Inr (take n i), i, out)),
     so_read_vectored = (\<lambda>ns (i, out). (Inl WouldBlock, i, out)),
     so_write = (\<lambda>xs (i, out). (Inr (length xs), i, out @ xs)),
     so_write_vectored = (\<lambda>xss (i, out). (Inr (length (concat xss)), i, out @ concat xss)),
     so_shutdown = (\<lambda>s. (Inr (), s)), so_take_error = (\<lambda>s. (Inr None, s))\<rparr>"

lemma list_socket_laws: "socket_laws list_socket fst snd (\<lambda>s. 0)"
  by (auto simp: socket_laws_def list_socket_def min_def)

text \<open>The first source of a fresh net poller, registered and, in the second case, readable.\<close>

definition first_source :: pollable where
  "first_source = \<lparr>pl_index = \<lparr>wi_block = 0, wi_entry = 0\<rparr>, pl_budgets = (\<lambda>kind. BUDGET),
     pl_pendings = (\<lambda>kind. False)\<rparr>"

lemma first_source_registered:
  obtains p :: "nat net_poller" where "registered 1 1 first_source p"
proof -
  obtain s where r: "run (net_step 1 1) (net_start :: nat net) [Register (Inr ())] = Some (Inr s)"
    and p: "net_pollable 0 s = Some first_source"
    using one_source_runs unfolding first_source_def by blast
  have inv: "net_inv 1 1 s" by (rule net_reach_inv [OF _ run_reach [OF r]]) simp
  note P = net_inv_pollable [OF inv p]
  have "ws_inv 1 1 (net_storage s) (live_indices (nm_pollables s))" using inv by (simp add: net_inv_def)
  then have "registered 1 1 first_source (nm_poller s)" unfolding registered_def using P(4,5,6) by blast
  then show ?thesis by (rule that)
qed

subsection \<open>Reading\<close>

text \<open>
  C22: reading a stream into a buffer neither loses nor duplicates nor reorders a byte: what the
  buffer holds followed by what the peer still has to send is the same before and after the
  call, however often it is interrupted or has to wait, and only a successful read changes the
  buffer. This holds for a buffer with initialized space, or with at most 64 KiB left.
\<close>

theorem read_keeps_the_stream:
  assumes "readbuf_laws api view" "socket_laws so incoming sent patience" "registered nb ne pl p"
    and "vw_filled (view b) < length (vw_initialized (view b)) \<or>
      vw_capacity (view b) - vw_filled (view b) \<le> TLS_BUF_SIZE"
  shows "\<exists>r ws pl' p' b' s'. poll_read_inner api so ctx pl p (b, s) = Some (Inr (r, ws, pl', p', b', s')) \<and>
    filled view b' @ incoming s' = filled view b @ incoming s \<and> sent s' = sent s \<and>
    vw_capacity (view b') = vw_capacity (view b) \<and> (r = Ready (Inr ()) \<or> b' = b)"
proof -
  let ?I = "\<lambda>(b', s'). b' = b \<and> incoming s' = incoming s \<and> sent s' = sent s"
  let ?J = "\<lambda>u (b', s'). filled view b' @ incoming s' = filled view b @ incoming s \<and> sent s' = sent s \<and>
    vw_capacity (view b') = vw_capacity (view b)"
  have step: "\<exists>r x'. read_closure api so x = Inr (r, x') \<and> (case r of Inl e \<Rightarrow> ?I x' | Inr v \<Rightarrow> ?J v x')"
    if ix: "?I x" for x
  proof -
    obtain s1 where x: "x = (b, s1)" and s1: "incoming s1 = incoming s" "sent s1 = sent s"
      using ix by (cases x) auto
    obtain r b' s' where run: "read_closure api so x = Inr (r, b', s')" and
      post: "sent s' = sent s1" "case r of Inl e \<Rightarrow> b' = b \<and> incoming s' = incoming s1
       | Inr u \<Rightarrow> filled view b' @ incoming s' = filled view b @ incoming s1 \<and> vw_capacity (view b') = vw_capacity (view b)"
      using read_closure_ok [OF assms(1,2,4), of s1] unfolding x by blast
    have "case r of Inl e \<Rightarrow> ?I (b', s') | Inr v \<Rightarrow> ?J v (b', s')" using post s1 by (cases r) simp_all
    then show ?thesis using run by blast
  qed
  have meas: "(case x' of (b, s) \<Rightarrow> patience s) < (case x of (b, s) \<Rightarrow> patience s)"
    if "read_closure api so x = Inr (Inl Interrupted, x')" for x x'
    using that read_closure_patience [OF assms(2)] by (cases x; cases x') auto
  have "\<exists>r ws pl' p' x'. poll_io_res Read (Some ctx) (read_closure api so) pl p (b, s) =
      Some (Inr (r, ws, pl', p', x')) \<and> (case r of Ready (Inr v) \<Rightarrow> ?J v x' | _ \<Rightarrow> ?I x')"
    by (rule poll_io_res_ok [where I = ?I and J = ?J and f = "\<lambda>(b, s). patience s", OF assms(3) _ step meas]) simp
  then obtain r ws pl' p' x' where
    run0: "poll_io_res Read (Some ctx) (read_closure api so) pl p (b, s) = Some (Inr (r, ws, pl', p', x'))" and
    post0: "case r of Ready (Inr v) \<Rightarrow> ?J v x' | _ \<Rightarrow> ?I x'" by blast
  obtain b' s' where x': "x' = (b', s')" by (cases x')
  have run: "poll_read_inner api so ctx pl p (b, s) = Some (Inr (r, ws, pl', p', b', s'))"
    using run0 x' by (simp add: poll_read_inner_def)
  note post = post0 [unfolded x']
  show ?thesis
  proof (cases "r = Ready (Inr ())")
    case True
    then show ?thesis using run post by auto
  next
    case False
    then have "?I (b', s')" using post by (auto split: poll.splits sum.splits)
    then show ?thesis using run by auto
  qed
qed

theorem read_keeps_the_stream_witness:
  "\<exists>p ws pl' p' b' s' r. poll_read_inner list_readbuf list_socket (7 :: nat) first_source p
      (([1], [0, 0], 0), ([2, 3, 4], [])) = Some (Inr (r, ws, pl', p', b', s')) \<and>
    filled list_view b' @ fst s' = [1, 2, 3, 4]"
proof -
  obtain p :: "nat net_poller" where p: "registered 1 1 first_source p" by (rule first_source_registered)
  have fits: "vw_filled (list_view ([1], [0, 0], 0)) < length (vw_initialized (list_view ([1], [0, 0], 0))) \<or>
      vw_capacity (list_view ([1], [0, 0], 0)) - vw_filled (list_view ([1], [0, 0], 0)) \<le> TLS_BUF_SIZE"
    by (simp add: list_view_def)
  have "filled list_view ([1], [0, 0], 0) @ fst ([2, 3, 4 :: u8], [] :: u8 list) = [1, 2, 3, 4]"
    by (simp add: filled_def list_view_def)
  with read_keeps_the_stream [OF list_readbuf_laws list_socket_laws p fits, where s = "([2, 3, 4], [])" and ctx = 7]
  show ?thesis by (metis (no_types, lifting))
qed

text \<open>
  Reading into a buffer without initialized space and with more than 64 KiB left panics
  whenever the call gets to read: the thread-local buffer is sliced past its end.
\<close>

theorem read_of_a_large_buffer_panics:
  assumes "readbuf_laws api view" and "poll_io_enter Read (Some ctx) pl p = Inr (Ready (), ws, pl', p')"
    and "vw_filled (view b) = length (vw_initialized (view b))"
    and "64 * 1024 < vw_capacity (view b) - vw_filled (view b)"
  shows "poll_read_inner api so ctx pl p (b, s) = Some (Inl Index_Out_Of_Bounds)"
proof -
  note L = readbuf_law [OF assms(1), where b = b]
  have "read_closure api so (b, s) = Inl Index_Out_Of_Bounds"
    using assms(3,4) L by (simp add: read_closure_def Let_def TLS_BUF_SIZE_def)
  then have "catching (read_closure api so) (b, s) = (Inr (Inl Index_Out_Of_Bounds), (b, s))"
    by (simp add: catching_def)
  then show ?thesis
    using assms(2)
    by (simp add: poll_read_inner_def poll_io_res_def poll_io.simps [of Read] do_io_loop.simps poll_io_outcome_def
        resuming_def)
qed

text \<open>The first source, after an event made it readable.\<close>

lemma readable_source:
  "\<exists>s ws pl' p'. run (net_step 1 1) (net_start :: nat net) [Register (Inr ()), Net_Event readable_event] = Some (Inr s) \<and>
     poll_io_enter Read (Some 7) first_source (nm_poller s) = Inr (Ready (), ws, pl', p')"
  by (simp add: net_eval first_source_def)

theorem read_of_a_large_buffer_panics_witness:
  "\<exists>s. run (net_step 1 1) (net_start :: nat net) [Register (Inr ()), Net_Event readable_event] = Some (Inr s) \<and>
     poll_read_inner list_readbuf list_socket 7 first_source (nm_poller s) (([], [], 100000), ([1], [])) =
       Some (Inl Index_Out_Of_Bounds)"
proof -
  obtain s ws pl' p' where r: "run (net_step 1 1) (net_start :: nat net) [Register (Inr ()), Net_Event readable_event] =
      Some (Inr s)" and en: "poll_io_enter Read (Some 7) first_source (nm_poller s) = Inr (Ready (), ws, pl', p')"
    using readable_source by (elim exE conjE) (rule that)
  have v: "vw_filled (list_view ([], [], 100000)) = length (vw_initialized (list_view ([], [], 100000)))"
    "64 * 1024 < vw_capacity (list_view ([], [], 100000)) - vw_filled (list_view ([], [], 100000))"
    by (simp_all add: list_view_def)
  show ?thesis
    by (intro exI [where x = s] conjI r) (rule read_of_a_large_buffer_panics [OF list_readbuf_laws en v])
qed

subsection \<open>Peeking and writing\<close>

text \<open>
  Peeking consumes nothing: the bytes to come are the same afterwards, and a successful
  \<open>poll_peek\<close> of \<open>n\<close> bytes has filled the buffer with the next \<open>n\<close> of them; otherwise nothing more
  is filled. No buffer makes it panic.
\<close>

theorem peek_consumes_nothing:
  assumes "readbuf_laws api view" "socket_laws so incoming sent patience" "registered nb ne pl p"
  shows "\<exists>r ws pl' p' b' s'. poll_peek_inner api so ctx pl p (b, s) = Some (Inr (r, ws, pl', p', b', s')) \<and>
    incoming s' = incoming s \<and> sent s' = sent s \<and> vw_capacity (view b') = vw_capacity (view b) \<and>
    filled view b' = filled view b @ (case r of Ready (Inr n) \<Rightarrow> take n (incoming s) | _ \<Rightarrow> [])"
proof -
  let ?I = "\<lambda>(b', s'). incoming s' = incoming s \<and> sent s' = sent s \<and> vw_capacity (view b') = vw_capacity (view b) \<and>
    filled view b' = filled view b"
  let ?J = "\<lambda>n (b', s'). ?I (b', s') \<and> vw_filled (view b') + n \<le> length (vw_initialized (view b')) \<and>
    take (vw_filled (view b') + n) (vw_initialized (view b')) = filled view b @ take n (incoming s)"
  have step: "\<exists>r x'. peek_closure api so x = Inr (r, x') \<and> (case r of Inl e \<Rightarrow> ?I x' | Inr v \<Rightarrow> ?J v x')"
    if ix: "?I x" for x
  proof -
    obtain b1 s1 where x: "x = (b1, s1)" by (cases x)
    obtain r b' s' where run: "peek_closure api so x = Inr (r, b', s')" and
      post: "sent s' = sent s1" "incoming s' = incoming s1" "vw_capacity (view b') = vw_capacity (view b1)"
        "filled view b' = filled view b1"
        "case r of Inl e \<Rightarrow> True | Inr n \<Rightarrow> vw_filled (view b') + n \<le> length (vw_initialized (view b')) \<and>
           take (vw_filled (view b') + n) (vw_initialized (view b')) = filled view b1 @ take n (incoming s1)"
      using peek_closure_ok [OF assms(1,2), of b1 s1] unfolding x by blast
    have "case r of Inl e \<Rightarrow> ?I (b', s') | Inr v \<Rightarrow> ?J v (b', s')" using post ix x by (cases r) simp_all
    then show ?thesis using run by blast
  qed
  have meas: "(case x' of (b, s) \<Rightarrow> patience s) < (case x of (b, s) \<Rightarrow> patience s)"
    if "peek_closure api so x = Inr (Inl Interrupted, x')" for x x'
    using that peek_closure_patience [OF assms(2)] by (cases x; cases x') auto
  have "\<exists>r ws pl' p' x'. poll_io_res Read (Some ctx) (peek_closure api so) pl p (b, s) =
      Some (Inr (r, ws, pl', p', x')) \<and> (case r of Ready (Inr v) \<Rightarrow> ?J v x' | _ \<Rightarrow> ?I x')"
    by (rule poll_io_res_ok [where I = ?I and J = ?J and f = "\<lambda>(b, s). patience s", OF assms(3) _ step meas]) simp
  then obtain r ws pl' p' x' where
    run: "poll_io_res Read (Some ctx) (peek_closure api so) pl p (b, s) = Some (Inr (r, ws, pl', p', x'))" and
    post: "case r of Ready (Inr v) \<Rightarrow> ?J v x' | _ \<Rightarrow> ?I x'" by blast
  obtain b1 s1 where x': "x' = (b1, s1)" by (cases x')
  show ?thesis
  proof (cases "\<exists>n. r = Ready (Inr n)")
    case True
    then obtain n where n: "r = Ready (Inr n)" by blast
    then have le: "vw_filled (view b1) + n \<le> length (vw_initialized (view b1))" using post x' by simp
    obtain b2 where adv: "rb_advance api n b1 = Inr b2" and v: "view b2 = (view b1)\<lparr>vw_filled := vw_filled (view b1) + n\<rparr>"
      by (rule readbuf_advance [OF assms(1) le])
    have "filled view b2 = filled view b @ take n (incoming s)" "vw_capacity (view b2) = vw_capacity (view b)"
      using post n x' v by (simp_all add: filled_def [of view b2])
    then show ?thesis using run post n x' adv by (simp add: poll_peek_inner_def)
  next
    case False
    then have "poll_peek_inner api so ctx pl p (b, s) = Some (Inr (r, ws, pl', p', b1, s1))" "?I (b1, s1)"
      using run post x' by (auto simp: poll_peek_inner_def split: poll.splits sum.splits)
    then show ?thesis using False by (auto split: poll.splits sum.splits)
  qed
qed

text \<open>
  Writing sends a prefix of the buffer and nothing else: a successful write of \<open>n\<close> bytes has
  sent exactly the first \<open>n\<close>, and a write that fails or is pending has sent none.
\<close>

theorem write_sends_a_prefix:
  assumes "socket_laws so incoming sent patience" "registered nb ne pl p"
  shows "\<exists>r ws pl' p' s'. poll_write_inner so buf ctx pl p s = Some (Inr (r, ws, pl', p', s')) \<and>
    incoming s' = incoming s \<and> sent s' = sent s @ (case r of Ready (Inr n) \<Rightarrow> take n buf | _ \<Rightarrow> []) \<and>
    (case r of Ready (Inr n) \<Rightarrow> n \<le> length buf | _ \<Rightarrow> True)"
proof -
  let ?I = "\<lambda>s'. incoming s' = incoming s \<and> sent s' = sent s"
  let ?J = "\<lambda>n s'. incoming s' = incoming s \<and> sent s' = sent s @ take n buf \<and> n \<le> length buf"
  have step: "case so_write so buf x of (Inl e, x') \<Rightarrow> ?I x' | (Inr v, x') \<Rightarrow> ?J v x'" if "?I x" for x
    using socket_write [OF assms(1), where xs = buf and s = x] that by (auto split: prod.splits sum.splits)
  have meas: "patience x' < patience x" if "so_write so buf x = (Inl Interrupted, x')" for x x'
    using socket_write [OF assms(1), where xs = buf and s = x] that by simp
  have "\<exists>r ws pl' p' x'. poll_io Write (Some ctx) (so_write so buf) pl p s = Some (Inr (r, ws, pl', p', x')) \<and>
    (case r of Ready (Inr v) \<Rightarrow> ?J v x' | _ \<Rightarrow> ?I x')"
    by (rule poll_io_keeps [where I = ?I and J = ?J and f = patience, OF assms(2) _ step meas]) simp_all
  then obtain r ws pl' p' x' where run: "poll_io Write (Some ctx) (so_write so buf) pl p s = Some (Inr (r, ws, pl', p', x'))"
    and post: "case r of Ready (Inr v) \<Rightarrow> ?J v x' | _ \<Rightarrow> ?I x'" by blast
  have "incoming x' = incoming s \<and> sent x' = sent s @ (case r of Ready (Inr n) \<Rightarrow> take n buf | _ \<Rightarrow> []) \<and>
    (case r of Ready (Inr n) \<Rightarrow> n \<le> length buf | _ \<Rightarrow> True)"
    using post by (auto split: poll.splits sum.splits)
  then show ?thesis using run unfolding poll_write_inner_def by blast
qed

theorem peek_consumes_nothing_witness:
  "\<exists>p r ws pl' p' b' s'. poll_peek_inner list_readbuf list_socket (7 :: nat) first_source p
      (([1], [], 9), ([2, 3, 4], [])) = Some (Inr (r, ws, pl', p', b', s')) \<and> fst s' = [2, 3, 4]"
proof -
  obtain p :: "nat net_poller" where p: "registered 1 1 first_source p" by (rule first_source_registered)
  from peek_consumes_nothing [OF list_readbuf_laws list_socket_laws p, where b = "([1], [], 9)" and
      s = "([2, 3, 4], [])" and ctx = 7] show ?thesis by (metis fst_conv)
qed

theorem write_sends_a_prefix_witness:
  "\<exists>p r ws pl' p' s'. poll_write_inner list_socket [5, 6] (7 :: nat) first_source p ([], [4]) =
      Some (Inr (r, ws, pl', p', s')) \<and> fst s' = [] \<and>
      snd s' = [4] @ (case r of Ready (Inr n) \<Rightarrow> take n [5, 6] | _ \<Rightarrow> [])"
proof -
  obtain p :: "nat net_poller" where p: "registered 1 1 first_source p" by (rule first_source_registered)
  from write_sends_a_prefix [OF list_socket_laws p, where buf = "[5, 6]" and s = "([], [4])" and ctx = 7]
  show ?thesis by (metis fst_conv snd_conv)
qed

end
