(* ===== verification/Tcp_Split.thy ===== *)
theory Tcp_Split
  imports Tcp_Stream
begin

text \<open>
  \<open>src/src/net/tcp/split_owned.rs\<close>: the two owned halves of a stream, which share it through an
  \<open>Arc\<close>, and what becomes of the stream when they are dropped, forgotten or reunited.
\<close>

subsection \<open>State\<close>

text \<open>
  Streams, \<open>Arc\<close>s and halves are named by numbers; an entry is \<open>None\<close> once the value was moved or
  dropped. \<open>ow_sockets\<close> are the sockets, \<open>ow_shutdowns\<close> counts the calls of \<open>shutdown\<close> and \<open>ow_dropped\<close>
  lists the streams that were dropped.
\<close>

datatype half = Read_Half nat | Write_Half nat bool

record arc =
  ar_stream :: nat
  ar_strong :: nat

record 's owned =
  ow_streams :: "nat option list"
  ow_arcs :: "arc list"
  ow_halves :: "half option list"
  ow_sockets :: "nat \<Rightarrow> 's"
  ow_shutdowns :: "nat \<Rightarrow> nat"
  ow_dropped :: "nat list"

text \<open>Before any split: the streams \<open>0 ..< n\<close>.\<close>

definition owned_start :: "nat \<Rightarrow> 's \<Rightarrow> 's owned" where
  "owned_start n sock = \<lparr>ow_streams = map Some [0..<n], ow_arcs = [], ow_halves = [], ow_sockets = (\<lambda>u. sock),
     ow_shutdowns = (\<lambda>u. 0), ow_dropped = []\<rparr>"

fun half_arc :: "half \<Rightarrow> nat" where
  "half_arc (Read_Half a) = a"
| "half_arc (Write_Half a shutdown_on_drop) = a"

definition half_at :: "nat \<Rightarrow> 's owned \<Rightarrow> half option" where
  "half_at n s = (if n < length (ow_halves s) then ow_halves s ! n else None)"

subsection \<open>Operations\<close>

definition split_owned :: "nat \<Rightarrow> nat \<Rightarrow> 's owned \<Rightarrow> 's owned" where
  "split_owned k u s =
     (let a = length (ow_arcs s)
      in s\<lparr>ow_streams := (ow_streams s)[k := None], ow_arcs := ow_arcs s @ [\<lparr>ar_stream = u, ar_strong = 2\<rparr>],
           ow_halves := ow_halves s @ [Some (Read_Half a), Some (Write_Half a True)]\<rparr>)"

text \<open>\<open>Drop for Arc\<close>: the last reference drops the stream.\<close>

definition arc_drop :: "nat \<Rightarrow> 's owned \<Rightarrow> 's owned" where
  "arc_drop a s =
     (let arc = ow_arcs s ! a; strong = ar_strong arc - 1
      in s\<lparr>ow_arcs := (ow_arcs s)[a := arc\<lparr>ar_strong := strong\<rparr>],
           ow_dropped := (if strong = 0 then ow_dropped s @ [ar_stream arc] else ow_dropped s)\<rparr>)"

definition half_shutdown :: "'s socket_api \<Rightarrow> nat \<Rightarrow> 's owned \<Rightarrow> unit io_result poll \<times> 's owned" where
  "half_shutdown so a s =
     (let u = ar_stream (ow_arcs s ! a); (r, sock) = poll_shutdown_inner so (ow_sockets s u)
      in (r, s\<lparr>ow_sockets := (ow_sockets s)(u := sock), ow_shutdowns := (ow_shutdowns s)(u := ow_shutdowns s u + 1)\<rparr>))"

text \<open>Dropping a half: \<open>Drop for OwnedWriteHalf\<close>, then the field.\<close>

fun half_drop :: "'s socket_api \<Rightarrow> half \<Rightarrow> 's owned \<Rightarrow> 's owned res" where
  "half_drop so (Read_Half a) s = Inr (arc_drop a s)"
| "half_drop so (Write_Half a shutdown_on_drop) s =
     (if shutdown_on_drop
      then (let (r, s1) = half_shutdown so a s in rbind (rassert (is_ready r)) (\<lambda>_. Inr (arc_drop a s1)))
      else Inr (arc_drop a s))"

definition forget :: "'s socket_api \<Rightarrow> nat \<Rightarrow> 's owned \<Rightarrow> 's owned res" where
  "forget so a s = half_drop so (Write_Half a False) s"

text \<open>\<open>Arc::try_unwrap\<close> succeeds on the only reference and takes the stream out.\<close>

definition try_unwrap :: "nat \<Rightarrow> 's owned \<Rightarrow> (nat \<times> 's owned) option" where
  "try_unwrap a s =
     (let arc = ow_arcs s ! a
      in if ar_strong arc = 1 then Some (ar_stream arc, s\<lparr>ow_arcs := (ow_arcs s)[a := arc\<lparr>ar_strong := 0\<rparr>]\<rparr>) else None)"

text \<open>The result \<open>None\<close> is \<open>ReuniteError\<close>, which gives both halves back.\<close>

definition reunite :: "'s socket_api \<Rightarrow> nat \<Rightarrow> nat \<Rightarrow> 's owned \<Rightarrow> (nat option \<times> 's owned) res" where
  "reunite so a b s =
     (if a = b
      then rbind (forget so b s) (\<lambda>s1.
             case try_unwrap a s1 of
               Some (u, s2) \<Rightarrow> Inr (Some u, s2)
             | None \<Rightarrow> Inl Expect_Failed)
      else Inr (None, s))"

text \<open>\<open>poll_shutdown\<close> of the write half in slot \<open>n\<close>.\<close>

definition half_poll_shutdown :: "'s socket_api \<Rightarrow> nat \<Rightarrow> nat \<Rightarrow> bool \<Rightarrow> 's owned \<Rightarrow> unit io_result poll \<times> 's owned" where
  "half_poll_shutdown so n a shutdown_on_drop s =
     (let (r, s1) = half_shutdown so a s
      in (r, s1\<lparr>ow_halves := (ow_halves s1)[n := Some (Write_Half a (if is_ready r then False else shutdown_on_drop))]\<rparr>))"

subsection \<open>The machine\<close>

text \<open>Any use of streams and halves; \<open>Reunite n m\<close> names the slots of the read and the write half.\<close>

datatype owned_action = Drop_Stream nat | Split nat | Drop_Half nat | Forget nat | Reunite nat nat | Shut_Down nat

definition take_half :: "nat \<Rightarrow> 's owned \<Rightarrow> 's owned" where
  "take_half n s = s\<lparr>ow_halves := (ow_halves s)[n := None]\<rparr>"

fun owned_step :: "'s socket_api \<Rightarrow> owned_action \<Rightarrow> 's owned \<Rightarrow> 's owned res option" where
  "owned_step so (Drop_Stream k) s =
     (if k < length (ow_streams s)
      then (case ow_streams s ! k of
              Some u \<Rightarrow> Some (Inr (s\<lparr>ow_streams := (ow_streams s)[k := None], ow_dropped := ow_dropped s @ [u]\<rparr>))
            | None \<Rightarrow> None)
      else None)"
| "owned_step so (Split k) s =
     (if k < length (ow_streams s)
      then (case ow_streams s ! k of Some u \<Rightarrow> Some (Inr (split_owned k u s)) | None \<Rightarrow> None)
      else None)"
| "owned_step so (Drop_Half n) s =
     (case half_at n s of Some h \<Rightarrow> Some (half_drop so h (take_half n s)) | None \<Rightarrow> None)"
| "owned_step so (Forget n) s =
     (case half_at n s of Some (Write_Half a f) \<Rightarrow> Some (forget so a (take_half n s)) | _ \<Rightarrow> None)"
| "owned_step so (Reunite n m) s =
     (case (half_at n s, half_at m s) of
        (Some (Read_Half a), Some (Write_Half b f)) \<Rightarrow>
          Some (if a = b
                then rbind (reunite so a b (take_half m (take_half n s))) (\<lambda>(r, s1).
                       Inr (case r of Some u \<Rightarrow> s1\<lparr>ow_streams := ow_streams s1 @ [Some u]\<rparr> | None \<Rightarrow> s1))
                else rbind (reunite so a b s) (\<lambda>(r, s1). Inr s1))
      | _ \<Rightarrow> None)"
| "owned_step so (Shut_Down n) s =
     (case half_at n s of Some (Write_Half a f) \<Rightarrow> Some (Inr (snd (half_poll_shutdown so n a f s))) | _ \<Rightarrow> None)"

subsection \<open>The invariant\<close>

text \<open>The references of one kind to an \<open>Arc\<close> that an entry of \<open>ow_halves\<close> holds.\<close>

fun refs_of :: "bool \<Rightarrow> nat \<Rightarrow> half option \<Rightarrow> nat" where
  "refs_of reads a None = 0"
| "refs_of reads a (Some (Read_Half b)) = (if reads \<and> b = a then 1 else 0)"
| "refs_of reads a (Some (Write_Half b f)) = (if \<not> reads \<and> b = a then 1 else 0)"

definition half_refs :: "bool \<Rightarrow> nat \<Rightarrow> 's owned \<Rightarrow> nat" where
  "half_refs reads a s = tally (refs_of reads a) (ow_halves s)"

text \<open>Where the streams are: whole, shared by halves, or dropped.\<close>

definition arc_streams :: "arc \<Rightarrow> nat multiset" where
  "arc_streams x = (if 0 < ar_strong x then {#ar_stream x#} else {#})"

definition whole_streams :: "nat option \<Rightarrow> nat multiset" where
  "whole_streams x = (case x of Some u \<Rightarrow> {#u#} | None \<Rightarrow> {#})"

definition stream_places :: "'s owned \<Rightarrow> nat multiset" where
  "stream_places s = tally whole_streams (ow_streams s) + tally arc_streams (ow_arcs s) + mset (ow_dropped s)"

definition owned_inv :: "nat \<Rightarrow> 's owned \<Rightarrow> bool" where
  "owned_inv n s \<longleftrightarrow> stream_places s = mset [0..<n] \<and>
     (\<forall>reads a. half_refs reads a s \<le> (if a < length (ow_arcs s) then 1 else 0)) \<and>
     (\<forall>a < length (ow_arcs s). ar_strong (ow_arcs s ! a) = half_refs True a s + half_refs False a s)"

lemma owned_inv_start: "owned_inv n (owned_start n sock)"
proof -
  have "tally whole_streams (map Some xs) = mset xs" for xs
    by (induction xs) (simp_all add: whole_streams_def)
  then show ?thesis by (simp add: owned_inv_def owned_start_def stream_places_def half_refs_def)
qed

lemma half_refs_bound:
  "owned_inv n s \<Longrightarrow> half_refs reads a s \<le> (if a < length (ow_arcs s) then 1 else 0)"
  unfolding owned_inv_def by blast

lemma half_refs_take:
  assumes "half_at n s = Some h"
  shows "half_refs reads a (take_half n s) + refs_of reads a (Some h) = half_refs reads a s"
proof -
  have n: "n < length (ow_halves s)" "ow_halves s ! n = Some h"
    using assms by (auto simp: half_at_def split: if_splits)
  from tally_update [OF n(1), where x = None and f = "refs_of reads a"] n(2)
  show ?thesis by (simp add: half_refs_def take_half_def)
qed

lemma half_refs_cong [simp]:
  "half_refs reads a (s\<lparr>ow_streams := x\<rparr>) = half_refs reads a s"
  "half_refs reads a (s\<lparr>ow_arcs := y\<rparr>) = half_refs reads a s"
  "half_refs reads a (arc_drop b s) = half_refs reads a s"
  by (simp_all add: half_refs_def arc_drop_def Let_def)

lemma arc_streams_update:
  assumes "a < length arcs" "0 < ar_strong (arcs ! a)"
  shows "tally arc_streams (arcs[a := (arcs ! a)\<lparr>ar_strong := k\<rparr>]) + (if 0 < k then {#} else {#ar_stream (arcs ! a)#}) =
    tally arc_streams arcs"
  using tally_update [OF assms(1), where x = "(arcs ! a)\<lparr>ar_strong := k\<rparr>" and f = arc_streams] assms(2)
  by (auto simp: arc_streams_def split: if_splits)

text \<open>The \<open>Arc\<close> of a half that is alive has a reference, and dropping the half drops it.\<close>

lemma live_half_arc:
  assumes inv: "owned_inv n s" and h: "half_at k s = Some h"
  shows "half_arc h < length (ow_arcs s)" "0 < ar_strong (ow_arcs s ! half_arc h)"
proof -
  have r: "0 < half_refs True (half_arc h) s + half_refs False (half_arc h) s"
    using half_refs_take [OF h, of True "half_arc h"] half_refs_take [OF h, of False "half_arc h"]
    by (cases h) simp_all
  show a: "half_arc h < length (ow_arcs s)"
  proof (rule ccontr)
    assume "\<not> half_arc h < length (ow_arcs s)"
    then show False
      using r half_refs_bound [OF inv, of True "half_arc h"] half_refs_bound [OF inv, of False "half_arc h"] by simp
  qed
  then show "0 < ar_strong (ow_arcs s ! half_arc h)" using inv r by (simp add: owned_inv_def)
qed

lemma half_gone_inv:
  assumes inv: "owned_inv n s" and h: "half_at k s = Some h"
  shows "owned_inv n (arc_drop (half_arc h) (take_half k s))"
proof -
  let ?a = "half_arc h" and ?s = "take_half k s"
  note a = live_half_arc [OF inv h]
  have t: "half_refs reads b ?s = half_refs reads b s - refs_of reads b (Some h)"
    "refs_of reads b (Some h) \<le> half_refs reads b s" for reads b
    using half_refs_take [OF h, of reads b] by linarith+
  have o: "refs_of True b (Some h) + refs_of False b (Some h) = (if b = ?a then 1 else 0)" for b
    by (cases h) auto
  have arcs: "ow_arcs ?s = ow_arcs s" "ow_streams ?s = ow_streams s" "ow_dropped ?s = ow_dropped s"
    by (simp_all add: take_half_def)
  have p: "stream_places (arc_drop ?a ?s) = stream_places s"
    using arc_streams_update [OF a, of "ar_strong (ow_arcs s ! ?a) - 1"]
    by (auto simp: stream_places_def arc_drop_def Let_def arcs ac_simps)
  have len: "length (ow_arcs (arc_drop ?a ?s)) = length (ow_arcs s)" by (simp add: arc_drop_def Let_def arcs)
  have "ar_strong (ow_arcs (arc_drop ?a ?s) ! b) = half_refs True b ?s + half_refs False b ?s"
    if b: "b < length (ow_arcs s)" for b
  proof -
    have "ar_strong (ow_arcs s ! b) = half_refs True b s + half_refs False b s" using inv b by (simp add: owned_inv_def)
    then show ?thesis
      using b o [of b] t(1) [of True b] t(1) [of False b] t(2) [of True b] t(2) [of False b]
      by (auto simp: arc_drop_def Let_def arcs nth_list_update split: if_splits)
  qed
  moreover have "half_refs reads b ?s \<le> (if b < length (ow_arcs s) then 1 else 0)" for reads b
  proof -
    have "half_refs reads b s \<le> (if b < length (ow_arcs s) then 1 else 0)" by (rule half_refs_bound [OF inv])
    then show ?thesis using t(1) [of reads b] by simp
  qed
  ultimately show ?thesis using inv p len by (simp add: owned_inv_def)
qed

lemma owned_inv_frame [simp]:
  "owned_inv n (s\<lparr>ow_sockets := x, ow_shutdowns := y\<rparr>) = owned_inv n s"
  by (simp add: owned_inv_def stream_places_def half_refs_def)

lemma half_shutdown_eq:
  "\<exists>r x. half_shutdown so a s = (Ready r, s\<lparr>ow_sockets := x,
     ow_shutdowns := (ow_shutdowns s)(ar_stream (ow_arcs s ! a) := ow_shutdowns s (ar_stream (ow_arcs s ! a)) + 1)\<rparr>)"
  by (auto simp: half_shutdown_def Let_def poll_shutdown_inner_def split: prod.splits sum.splits)

lemma half_drop_eq:
  "\<exists>x y. half_drop so h s = Inr ((arc_drop (half_arc h) s)\<lparr>ow_sockets := x, ow_shutdowns := y\<rparr>)"
proof (cases h)
  case (Read_Half a)
  then show ?thesis
    by (intro exI [where x = "ow_sockets s"] exI [where x = "ow_shutdowns s"]) (simp add: arc_drop_def Let_def)
next
  case (Write_Half a f)
  show ?thesis
  proof (cases f)
    case True
    obtain r x where "half_shutdown so a s = (Ready r, s\<lparr>ow_sockets := x,
     ow_shutdowns := (ow_shutdowns s)(ar_stream (ow_arcs s ! a) := ow_shutdowns s (ar_stream (ow_arcs s ! a)) + 1)\<rparr>)"
      using half_shutdown_eq by blast
    then show ?thesis using Write_Half True
      by (intro exI [where x = x] exI [where x = "(ow_shutdowns s)(ar_stream (ow_arcs s ! a) :=
          ow_shutdowns s (ar_stream (ow_arcs s ! a)) + 1)"]) (simp add: arc_drop_def Let_def)
  next
    case False
    then show ?thesis using Write_Half
      by (intro exI [where x = "ow_sockets s"] exI [where x = "ow_shutdowns s"]) (simp add: arc_drop_def Let_def)
  qed
qed

lemma half_drop_inv:
  assumes "owned_inv n s" "half_at k s = Some h"
  shows "\<exists>s'. half_drop so h (take_half k s) = Inr s' \<and> owned_inv n s'"
proof -
  obtain x y where "half_drop so h (take_half k s) =
      Inr ((arc_drop (half_arc h) (take_half k s))\<lparr>ow_sockets := x, ow_shutdowns := y\<rparr>)"
    using half_drop_eq by blast
  then show ?thesis using half_gone_inv [OF assms] by simp
qed

text \<open>Reuniting two halves of one stream takes it out of its \<open>Arc\<close>.\<close>

lemma reunite_ok:
  assumes inv: "owned_inv n s" and r: "half_at i s = Some (Read_Half a)" and w: "half_at j s = Some (Write_Half a f)"
  shows "reunite so a a (take_half j (take_half i s)) =
      Inr (Some (ar_stream (ow_arcs s ! a)), take_half j (take_half i (s\<lparr>ow_arcs := (ow_arcs s)[a := (ow_arcs s ! a)\<lparr>ar_strong := 0\<rparr>]\<rparr>)))"
    and "owned_inv n ((take_half j (take_half i (s\<lparr>ow_arcs := (ow_arcs s)[a := (ow_arcs s ! a)\<lparr>ar_strong := 0\<rparr>]\<rparr>)))\<lparr>ow_streams := ow_streams s @
      [Some (ar_stream (ow_arcs s ! a))]\<rparr>)"
proof -
  have ij: "i \<noteq> j" using r w by auto
  have w': "half_at j (take_half i s) = Some (Write_Half a f)"
    using w ij by (simp add: half_at_def take_half_def split: if_splits)
  have a: "a < length (ow_arcs s)" using live_half_arc(1) [OF inv r] by simp
  have one: "half_refs reads a s \<le> 1" for reads using half_refs_bound [OF inv, of reads a] a by simp
  have refs: "half_refs reads b (take_half j (take_half i s)) + refs_of reads b (Some (Write_Half a f)) +
      refs_of reads b (Some (Read_Half a)) = half_refs reads b s" for reads b
    using half_refs_take [OF w', of reads b] half_refs_take [OF r, of reads b] by linarith
  have gone: "half_refs reads a (take_half j (take_half i s)) = 0" "half_refs reads a s = 1" for reads
    using refs [of reads a] one [of reads] by (cases reads; simp)+
  have strong: "ar_strong (ow_arcs s ! a) = 2" using inv a gone(2) by (simp add: owned_inv_def)
  show "reunite so a a (take_half j (take_half i s)) =
      Inr (Some (ar_stream (ow_arcs s ! a)), take_half j (take_half i (s\<lparr>ow_arcs := (ow_arcs s)[a := (ow_arcs s ! a)\<lparr>ar_strong := 0\<rparr>]\<rparr>)))"
    using a strong by (simp add: reunite_def forget_def try_unwrap_def arc_drop_def take_half_def Let_def)
  let ?t = "take_half j (take_half i s)"
  let ?s = "(take_half j (take_half i (s\<lparr>ow_arcs := (ow_arcs s)[a := (ow_arcs s ! a)\<lparr>ar_strong := 0\<rparr>]\<rparr>)))\<lparr>ow_streams := ow_streams s @
      [Some (ar_stream (ow_arcs s ! a))]\<rparr>"
  have hr: "half_refs reads b ?s = half_refs reads b ?t" for reads b
    by (simp add: half_refs_def take_half_def)
  have p: "stream_places ?s = stream_places s"
    using arc_streams_update [OF a, of 0] strong
    by (simp add: stream_places_def take_half_def whole_streams_def ac_simps)
  have le: "half_refs reads b ?s \<le> (if b < length (ow_arcs s) then 1 else 0)" for reads b
  proof -
    have "half_refs reads b s \<le> (if b < length (ow_arcs s) then 1 else 0)" by (rule half_refs_bound [OF inv])
    then show ?thesis unfolding hr using refs [of reads b] by linarith
  qed
  have "ar_strong (ow_arcs ?s ! b) = half_refs True b ?s + half_refs False b ?s" if b: "b < length (ow_arcs s)" for b
  proof (cases "b = a")
    case True
    then have "ar_strong (ow_arcs ?s ! b) = 0" using a by (simp add: take_half_def)
    then show ?thesis unfolding True hr gone by simp
  next
    case False
    then have "ar_strong (ow_arcs ?s ! b) = ar_strong (ow_arcs s ! b)" by (simp add: take_half_def)
    then show ?thesis
      unfolding hr using False b inv refs [of True b] refs [of False b] by (simp add: owned_inv_def)
  qed
  then show "owned_inv n ?s" using inv p le by (simp add: owned_inv_def take_half_def)
qed

lemma split_owned_inv:
  assumes inv: "owned_inv n s" and k: "k < length (ow_streams s)" "ow_streams s ! k = Some u"
  shows "owned_inv n (split_owned k u s)"
proof -
  let ?a = "length (ow_arcs s)" and ?s = "split_owned k u s"
  have hr: "half_refs reads b ?s = half_refs reads b s + (if b = ?a then 1 else 0)" for reads b
    by (simp add: half_refs_def split_owned_def Let_def)
  have zero: "half_refs reads ?a s = 0" for reads using half_refs_bound [OF inv, of reads ?a] by simp
  have p: "stream_places ?s = stream_places s"
    using tally_update [OF k(1), where x = None and f = whole_streams] k(2)
    by (simp add: stream_places_def split_owned_def Let_def arc_streams_def whole_streams_def)
  have le: "half_refs reads b ?s \<le> (if b < Suc ?a then 1 else 0)" for reads b
  proof -
    have "half_refs reads b s \<le> (if b < ?a then 1 else 0)" by (rule half_refs_bound [OF inv])
    then show ?thesis using zero [of reads] by (auto simp: hr split: if_splits)
  qed
  have len: "length (ow_arcs ?s) = Suc ?a" by (simp add: split_owned_def Let_def)
  have "ar_strong (ow_arcs ?s ! b) = half_refs True b ?s + half_refs False b ?s" if b: "b < Suc ?a" for b
  proof (cases "b = ?a")
    case True
    then have "ar_strong (ow_arcs ?s ! b) = 2" by (simp add: split_owned_def Let_def)
    then show ?thesis unfolding hr using True zero by simp
  next
    case False
    then have "ar_strong (ow_arcs ?s ! b) = ar_strong (ow_arcs s ! b)"
      using b by (simp add: split_owned_def Let_def nth_append)
    then show ?thesis unfolding hr using False b inv by (simp add: owned_inv_def)
  qed
  then show ?thesis using inv p le len by (simp add: owned_inv_def)
qed

lemma shut_down_inv:
  assumes inv: "owned_inv n s" and h: "half_at k s = Some (Write_Half a f)"
  shows "owned_inv n (snd (half_poll_shutdown so k a f s))"
proof -
  obtain r x where "half_shutdown so a s = (Ready r, s\<lparr>ow_sockets := x,
     ow_shutdowns := (ow_shutdowns s)(ar_stream (ow_arcs s ! a) := ow_shutdowns s (ar_stream (ow_arcs s ! a)) + 1)\<rparr>)"
    using half_shutdown_eq by blast
  moreover have k: "k < length (ow_halves s)" "ow_halves s ! k = Some (Write_Half a f)"
    using h by (auto simp: half_at_def split: if_splits)
  moreover have "tally (refs_of reads b) ((ow_halves s)[k := Some (Write_Half a False)]) = tally (refs_of reads b) (ow_halves s)"
    for reads b
    using tally_update [OF k(1), where x = "Some (Write_Half a False)" and f = "refs_of reads b"] k(2) by simp
  ultimately show ?thesis
    using inv by (simp add: half_poll_shutdown_def owned_inv_def stream_places_def half_refs_def)
qed

lemma drop_stream_inv:
  assumes inv: "owned_inv n s" and k: "k < length (ow_streams s)" "ow_streams s ! k = Some u"
  shows "owned_inv n (s\<lparr>ow_streams := (ow_streams s)[k := None], ow_dropped := ow_dropped s @ [u]\<rparr>)"
proof -
  have "tally whole_streams (ow_streams s) = add_mset u (tally whole_streams ((ow_streams s)[k := None]))"
    using tally_update [OF k(1), where x = None and f = whole_streams] k(2) by (simp add: whole_streams_def)
  then show ?thesis using inv by (simp add: owned_inv_def stream_places_def half_refs_def)
qed

lemma owned_step_inv:
  assumes inv: "owned_inv n s" and r: "owned_step so a s = Some r"
  shows "\<exists>s'. r = Inr s' \<and> owned_inv n s'"
proof (cases a)
  case (Drop_Stream k)
  then show ?thesis using r drop_stream_inv [OF inv] by (auto split: if_splits option.splits)
next
  case (Split k)
  then show ?thesis using r split_owned_inv [OF inv] by (auto split: if_splits option.splits)
next
  case (Drop_Half k)
  then obtain h where "half_at k s = Some h" "r = half_drop so h (take_half k s)"
    using r by (auto split: option.splits)
  then show ?thesis using half_drop_inv [OF inv] by blast
next
  case (Forget k)
  then obtain b f where h: "half_at k s = Some (Write_Half b f)" "r = forget so b (take_half k s)"
    using r by (auto split: option.splits half.splits)
  then show ?thesis using half_gone_inv [OF inv h(1)] by (simp add: forget_def)
next
  case (Reunite i j)
  then obtain b c f where h: "half_at i s = Some (Read_Half b)" "half_at j s = Some (Write_Half c f)"
    using r by (auto split: option.splits half.splits)
  show ?thesis
  proof (cases "b = c")
    case True
    then show ?thesis
      using r Reunite h reunite_ok(1) [OF inv h(1), where j = j and f = f and so = so]
        reunite_ok(2) [OF inv h(1), where j = j and f = f] by (auto simp: take_half_def)
  next
    case False
    then show ?thesis using r Reunite h inv by (auto simp: reunite_def)
  qed
next
  case (Shut_Down k)
  then obtain b f where "half_at k s = Some (Write_Half b f)" "r = Inr (snd (half_poll_shutdown so k b f s))"
    using r by (auto split: option.splits half.splits)
  then show ?thesis using shut_down_inv [OF inv] by blast
qed

interpretation owned: safe_machine "owned_step so" "owned_start n sock" "owned_inv n"
  by unfold_locales (use owned_inv_start owned_step_inv in fastforce)+

subsection \<open>Properties\<close>

text \<open>
  C33: however streams are split and halves dropped, forgotten, shut down and reunited, nothing
  panics, and every stream is in exactly one place: whole, shared by halves, or dropped.
\<close>

theorem streams_are_dropped_once:
  assumes "reach (owned_step so) (owned_start n sock) s"
  shows "owned_step so a s \<noteq> Some (Inl p) \<and> stream_places s = mset [0..<n]"
  using owned.reach_no_panic [OF assms] owned.reach_inv [OF assms] by (simp add: owned_inv_def)

text \<open>
  Reuniting a read and a write half succeeds exactly when they are halves of one stream, and
  gives that stream back without shutting it down or dropping it; halves of different streams
  are given back unchanged.
\<close>

theorem reunite_returns_the_stream:
  assumes "reach (owned_step so) (owned_start n sock) s"
    and "half_at i s = Some (Read_Half a)" "half_at j s = Some (Write_Half b f)"
  shows "\<exists>s'. owned_step so (Reunite i j) s = Some (Inr s') \<and> ow_shutdowns s' = ow_shutdowns s \<and>
    ow_dropped s' = ow_dropped s \<and>
    (if a = b then ow_streams s' = ow_streams s @ [Some (ar_stream (ow_arcs s ! a))] \<and>
       half_at i s' = None \<and> half_at j s' = None
     else s' = s)"
proof (cases "a = b")
  case True
  then show ?thesis
    using reunite_ok(1) [OF owned.reach_inv [OF assms(1)] assms(2), where j = j and f = f and so = so] assms(2,3)
    by (simp add: take_half_def half_at_def nth_list_update split: if_splits)
next
  case False
  then show ?thesis using assms(2,3) by (simp add: reunite_def)
qed

text \<open>A socket without state on which only the shutdown succeeds.\<close>

definition idle_socket :: "unit socket_api" where
  "idle_socket = \<lparr>so_read = (\<lambda>n s. (Inl WouldBlock, s)), so_peek = (\<lambda>n s. (Inl WouldBlock, s)),
     so_read_vectored = (\<lambda>ns s. (Inl WouldBlock, s)), so_write = (\<lambda>xs s. (Inl WouldBlock, s)),
     so_write_vectored = (\<lambda>xss s. (Inl WouldBlock, s)), so_shutdown = (\<lambda>s. (Inr (), s)),
     so_take_error = (\<lambda>s. (Inr None, s))\<rparr>"

theorem streams_are_dropped_once_witness:
  "\<exists>s. run (owned_step idle_socket) (owned_start 2 ()) [Split 0, Drop_Half 0, Forget 1, Drop_Stream 1] = Some (Inr s) \<and>
     ow_dropped s = [0, 1] \<and> stream_places s = mset [0..<2]"
proof -
  obtain s where r: "run (owned_step idle_socket) (owned_start 2 ()) [Split 0, Drop_Half 0, Forget 1, Drop_Stream 1] = Some (Inr s)"
    and d: "ow_dropped s = [0, 1]"
    by (simp add: owned_start_def split_owned_def half_at_def take_half_def arc_drop_def forget_def
        Let_def upt_rec)
  from streams_are_dropped_once [OF run_reach [OF r]] r d show ?thesis by blast
qed

theorem reunite_returns_the_stream_witness:
  "\<exists>s s'. run (owned_step idle_socket) (owned_start 1 ()) [Split 0] = Some (Inr s) \<and>
     owned_step idle_socket (Reunite 0 1) s = Some (Inr s') \<and> ow_streams s' = [None, Some 0] \<and> ow_dropped s' = []"
proof -
  obtain s where r: "run (owned_step idle_socket) (owned_start 1 ()) [Split 0] = Some (Inr s)"
    and s: "half_at 0 s = Some (Read_Half 0)" "half_at 1 s = Some (Write_Half 0 True)"
      "ow_streams s = [None]" "ar_stream (ow_arcs s ! 0) = 0" "ow_dropped s = []"
    by (simp add: owned_start_def split_owned_def half_at_def Let_def)
  from reunite_returns_the_stream [OF run_reach [OF r] s(1,2)] r s(3-) show ?thesis by auto
qed

end
