(* ===== verification/Shared_U64_32.thy ===== *)
theory Shared_U64_32
  imports Shared_U64
begin

text \<open>
  The \<open>SharedU64\<close> of \<open>src/src/time/internal/shared_u64.rs\<close> for 32-bit targets: three \<open>AtomicU32\<close>s
  that one thread writes and any thread reads, as a machine over their single loads and
  stores. (The expressions \<open>((high as u64) << 32) | low\<close> of the source combine a \<open>u64\<close> with a
  \<open>u32\<close>, which does not type-check; \<open>low\<close> is taken to be widened.)
\<close>

subsection \<open>The halves of a word\<close>

definition high_half :: "u64 \<Rightarrow> u32" where "high_half v = ucast (drop_bit 32 v)"
definition low_half :: "u64 \<Rightarrow> u32" where "low_half v = ucast (v AND 0xffffffff)"

definition join_halves :: "u32 \<Rightarrow> u32 \<Rightarrow> u64" where
  "join_halves high low = push_bit 32 (ucast high) OR ucast low"

lemma low_half_eq: "low_half v = ucast (take_bit 32 v)"
proof -
  have "(0xffffffff :: u64) = mask 32" by (simp add: mask_eq_exp_minus_1)
  then show ?thesis by (simp only: low_half_def take_bit_eq_mask)
qed

lemma join_halves_split: "join_halves (high_half v) (low_half v) = v"
proof (rule bit_word_eqI)
  fix n assume "n < LENGTH(64)"
  then show "bit (join_halves (high_half v) (low_half v)) n = bit v n"
    by (cases "n < 32") (auto simp: join_halves_def high_half_def low_half_eq bit_simps not_less)
qed

lemma unat_high_half: "unat (high_half v) = unat v div 2 ^ 32"
proof -
  have v: "unat v < 2 ^ LENGTH(64)" by (rule unsigned_less)
  then have "unat v div 2 ^ 32 < 2 ^ 32" by (simp add: less_mult_imp_div_less)
  moreover have "unat (high_half v) = take_bit 32 (drop_bit 32 (unat v))"
    using v by (simp add: high_half_def unsigned_ucast_eq unsigned_drop_bit_eq take_bit_nat_eq_self)
  ultimately show ?thesis by (simp add: drop_bit_eq_div take_bit_nat_eq_self)
qed

lemma high_half_mono: "v \<le> w \<Longrightarrow> high_half v \<le> high_half w"
  unfolding word_le_nat_alt unat_high_half by (rule div_le_mono)

subsection \<open>The cell\<close>

record cells =
  ce_low :: u32
  ce_high :: u32
  ce_high2 :: u32

definition cells_new :: cells where
  "cells_new = \<lparr>ce_low = 0, ce_high = 0, ce_high2 = 0\<rparr>"

definition cells_get :: "cells \<Rightarrow> u64" where
  "cells_get c = join_halves (ce_high c) (ce_low c)"

text \<open>One round of the loop of \<open>load\<close>, and \<open>store\<close>, without interference.\<close>

definition cells_load :: "cells \<Rightarrow> u64 option" where
  "cells_load c = (if ce_high c = ce_high2 c then Some (join_halves (ce_high c) (ce_low c)) else None)"

definition cells_store :: "u64 \<Rightarrow> cells \<Rightarrow> cells" where
  "cells_store v c = c\<lparr>ce_high2 := high_half v, ce_low := low_half v, ce_high := high_half v\<rparr>"

text \<open>
  Used by one thread at a time, the three-cell register is the \<open>AtomicU64\<close> of the 64-bit
  targets: \<open>get\<close> and the first round of \<open>load\<close> after a \<open>store\<close> give what the atomic gives.
\<close>

theorem three_cells_are_the_atomic:
  "cells_get (cells_store v c) = shared_get (shared_store v s) \<and>
   cells_load (cells_store v c) = Some (shared_load (shared_store v s))"
  by (simp add: cells_get_def cells_load_def cells_store_def join_halves_split)

subsection \<open>The machine\<close>

text \<open>
  \<open>s3_values\<close> are the values of all stores so far, the initial zero first. The writer is idle or
  has written the copy of the high half, or also the low half. The reader's numbers are the
  places in \<open>s3_values\<close> of the values it has read parts of; \<open>s3_results\<close> are the values that loads
  have returned, with the first and the last store they overlap.
\<close>

datatype writer = Writer_Idle | Wrote_High2 | Wrote_Low
datatype reader = Reader_Idle | Read_High nat u32 | Read_Low nat u32 nat u32

record shared32 =
  s3_cells :: cells
  s3_writer :: writer
  s3_reader :: reader
  s3_values :: "u64 list"
  s3_results :: "(nat \<times> nat \<times> u64) list"

definition shared32_start :: shared32 where
  "shared32_start = \<lparr>s3_cells = cells_new, s3_writer = Writer_Idle, s3_reader = Reader_Idle, s3_values = [0],
     s3_results = []\<rparr>"

text \<open>The store that last wrote the high half, and the one that last wrote the low half.\<close>

definition high_store :: "shared32 \<Rightarrow> nat" where
  "high_store s = (if s3_writer s = Writer_Idle then length (s3_values s) - 1 else length (s3_values s) - 2)"

definition low_store :: "shared32 \<Rightarrow> nat" where
  "low_store s = (if s3_writer s = Wrote_High2 then length (s3_values s) - 2 else length (s3_values s) - 1)"

datatype shared32_action = Store u64 | Write_Next | Read_Next

definition shared32_write :: "shared32 \<Rightarrow> shared32 option" where
  "shared32_write s =
     (case s3_writer s of
        Wrote_High2 \<Rightarrow> Some (s\<lparr>s3_cells := (s3_cells s)\<lparr>ce_low := low_half (last (s3_values s))\<rparr>, s3_writer := Wrote_Low\<rparr>)
      | Wrote_Low \<Rightarrow> Some (s\<lparr>s3_cells := (s3_cells s)\<lparr>ce_high := high_half (last (s3_values s))\<rparr>, s3_writer := Writer_Idle\<rparr>)
      | Writer_Idle \<Rightarrow> None)"

definition shared32_read :: "shared32 \<Rightarrow> shared32" where
  "shared32_read s =
     (case s3_reader s of
        Reader_Idle \<Rightarrow> s\<lparr>s3_reader := Read_High (high_store s) (ce_high (s3_cells s))\<rparr>
      | Read_High k high \<Rightarrow> s\<lparr>s3_reader := Read_Low k high (low_store s) (ce_low (s3_cells s))\<rparr>
      | Read_Low k high m low \<Rightarrow>
          if high = ce_high2 (s3_cells s)
          then s\<lparr>s3_reader := Reader_Idle,
                 s3_results := s3_results s @ [(k, length (s3_values s) - 1, join_halves high low)]\<rparr>
          else s\<lparr>s3_reader := Reader_Idle\<rparr>)"

fun shared32_step :: "shared32_action \<Rightarrow> shared32 \<Rightarrow> shared32 res option" where
  "shared32_step (Store v) s =
     (if s3_writer s = Writer_Idle
      then Some (Inr (s\<lparr>s3_cells := (s3_cells s)\<lparr>ce_high2 := high_half v\<rparr>, s3_writer := Wrote_High2,
                        s3_values := s3_values s @ [v]\<rparr>))
      else None)"
| "shared32_step Write_Next s = map_option Inr (shared32_write s)"
| "shared32_step Read_Next s = Some (Inr (shared32_read s))"

subsection \<open>The invariant\<close>

fun reader_ok :: "u64 list \<Rightarrow> nat \<Rightarrow> nat \<Rightarrow> reader \<Rightarrow> bool" where
  "reader_ok vs hs ls Reader_Idle = True"
| "reader_ok vs hs ls (Read_High k high) = (k \<le> hs \<and> high = high_half (vs ! k))"
| "reader_ok vs hs ls (Read_Low k high m low) =
     (k \<le> m \<and> m \<le> ls \<and> high = high_half (vs ! k) \<and> low = low_half (vs ! m))"

definition shared32_inv :: "shared32 \<Rightarrow> bool" where
  "shared32_inv s \<longleftrightarrow>
     s3_values s \<noteq> [] \<and> (s3_writer s \<noteq> Writer_Idle \<longrightarrow> 2 \<le> length (s3_values s)) \<and>
     ce_high2 (s3_cells s) = high_half (last (s3_values s)) \<and>
     ce_high (s3_cells s) = high_half (s3_values s ! high_store s) \<and>
     ce_low (s3_cells s) = low_half (s3_values s ! low_store s) \<and>
     reader_ok (s3_values s) (high_store s) (low_store s) (s3_reader s) \<and>
     (sorted (s3_values s) \<longrightarrow> (\<forall>(k, n, v) \<in> set (s3_results s).
        n < length (s3_values s) \<and> (\<exists>i. k \<le> i \<and> i \<le> n \<and> v = s3_values s ! i)))"

lemma shared32_inv_start: "shared32_inv shared32_start"
  by (simp add: shared32_inv_def shared32_start_def cells_new_def high_store_def low_store_def high_half_def low_half_def)

lemma reader_ok_mono:
  assumes "reader_ok vs hs ls r" "hs \<le> hs'" "ls \<le> ls'"
  shows "reader_ok vs hs' ls' r"
  using assms by (cases r) auto

lemma reader_ok_append:
  assumes "reader_ok vs hs ls r" "hs < length vs" "ls < length vs"
  shows "reader_ok (vs @ [v]) hs ls r"
  using assms by (cases r) (auto simp: nth_append)

lemma results_append:
  assumes "\<forall>(k, n, v) \<in> set rs. n < length vs \<and> (\<exists>i. k \<le> i \<and> i \<le> n \<and> v = vs ! i)"
  shows "\<forall>(k, n, v) \<in> set rs. n < length (vs @ [x]) \<and> (\<exists>i. k \<le> i \<and> i \<le> n \<and> v = (vs @ [x]) ! i)"
proof clarify
  fix k n v assume "(k, n, v) \<in> set rs"
  then obtain i where "n < length vs" "k \<le> i" "i \<le> n" "v = vs ! i" using assms by blast
  then show "n < length (vs @ [x]) \<and> (\<exists>i. k \<le> i \<and> i \<le> n \<and> v = (vs @ [x]) ! i)"
    by (intro conjI exI [where x = i]) (simp_all add: nth_append)
qed

lemma store_inv:
  assumes inv: "shared32_inv s" and idle: "s3_writer s = Writer_Idle"
  shows "shared32_inv (s\<lparr>s3_cells := (s3_cells s)\<lparr>ce_high2 := high_half v\<rparr>, s3_writer := Wrote_High2,
     s3_values := s3_values s @ [v]\<rparr>)"
proof -
  let ?vs = "s3_values s"
  let ?s = "s\<lparr>s3_cells := (s3_cells s)\<lparr>ce_high2 := high_half v\<rparr>, s3_writer := Wrote_High2, s3_values := ?vs @ [v]\<rparr>"
  have ne: "?vs \<noteq> []" using inv by (simp add: shared32_inv_def)
  have h: "high_store s = length ?vs - 1" "low_store s = length ?vs - 1" using idle by (simp_all add: high_store_def low_store_def)
  have "reader_ok (?vs @ [v]) (length ?vs - 1) (length ?vs - 1) (s3_reader s)"
    using inv ne by (intro reader_ok_append) (simp_all add: shared32_inv_def h)
  moreover have "\<forall>(k, n, w) \<in> set (s3_results s). n < length (?vs @ [v]) \<and> (\<exists>i. k \<le> i \<and> i \<le> n \<and> w = (?vs @ [v]) ! i)"
    if "sorted (?vs @ [v])"
    by (rule results_append) (use inv that in \<open>simp add: shared32_inv_def sorted_append\<close>)
  moreover have "(?vs @ [v]) ! (length ?vs - 1) = ?vs ! (length ?vs - 1)" using ne by (simp add: nth_append)
  moreover have "high_store ?s = length ?vs - 1" "low_store ?s = length ?vs - 1"
    by (simp_all add: high_store_def low_store_def)
  moreover have "ce_high (s3_cells s) = high_half (?vs ! (length ?vs - 1))"
    "ce_low (s3_cells s) = low_half (?vs ! (length ?vs - 1))"
    using inv by (simp_all add: shared32_inv_def h)
  moreover have "2 \<le> length (?vs @ [v])" using ne by (cases ?vs) simp_all
  ultimately show ?thesis unfolding shared32_inv_def by simp
qed

lemma write_inv:
  assumes inv: "shared32_inv s" and w: "shared32_write s = Some s'"
  shows "shared32_inv s'"
proof (cases "s3_writer s")
  case Writer_Idle
  then show ?thesis using w by (simp add: shared32_write_def)
next
  case Wrote_High2
  have "reader_ok (s3_values s) (length (s3_values s) - 2) (length (s3_values s) - 1) (s3_reader s)"
    by (rule reader_ok_mono [where hs = "high_store s" and ls = "low_store s"])
      (use inv Wrote_High2 in \<open>simp_all add: shared32_inv_def high_store_def low_store_def\<close>)
  then show ?thesis
    using inv w Wrote_High2 by (auto simp: shared32_write_def shared32_inv_def high_store_def low_store_def last_conv_nth)
next
  case Wrote_Low
  have "reader_ok (s3_values s) (length (s3_values s) - 1) (length (s3_values s) - 1) (s3_reader s)"
    by (rule reader_ok_mono [where hs = "high_store s" and ls = "low_store s"])
      (use inv Wrote_Low in \<open>simp_all add: shared32_inv_def high_store_def low_store_def\<close>)
  then show ?thesis
    using inv w Wrote_Low by (auto simp: shared32_write_def shared32_inv_def high_store_def low_store_def last_conv_nth)
qed

text \<open>
  With values that never decrease, a high half read before and found again after a low half
  belongs to the store of that low half.
\<close>

lemma high_between:
  assumes "sorted vs" "k \<le> m" "m \<le> n" "n < length vs" "high_half (vs ! k) = high_half (vs ! n)"
  shows "high_half (vs ! m) = high_half (vs ! k)"
proof (rule order.antisym)
  have "vs ! k \<le> vs ! m" "vs ! m \<le> vs ! n" using assms by (simp_all add: sorted_nth_mono)
  then show "high_half (vs ! m) \<le> high_half (vs ! k)" "high_half (vs ! k) \<le> high_half (vs ! m)"
    using high_half_mono assms(5) by metis+
qed

lemma read_inv:
  assumes inv: "shared32_inv s"
  shows "shared32_inv (shared32_read s)"
proof (cases "s3_reader s")
  case Reader_Idle
  then show ?thesis
    using inv by (simp add: shared32_read_def shared32_inv_def high_store_def low_store_def)
next
  case (Read_High k high)
  have "high_store s \<le> low_store s" by (simp add: high_store_def low_store_def diff_le_mono2)
  then show ?thesis
    using inv Read_High by (auto simp: shared32_read_def shared32_inv_def high_store_def low_store_def)
next
  case (Read_Low k high m low)
  let ?vs = "s3_values s" and ?n = "length (s3_values s) - 1"
  have ne: "?vs \<noteq> []" using inv by (simp add: shared32_inv_def)
  have ok: "k \<le> m" "m \<le> ?n" "high = high_half (?vs ! k)" "low = low_half (?vs ! m)"
    using inv Read_Low by (auto simp: shared32_inv_def low_store_def split: if_splits)
  have last: "ce_high2 (s3_cells s) = high_half (?vs ! ?n)" using inv ne by (simp add: shared32_inv_def last_conv_nth)
  have new: "\<exists>i. k \<le> i \<and> i \<le> ?n \<and> join_halves high low = ?vs ! i" if "sorted ?vs" "high = ce_high2 (s3_cells s)"
  proof -
    have "high_half (?vs ! m) = high_half (?vs ! k)"
      by (rule high_between [OF that(1) ok(1,2)]) (use ne ok last that(2) in simp_all)
    then show ?thesis using ok join_halves_split [of "?vs ! m"] by metis
  qed
  show ?thesis
    using inv Read_Low ne new by (auto simp: shared32_read_def shared32_inv_def high_store_def low_store_def)
qed

interpretation shared32: safe_machine shared32_step shared32_start shared32_inv
proof unfold_locales
  show "shared32_inv shared32_start" by (rule shared32_inv_start)
  show "shared32_inv s'" if "shared32_inv s" "shared32_step a s = Some (Inr s')" for s a s'
    using that store_inv write_inv read_inv by (cases a) (auto split: if_splits)
  show "shared32_step a s \<noteq> Some (Inl p)" if "shared32_inv s" for s a p
    by (cases a) auto
qed

subsection \<open>Properties\<close>

text \<open>
  C39: while the stored values never decrease, a \<open>load\<close> that runs concurrently with the writer
  returns a value that was stored: the one of a store that was not yet replaced when the load
  began and that had begun when it ended.
\<close>

theorem monotone_loads_are_not_torn:
  assumes "reach shared32_step shared32_start s" "sorted (s3_values s)" "(k, n, v) \<in> set (s3_results s)"
  shows "\<exists>i. k \<le> i \<and> i \<le> n \<and> n < length (s3_values s) \<and> v = s3_values s ! i"
  using shared32.reach_inv [OF assms(1)] assms(2,3) unfolding shared32_inv_def by fast

lemmas shared32_eval = shared32_start_def cells_new_def shared32_read_def shared32_write_def high_store_def low_store_def
  join_halves_def high_half_def low_half_def

theorem monotone_loads_are_not_torn_witness:
  "\<exists>s i. run shared32_step shared32_start [Store 5, Read_Next, Write_Next, Read_Next, Write_Next, Read_Next] = Some (Inr s) \<and>
     s3_results s = [(0, 1, 5)] \<and> i \<le> 1 \<and> 5 = s3_values s ! i"
proof -
  obtain s where r: "run shared32_step shared32_start [Store 5, Read_Next, Write_Next, Read_Next, Write_Next, Read_Next] =
      Some (Inr s)" and s: "s3_values s = [0, 5]" "s3_results s = [(0, 1, 5)]"
    by (simp add: shared32_eval)
  from monotone_loads_are_not_torn [OF run_reach [OF r], of 0 1 5] r s show ?thesis by auto
qed

text \<open>
  When a smaller value follows a larger one, as happens with timer deadlines, a load can
  return a value that was never stored: here 5 after the stores of \<open>2 ^ 32 + 5\<close> and of 7, although
  the copy of the high half matched.
\<close>

theorem decreasing_stores_tear_a_load:
  "\<exists>s. run shared32_step shared32_start
      [Read_Next, Store (2 ^ 32 + 5), Write_Next, Read_Next, Write_Next, Store 7, Read_Next] = Some (Inr s) \<and>
    s3_results s = [(0, 2, 5)] \<and> 5 \<notin> set (s3_values s)"
  by (simp add: shared32_eval)

end
