(* ===== verification/Join_Handle.thy ===== *)
theory Join_Handle
  imports Task Dispatch
begin

text \<open>
  \<open>src/src/task.rs\<close>: the join handle of a task and \<open>yield_now\<close>, with \<open>poll_join\<close> of
  \<open>src/src/runtime/internal/task.rs\<close> as one call.
\<close>

subsection \<open>Join handles\<close>

text \<open>
  \<open>poll_join\<close> when nothing interferes with it. A result \<open>Inl e\<close> is the panic of the future, which
  \<open>resume_unwind\<close> goes on with in the caller.
\<close>

definition poll_join :: "'w \<Rightarrow> ('f, 'o, 'e, 'w) task_sys \<Rightarrow>
    (('e + 'o) poll \<times> ('f, 'o, 'e, 'w) task_sys) res" where
  "poll_join c t =
     rbind (aw_poll (Some c) (tk_waker t)) (\<lambda>(r, w).
       if \<not> is_ready r then Inr (Pending, t\<lparr>tk_waker := w\<rparr>)
       else if tk_lock t \<noteq> Unlocked then Inl Unwrap_None
       else case tk_data t of
              TD_Ready result \<Rightarrow> Inr (Ready result, t\<lparr>tk_waker := w, tk_data := TD_Joined\<rparr>)
            | _ \<Rightarrow> Inl Unreachable)"

text \<open>The reference to the task, which the handle drops with the result.\<close>

record join_handle =
  jh_joinable :: bool

definition join_handle_new :: join_handle where "join_handle_new = \<lparr>jh_joinable = True\<rparr>"

definition join_handle_poll :: "'w \<Rightarrow> join_handle \<Rightarrow> ('f, 'o, 'e, 'w) task_sys \<Rightarrow>
    (('e + 'o) poll \<times> join_handle \<times> ('f, 'o, 'e, 'w) task_sys) res" where
  "join_handle_poll c h t =
     (if \<not> jh_joinable h then Inl Expect_Failed
      else rbind (poll_join c t) (\<lambda>(r, t').
        Inr (case r of
               Ready (Inr v) \<Rightarrow> (Ready (Inr v), h\<lparr>jh_joinable := False\<rparr>, t')
             | Ready (Inl e) \<Rightarrow> (Ready (Inl e), h, t')
             | Pending \<Rightarrow> (Pending, h, t'))))"

subsection \<open>\<open>yield_now\<close>\<close>

record yield_future =
  yf_yielded :: bool

definition yield_new :: yield_future where "yield_new = \<lparr>yf_yielded = False\<rparr>"

text \<open>The list holds the wakers called.\<close>

definition yield_poll :: "'w \<Rightarrow> yield_future \<Rightarrow> unit poll \<times> 'w list \<times> yield_future" where
  "yield_poll c y = (if yf_yielded y then (Ready (), [], y) else (Pending, [c], y\<lparr>yf_yielded := True\<rparr>))"

text \<open>What worker \<open>i\<close> does in the poll of a task whose future is \<open>yield_now\<close>.\<close>

definition yield_actions :: "nat \<Rightarrow> 'w \<Rightarrow> yield_future \<Rightarrow> (yield_future, unit, 'e, 'w) task_action list" where
  "yield_actions i c y =
     (let (r, ws, y') = yield_poll c y
      in map (\<lambda>w. T_Wake) ws @
         [T_Run i (case r of Pending \<Rightarrow> Future_Pending y' | Ready u \<Rightarrow> Future_Ready u)])"

subsection \<open>Properties\<close>

lemma aw_poll_pending:
  assumes "aw_ok w" "\<not> (aw_notified w \<or> aw_state w = NOTIFIED)"
  shows "\<exists>w'. aw_poll (Some c) w = Inr (Pending, w') \<and> aw_state w' = WAITING \<and> aw_waker w' = Some c"
proof -
  have "\<not> aw_notified w" "aw_state w = EMPTY \<or> aw_state w = WAITING"
    using assms by (auto simp: aw_ok_def)
  then show ?thesis
    using aw_poll_idle [of w "Some c"] by (auto simp: aw_register_def split: option.splits)
qed

lemma aw_poll_ready:
  assumes "aw_ok w" "aw_notified w \<or> aw_state w = NOTIFIED"
  shows "\<exists>w'. aw_poll ctx w = Inr (Ready (), w') \<and> aw_ok w' \<and> aw_notified w'"
proof -
  obtain r w' where "aw_poll ctx w = Inr (r, w')" "aw_ok w'" "is_ready r" "aw_notified w'"
    using aw_poll_ok [OF assms(1)] assms(2) by metis
  then show ?thesis by (cases r) (simp_all add: is_ready_iff)
qed

lemma poll_join_woken:
  assumes "task_inv t" "tk_joiner t = J_Idle" "woken t"
  shows "\<exists>result t'. tk_output t = Some result \<and> poll_join c t = Inr (Ready result, t') \<and>
     tk_data t' = TD_Joined \<and> poll_join c' t' = Inl Unreachable"
proof -
  have w: "aw_ok (tk_waker t)" and "join_ok t" using assms(1) by (simp_all add: task_inv_def)
  then obtain result where d: "tk_data t = TD_Ready result" "tk_output t = Some result" "tk_lock t = Unlocked"
    using assms(2,3) by (auto simp: join_ok_def)
  obtain w1 where w1: "aw_poll (Some c) (tk_waker t) = Inr (Ready (), w1)" "aw_ok w1" "aw_notified w1"
    using aw_poll_ready [OF w] assms(3) unfolding woken_def by blast
  have "aw_poll (Some c') w1 = Inr (Ready (), w1)" using w1(3) by (rule aw_poll_notified)
  then show ?thesis using d w1(1) by (simp add: poll_join_def)
qed

lemma poll_join_not_woken:
  assumes "task_inv t" "\<not> woken t"
  shows "\<exists>t'. poll_join c t = Inr (Pending, t') \<and> aw_state (tk_waker t') = WAITING \<and>
     aw_waker (tk_waker t') = Some c \<and> tk_data t' = tk_data t"
proof -
  obtain w where "aw_poll (Some c) (tk_waker t) = Inr (Pending, w)" "aw_state w = WAITING" "aw_waker w = Some c"
    using aw_poll_pending [of "tk_waker t" c] assms by (auto simp: task_inv_def woken_def)
  then show ?thesis by (simp add: poll_join_def)
qed

text \<open>
  C19: a join handle, polled in any reachable state of its task. Before the task has called its
  waker the poll is pending and leaves the caller's waker in the cell; afterwards it gives exactly
  the result the task stored. A second poll after that panics: in \<open>expect\<close> after a value, and
  in \<open>unreachable!\<close> after the panic of the future was passed on, which leaves the handle joinable.
\<close>

theorem join_handle_gives_the_result_once:
  assumes "reach task_step (task_spawned f) t" "tk_joiner t = J_Idle"
  shows "\<exists>r h t'. join_handle_poll c join_handle_new t = Inr (r, h, t') \<and>
    (if woken t
     then (\<exists>result. tk_output t = Some result \<and> r = Ready result \<and>
        join_handle_poll c' h t' =
          Inl (case result of Inr v \<Rightarrow> Expect_Failed | Inl e \<Rightarrow> Unreachable))
     else r = Pending \<and> h = join_handle_new \<and> aw_state (tk_waker t') = WAITING \<and>
        aw_waker (tk_waker t') = Some c)"
proof (cases "woken t")
  case True
  obtain result t' where "tk_output t = Some result" "poll_join c t = Inr (Ready result, t')"
    "poll_join c' t' = Inl Unreachable"
    using poll_join_woken [OF reach_task_inv [OF assms(1)] assms(2) True] by metis
  then show ?thesis
    using True by (cases result) (simp_all add: join_handle_poll_def join_handle_new_def)
next
  case False
  obtain t' where "poll_join c t = Inr (Pending, t')" "aw_state (tk_waker t') = WAITING"
    "aw_waker (tk_waker t') = Some c"
    using poll_join_not_woken [OF reach_task_inv [OF assms(1)] False] by metis
  then show ?thesis
    using False by (simp add: join_handle_poll_def join_handle_new_def)
qed

theorem join_handle_gives_the_result_once_witness:
  "(\<exists>r h t'. join_handle_poll 2 join_handle_new completed_task = Inr (r, h, t') \<and> r = Ready (Inr 5) \<and>
      join_handle_poll 3 h t' = Inl Expect_Failed) \<and>
   (\<exists>h t'. join_handle_poll 2 join_handle_new fresh_task = Inr (Pending, h, t') \<and>
      aw_waker (tk_waker t') = Some 2)"
proof
  have "woken completed_task" "tk_joiner completed_task = J_Idle" "tk_output completed_task = Some (Inr 5)"
    by (simp_all add: woken_def completed_task_def task_spawned_def task_new_def)
  with join_handle_gives_the_result_once [OF completed_reach, of 2 3]
  show "\<exists>r h t'. join_handle_poll 2 join_handle_new completed_task = Inr (r, h, t') \<and> r = Ready (Inr 5) \<and>
      join_handle_poll 3 h t' = Inl Expect_Failed" by auto
  have "\<not> woken fresh_task" "tk_joiner fresh_task = J_Idle" "reach task_step (task_spawned ()) fresh_task"
    by (simp_all add: woken_def fresh_task_def task_spawned_def task_new_def aw_new_def reach_start
        del: reach.simps)
  with join_handle_gives_the_result_once [of "()" fresh_task 2 3]
  show "\<exists>h t'. join_handle_poll 2 join_handle_new fresh_task = Inr (Pending, h, t') \<and>
      aw_waker (tk_waker t') = Some 2" by auto
qed

text \<open>
  Yielding. A task that awaits \<open>yield_now\<close>, in any reachable state in which a worker is about
  to poll it for the first time, wakes itself during the poll, is suspended and is put into a
  run queue exactly once; at its next poll it is done.
\<close>

theorem yielding_task_is_requeued:
  assumes "reach task_step (task_spawned yield_new) t"
    and "i < length (tk_runners t)" and "tk_runners t ! i = R_Poll yield_new"
  shows "\<exists>t'. run task_step t (yield_actions i c yield_new @ replicate 5 (T_Run i out)) = Some (Inr t') \<and>
     tk_state t' = TASK_SCHEDULED \<and> tk_pushing t' = 0 \<and> tk_queued t' = 1 \<and> tk_runners t' ! i = R_Done \<and>
     (\<exists>y. tk_data t' = TD_Pending y \<and> yield_poll c' y = (Ready (), [], y))"
proof -
  have inv: "task_inv t" by (rule reach_task_inv [OF assms(1)])
  have "runner_ok (R_Poll yield_new) t" and q: "tk_queued t = 0" "tk_pushing t = 0"
    using inv token_of_runner [OF inv assms(2,3)] by (simp_all add: task_inv_def)
  then have "tk_state t = TASK_RUNNING \<or> tk_state t = TASK_NOTIFIED" by (simp add: live_state_def)
  then have "task_wake t = t\<lparr>tk_state := TASK_NOTIFIED\<rparr>"
    using q by (auto simp: task_wake_def)
  with assms(2,3) q show ?thesis
    by (simp add: yield_actions_def yield_poll_def yield_new_def numeral_eq_Suc task_run_def)
qed

definition yielding_task :: "(yield_future, unit, unit, nat) task_sys" where
  "yielding_task = (task_spawned yield_new)\<lparr>tk_state := TASK_RUNNING, tk_data := TD_Polling,
     tk_lock := By_Runner, tk_queued := 0, tk_runners := [R_Poll yield_new]\<rparr>"

lemma yielding_reach: "reach task_step (task_spawned yield_new) yielding_task"
  by (rule run_reach [of _ _ "T_Pop # replicate 4 (T_Run 0 (Future_Ready ()))"])
     (simp add: yielding_task_def task_spawned_def task_new_def task_pop_def task_run_def numeral_eq_Suc)

theorem yielding_task_is_requeued_witness:
  "\<exists>t'. run task_step yielding_task (yield_actions 0 7 yield_new @ replicate 5 (T_Run 0 (Future_Ready ()))) =
       Some (Inr t') \<and> tk_queued t' = 1 \<and> tk_data t' = TD_Pending \<lparr>yf_yielded = True\<rparr>"
proof -
  have "0 < length (tk_runners yielding_task)" "tk_runners yielding_task ! 0 = R_Poll yield_new"
    by (simp_all add: yielding_task_def)
  from yielding_task_is_requeued [OF yielding_reach this, of 7 "Future_Ready ()" 8]
  obtain t' y where "run task_step yielding_task (yield_actions 0 7 yield_new @ replicate 5 (T_Run 0 (Future_Ready ()))) =
      Some (Inr t')" "tk_queued t' = 1" "tk_data t' = TD_Pending y" "yield_poll 8 y = (Ready (), [], y)"
    by blast
  moreover from this(4) have "y = \<lparr>yf_yielded = True\<rparr>"
    by (cases y) (simp add: yield_poll_def split: if_splits)
  ultimately show ?thesis by auto
qed

text \<open>
  Fairness. A task that was woken while it ran is scheduled with \<open>be_fair\<close>: the next task that
  its worker takes from the run queue is the oldest one, and the task itself is behind all others.
\<close>

theorem yielded_task_goes_last:
  assumes "deque_laws api contents injected" "cx_executor ctx = ex" "cx_intercept ctx = None"
    and "cx_producer ctx = Some p" "contents (pr_deque p) = q # qs"
    and "executor_schedule api ex r (Some ctx) True xs = Inr (Some ctx', xs')"
    and "\<And>d. \<exists>n. steals_settle api d n"
  shows "\<exists>p' p''. cx_producer ctx' = Some p' \<and> producer_pop api be_fair p' = Some (Some q, p'') \<and>
    contents (pr_deque p'') = qs @ [r]"
proof -
  have p': "cx_producer ctx' = Some (producer_push api r True p)"
    using assms(2-4,6) by (auto simp: executor_schedule_def)
  obtain n where "steals_settle api (pr_deque (producer_push api r True p)) n"
    using assms(7) by blast
  from producer_pop_eq [OF assms(1) this, of be_fair] show ?thesis
    using p' assms(5) producer_push_contents [OF assms(1), where r = r and be_fair = True and p = p]
    by (auto simp: producer_push_def Let_def)
qed

theorem yielded_task_goes_last_witness:
  "\<exists>ctx' xs' p' p''. executor_schedule list_deques 0 (9 :: nat)
       (Some \<lparr>cx_executor = 0, cx_worker = Some 0, cx_producer = Some \<lparr>pr_be_fair = False, pr_deque = [1, 2]\<rparr>,
          cx_intercept = None\<rparr>) True (\<lambda>e. \<lparr>dx_injector = [], dx_notifies = 0, dx_begun = 0\<rparr>) = Inr (Some ctx', xs') \<and>
     cx_producer ctx' = Some p' \<and> producer_pop list_deques False p' = Some (Some 1, p'') \<and>
     pr_deque p'' = [2, 9]"
proof -
  let ?ctx = "\<lparr>cx_executor = 0, cx_worker = Some (0 :: nat),
    cx_producer = Some \<lparr>pr_be_fair = False, pr_deque = [1, 2 :: nat]\<rparr>, cx_intercept = None\<rparr>"
  let ?xs = "\<lambda>e :: nat. \<lparr>dx_injector = [] :: nat list, dx_notifies = 0, dx_begun = 0\<rparr>"
  obtain ctx' xs' where s: "executor_schedule list_deques 0 9 (Some ?ctx) True ?xs = Inr (Some ctx', xs')"
    by (simp add: executor_schedule_def)
  have "steals_settle list_deques d 0" for d :: "nat list"
    by (simp add: steals_settle_def list_deques_def list_steal_def split: list.split)
  then have "\<exists>n. steals_settle list_deques d n" for d :: "nat list" by blast
  from yielded_task_goes_last [OF list_deques_laws _ _ _ _ s this, of _ 1 "[2]" False]
  show ?thesis using s by auto
qed

end
