(* ===== verification/Tcp_Listener.thy ===== *)
theory Tcp_Listener
  imports Net_Properties
begin

text \<open>
  \<open>src/src/net/tcp/listener.rs\<close>: a listener accepts connections through its pollable, and the
  closure it hands to \<open>poll_io\<close> registers each of them with the net poller, so that registrations
  happen in the middle of a call of \<open>poll_io\<close>. The listening socket of \<open>mio\<close> is a parameter.
\<close>

subsection \<open>The listening socket\<close>

text \<open>
  \<open>ls_accept\<close> gives the next connection, and \<open>ls_register\<close> is the result of registering it with
  the selector.
\<close>

record ('l, 'c) listener_api =
  ls_accept :: "'l \<Rightarrow> 'c io_result \<times> 'l"
  ls_register :: "'c \<Rightarrow> 'l \<Rightarrow> unit io_result \<times> 'l"

text \<open>
  Connections are accepted in the order of the backlog, and only by \<open>accept\<close>; \<open>patience\<close> bounds how
  often in a row the calls are interrupted.
\<close>

definition listener_laws :: "('l, 'c) listener_api \<Rightarrow> ('l \<Rightarrow> 'c list) \<Rightarrow> ('l \<Rightarrow> nat) \<Rightarrow> bool" where
  "listener_laws ls backlog patience \<longleftrightarrow>
     (\<forall>l. case ls_accept ls l of
        (Inl e, l') \<Rightarrow> backlog l' = backlog l \<and> (e = Interrupted \<longrightarrow> patience l' < patience l)
      | (Inr c, l') \<Rightarrow> backlog l = c # backlog l' \<and> patience l' \<le> patience l) \<and>
     (\<forall>c l. case ls_register ls c l of
        (r, l') \<Rightarrow> backlog l' = backlog l \<and> (r = Inl Interrupted \<longrightarrow> patience l' < patience l))"

subsection \<open>I/O that uses the net poller\<close>

text \<open>
  \<open>poll_io\<close> with a closure that may use the net poller as well: the loops of \<open>Pollable\<close>, with the
  poller handed on. \<open>None\<close> is a call that never returns.
\<close>

partial_function (option) do_poller_io :: "('x \<Rightarrow> ('a io_result \<times> 'x) res) \<Rightarrow> 'x \<Rightarrow>
    ('a io_result \<times> 'x) res option" where
  "do_poller_io io st =
     (case io st of
        Inl e \<Rightarrow> Some (Inl e)
      | Inr (r, st') \<Rightarrow> if r = Inl Interrupted then do_poller_io io st' else Some (Inr (r, st')))"

partial_function (option) poll_poller_io :: "waker_kind \<Rightarrow> 'w option \<Rightarrow>
    ('w net_poller \<times> 's \<Rightarrow> ('a io_result \<times> 'w net_poller \<times> 's) res) \<Rightarrow>
    pollable \<Rightarrow> 'w net_poller \<Rightarrow> 's \<Rightarrow>
    ('a io_result poll \<times> 'w list \<times> pollable \<times> 'w net_poller \<times> 's) res option" where
  "poll_poller_io kind ctx io pl p s =
     (case poll_io_enter kind ctx pl p of
        Inl e \<Rightarrow> Some (Inl e)
      | Inr (r, ws, pl1, p1) \<Rightarrow>
          if r = Pending then Some (Inr (Pending, ws, pl1, p1, s))
          else Option.bind (do_poller_io io (p1, s)) (\<lambda>result.
            case result of
              Inl e \<Rightarrow> Some (Inl e)
            | Inr (out, p2, s2) \<Rightarrow>
                (case poll_io_outcome kind out pl1 p2 of
                   Inl e \<Rightarrow> Some (Inl e)
                 | Inr (Done v, p3) \<Rightarrow> Some (Inr (Ready v, ws, pl1, p3, s2))
                 | Inr (_, p3) \<Rightarrow> poll_poller_io kind ctx io pl1 p3 s2)))"

subsection \<open>The listener\<close>

text \<open>\<open>bound\<close> is the result of binding the socket, \<open>registered\<close> that of its registration.\<close>

definition listener_bind :: "nat \<Rightarrow> nat \<Rightarrow> unit io_result \<Rightarrow> unit io_result \<Rightarrow> 'w net_poller \<Rightarrow>
    (pollable io_result \<times> 'w net_poller) res" where
  "listener_bind nb ne bound registered p =
     (case bound of Inl e \<Rightarrow> Inr (Inl e, p) | Inr u \<Rightarrow> pollable_new nb ne registered p)"

definition try_accept_inner :: "nat \<Rightarrow> nat \<Rightarrow> ('l, 'c) listener_api \<Rightarrow> 'w net_poller \<times> 'l \<Rightarrow>
    (('c \<times> pollable) io_result \<times> 'w net_poller \<times> 'l) res" where
  "try_accept_inner nb ne ls x =
     (let (p, l) = x
      in case ls_accept ls l of
           (Inl e, l1) \<Rightarrow> Inr (Inl e, p, l1)
         | (Inr c, l1) \<Rightarrow>
             let (registered, l2) = ls_register ls c l1
             in rbind (pollable_new nb ne registered p) (\<lambda>(r, p1).
                  Inr (case r of Inl e \<Rightarrow> Inl e | Inr pl \<Rightarrow> Inr (c, pl), p1, l2)))"

definition poll_accept :: "nat \<Rightarrow> nat \<Rightarrow> ('l, 'c) listener_api \<Rightarrow> 'w \<Rightarrow> pollable \<Rightarrow> 'w net_poller \<Rightarrow> 'l \<Rightarrow>
    (('c \<times> pollable) io_result poll \<times> 'w list \<times> pollable \<times> 'w net_poller \<times> 'l) res option" where
  "poll_accept nb ne ls ctx pl p l = poll_poller_io Read (Some ctx) (try_accept_inner nb ne ls) pl p l"

definition try_accept :: "nat \<Rightarrow> nat \<Rightarrow> ('l, 'c) listener_api \<Rightarrow> pollable \<Rightarrow> 'w net_poller \<Rightarrow> 'l \<Rightarrow>
    (('c \<times> pollable) io_result \<times> 'w list \<times> pollable \<times> 'w net_poller \<times> 'l) res option" where
  "try_accept nb ne ls pl p l =
     map_option (\<lambda>result. rbind result (\<lambda>(r, rest).
         Inr (case r of Ready v \<Rightarrow> v | Pending \<Rightarrow> Inl WouldBlock, rest)))
       (poll_poller_io Read None (try_accept_inner nb ne ls) pl p l)"

text \<open>The future of \<open>accept\<close>; \<open>completed\<close> tells that it gave its result.\<close>

definition accept_poll :: "nat \<Rightarrow> nat \<Rightarrow> ('l, 'c) listener_api \<Rightarrow> 'w \<Rightarrow> bool \<Rightarrow> pollable \<Rightarrow> 'w net_poller \<Rightarrow> 'l \<Rightarrow>
    (('c \<times> pollable) io_result poll \<times> bool \<times> 'w list \<times> pollable \<times> 'w net_poller \<times> 'l) res option" where
  "accept_poll nb ne ls ctx completed pl p l =
     (if completed then Some (Inl Expect_Failed)
      else map_option (\<lambda>result. rbind result (\<lambda>(r, rest). Inr (r, is_ready r, rest)))
             (poll_accept nb ne ls ctx pl p l))"

subsection \<open>Accepting is a run of the net machine\<close>

text \<open>
  What a piece of a call does to the machine: it goes from \<open>s\<close> to \<open>s'\<close> by steps of the machine, touches
  no other call and appends the pollable of the accepted connection.
\<close>

definition accepted :: "('c \<times> pollable) io_result \<Rightarrow> pollable option list" where
  "accepted r = (case r of Inl e \<Rightarrow> [] | Inr (c, pl) \<Rightarrow> [Some pl])"

definition net_goes :: "nat \<Rightarrow> nat \<Rightarrow> 'w net \<Rightarrow> 'w net \<Rightarrow> bool" where
  "net_goes nb ne s s' \<longleftrightarrow> (\<exists>steps. run (net_step nb ne) s steps = Some (Inr s'))"

lemma net_goes_refl [intro]: "net_goes nb ne s s"
  unfolding net_goes_def by (rule exI [where x = "[]"]) simp

lemma net_goes_trans: "net_goes nb ne s s1 \<Longrightarrow> net_goes nb ne s1 s2 \<Longrightarrow> net_goes nb ne s s2"
proof -
  assume "net_goes nb ne s s1" "net_goes nb ne s1 s2"
  then obtain as bs where "run (net_step nb ne) s as = Some (Inr s1)" "run (net_step nb ne) s1 bs = Some (Inr s2)"
    by (auto simp: net_goes_def)
  then show ?thesis
    unfolding net_goes_def by (intro exI [where x = "as @ bs"]) (simp add: run_append)
qed

lemma net_goes_step: "net_step nb ne a s = Some (Inr s') \<Longrightarrow> net_goes nb ne s s'"
  unfolding net_goes_def by (rule exI [where x = "[a]"]) simp

lemma net_goes_inv:
  "sizes_ok nb ne \<Longrightarrow> net_inv nb ne s \<Longrightarrow> net_goes nb ne s s' \<Longrightarrow> net_inv nb ne s'"
proof -
  assume sz: "sizes_ok nb ne" and inv: "net_inv nb ne s" and "net_goes nb ne s s'"
  then obtain as where "run (net_step nb ne) s as = Some (Inr s')" by (auto simp: net_goes_def)
  then show ?thesis
    using inv
  proof (induction as arbitrary: s)
    case (Cons a as)
    then obtain s1 where "net_step nb ne a s = Some (Inr s1)" "run (net_step nb ne) s1 as = Some (Inr s')"
      by (auto split: option.splits sum.splits)
    then show ?case
      using Cons net_step_ok [OF Cons.prems(2) sz, of a] by (auto simp: net_moves_def)
  qed simp
qed

lemma net_goes_safe_step:
  assumes "sizes_ok nb ne" "net_inv nb ne s" "net_step nb ne a s = Some r"
  shows "\<exists>s'. r = Inr s' \<and> net_inv nb ne s' \<and> net_goes nb ne s s'"
proof -
  obtain s' where "r = Inr s'" "net_inv nb ne s'"
    using net_step_ok [OF assms(2,1), of a] assms(3) by (auto simp: net_moves_def split: sum.splits)
  then show ?thesis using net_goes_step assms(3) by blast
qed

text \<open>Registering leaves the wakers in use alone.\<close>

definition wakers_kept :: "nat \<Rightarrow> 'w net \<Rightarrow> 'w net \<Rightarrow> bool" where
  "wakers_kept ne s s' \<longleftrightarrow> (\<forall>i. in_blocks ne (net_storage s) i \<longrightarrow>
     in_blocks ne (net_storage s') i \<and> ws_get i (net_storage s') = ws_get i (net_storage s))"

lemma wakers_kept_refl [intro]: "wakers_kept ne s s"
  by (simp add: wakers_kept_def)

lemma wakers_kept_trans: "wakers_kept ne s s1 \<Longrightarrow> wakers_kept ne s1 s2 \<Longrightarrow> wakers_kept ne s s2"
  by (simp add: wakers_kept_def)

lemma register_keeps:
  assumes "sizes_ok nb ne" "net_inv nb ne s" "pollable_new nb ne registered (nm_poller s) = Inr (r, p)"
    and "nm_poller s' = p"
  shows "wakers_kept ne s s'"
proof -
  have w: "ws_inv nb ne (net_storage s) (live_indices (nm_pollables s))" using assms(2) by (simp add: net_inv_def)
  show ?thesis
  proof (cases rule: ws_alloc_frame [OF w assms(1)])
    case (1 i ws')
    have "np_storage p = ws' \<or> np_storage p = ws_free i ws'"
      using assms(3) 1(1) by (auto simp: pollable_new_def np_register_def Let_def split: sum.splits)
    moreover have "in_blocks ne (ws_free i ws') j = in_blocks ne ws' j" for j
      by (simp add: in_blocks_def ws_free_def)
    ultimately show ?thesis using 1(3) assms(4) by (auto simp: wakers_kept_def)
  next
    case 2
    then show ?thesis
      using assms(3,4) by (auto simp: pollable_new_def np_register_def Let_def wakers_kept_def)
  qed
qed

lemma try_accept_inner_goes:
  assumes sz: "sizes_ok nb ne" and inv: "net_inv nb ne s"
  shows "\<exists>r l' s'. try_accept_inner nb ne ls (nm_poller s, l) = Inr (r, nm_poller s', l') \<and> net_goes nb ne s s' \<and>
    wakers_kept ne s s' \<and> nm_pcs s' = nm_pcs s \<and> nm_pollables s' = nm_pollables s @ accepted r"
proof (cases "ls_accept ls l")
  case (Pair a l1)
  show ?thesis
  proof (cases a)
    case (Inl e)
    then show ?thesis
      using Pair by (intro exI [where x = "Inl e"] exI [where x = l1] exI [where x = s])
        (auto simp: try_accept_inner_def accepted_def)
  next
    case (Inr c)
    obtain registered l2 where reg: "ls_register ls c l1 = (registered, l2)" by (cases "ls_register ls c l1")
    from net_goes_safe_step [OF sz inv, of "Register registered"] obtain s' where
      s': "net_step nb ne (Register registered) s = Some (Inr s')" "net_goes nb ne s s'" by auto
    then obtain r p where new: "pollable_new nb ne registered (nm_poller s) = Inr (r, p)"
      by (cases "pollable_new nb ne registered (nm_poller s)") auto
    have "nm_poller s' = p" "nm_pcs s' = nm_pcs s"
        "nm_pollables s' = nm_pollables s @ accepted (case r of Inl e \<Rightarrow> Inl e | Inr pl \<Rightarrow> Inr (c, pl))"
      using s'(1) new by (auto simp: accepted_def split: sum.splits)
    then show ?thesis
      using s'(2) Pair Inr reg new register_keeps [OF sz inv new, of s'] by (auto simp: try_accept_inner_def)
  qed
qed

text \<open>The I/O of one iteration, with the attempts that were interrupted.\<close>

definition io_goes :: "nat \<Rightarrow> nat \<Rightarrow> ('l, 'c) listener_api \<Rightarrow>
    ('w net_poller \<times> 'l \<Rightarrow> (('c \<times> pollable) io_result \<times> 'w net_poller \<times> 'l) res) \<Rightarrow>
    'w net_poller \<times> 'l \<Rightarrow> (('c \<times> pollable) io_result \<times> 'w net_poller \<times> 'l) res \<Rightarrow> bool" where
  "io_goes nb ne ls io st result \<longleftrightarrow>
     (\<forall>s. io = try_accept_inner nb ne ls \<and> fst st = nm_poller s \<and> net_inv nb ne s \<longrightarrow>
       (\<exists>r l' s'. result = Inr (r, nm_poller s', l') \<and> r \<noteq> Inl Interrupted \<and> net_goes nb ne s s' \<and>
          wakers_kept ne s s' \<and> nm_pcs s' = nm_pcs s \<and> nm_pollables s' = nm_pollables s @ accepted r))"

lemma do_poller_io_goes:
  assumes sz: "sizes_ok nb ne" and run: "do_poller_io io st = Some result"
  shows "io_goes nb ne ls io st result"
proof (rule do_poller_io.raw_induct [where P = "io_goes nb ne ls", OF _ run])
  fix loop io st result
  assume IH: "\<And>io st result. loop io st = Some result \<Longrightarrow> io_goes nb ne ls io st result"
    and body: "(case io st of
        Inl e \<Rightarrow> Some (Inl e)
      | Inr (r, st') \<Rightarrow> if r = Inl Interrupted then loop io st' else Some (Inr (r, st'))) = Some result"
  show "io_goes nb ne ls io st result"
    unfolding io_goes_def
  proof (intro allI impI, elim conjE)
    fix s
    assume io: "io = try_accept_inner nb ne ls" and st: "fst st = nm_poller s" and inv: "net_inv nb ne s"
    obtain r l1 s1 where one: "try_accept_inner nb ne ls st = Inr (r, nm_poller s1, l1)"
      "net_goes nb ne s s1" "wakers_kept ne s s1" "nm_pcs s1 = nm_pcs s"
      "nm_pollables s1 = nm_pollables s @ accepted r"
      using try_accept_inner_goes [OF sz inv, of ls "snd st"] st by (metis prod.collapse)
    show "\<exists>r l' s'. result = Inr (r, nm_poller s', l') \<and> r \<noteq> Inl Interrupted \<and> net_goes nb ne s s' \<and>
      wakers_kept ne s s' \<and> nm_pcs s' = nm_pcs s \<and> nm_pollables s' = nm_pollables s @ accepted r"
    proof (cases "r = Inl Interrupted")
      case True
      then have "loop io (nm_poller s1, l1) = Some result" using body one(1) io by simp
      from IH [OF this] obtain r' l' s' where "result = Inr (r', nm_poller s', l')" "r' \<noteq> Inl Interrupted"
        "net_goes nb ne s1 s'" "wakers_kept ne s1 s'" "nm_pcs s' = nm_pcs s1"
        "nm_pollables s' = nm_pollables s1 @ accepted r'"
        using io net_goes_inv [OF sz inv one(2)] unfolding io_goes_def by (metis fst_conv)
      then show ?thesis
        using one(2-5) True net_goes_trans [of nb ne s s1 s'] wakers_kept_trans [of ne s s1 s']
        by (auto simp: accepted_def)
    next
      case False
      then show ?thesis using body one io by auto
    qed
  qed
qed

text \<open>How often the wakers of a pollable can still let a call through.\<close>

definition weight_at :: "waker_index \<Rightarrow> waker_kind \<Rightarrow> 'w net \<Rightarrow> nat" where
  "weight_at i kind s = (case ws_get i (net_storage s) of Inr e \<Rightarrow> wake_weight (e kind) | Inl p \<Rightarrow> 0)"

text \<open>The step into an iteration.\<close>

lemma enter_goes:
  assumes sz: "sizes_ok nb ne" and inv: "net_inv nb ne s" and pl: "net_pollable n s = Some pl"
    and pc: "nm_pcs s n kind = Io_Idle \<or> nm_pcs s n kind = At_Retry ctx"
  shows "\<exists>r ws pl1 p1 s1. poll_io_enter kind ctx pl (nm_poller s) = Inr (r, ws, pl1, p1) \<and>
    s1 = set_pc n kind (if r = Pending then Io_Idle else At_Io ctx)
           (s\<lparr>nm_poller := p1, nm_pollables := (nm_pollables s)[n := Some pl1]\<rparr>) \<and>
    net_goes nb ne s s1 \<and> net_inv nb ne s1 \<and> pl_index pl1 = pl_index pl \<and>
    (r \<noteq> Pending \<longrightarrow> weight_at (pl_index pl) kind s1 = weight_at (pl_index pl) kind s)"
proof -
  obtain a where a: "net_step nb ne a s = net_enter n kind ctx s"
  proof (cases "nm_pcs s n kind = Io_Idle")
    case True
    then show thesis using that [of "Poll_Start n kind ctx"] by simp
  next
    case False
    then show thesis using that [of "Poll_Again n kind"] pc by simp
  qed
  then have step: "net_step nb ne a s = Some (rbind (poll_io_enter kind ctx pl (nm_poller s)) (\<lambda>(r, ws, pl', p).
      Inr (set_pc n kind (if r = Pending then Io_Idle else At_Io ctx)
             (s\<lparr>nm_poller := p, nm_pollables := (nm_pollables s)[n := Some pl']\<rparr>))))"
    using pl by (simp add: net_enter_def)
  have w: "ws_inv nb ne (net_storage s) (live_indices (nm_pollables s))" using inv by (simp add: net_inv_def)
  then have b: "blocks_ok nb ne (net_storage s)" by (simp add: ws_inv_def)
  note P = net_inv_pollable [OF inv pl]
  obtain r ws pl1 p1 e w1 where en: "poll_io_enter kind ctx pl (nm_poller s) = Inr (r, ws, pl1, p1)"
    and i: "pl_index pl1 = pl_index pl"
    and st: "np_storage p1 = ws_put (pl_index pl) (e(kind := w1)) (net_storage s)"
      "ws_get (pl_index pl) (net_storage s) = Inr e" "\<And>k. aw_ok ((e(kind := w1)) k)"
    and nt: "r = Ready () \<Longrightarrow> aw_notified w1"
      "r = Ready () \<Longrightarrow> wake_weight (e kind) = Suc (of_bool (aw_state w1 = NOTIFIED))"
    by (rule poll_io_enter_ok [OF w P(4-6), of kind ctx]) (rule that; assumption)
  have "ws_get (pl_index pl) (np_storage p1) = Inr (e(kind := w1))"
    unfolding st(1) by (rule ws_put_ok(4) [OF b P(4) st(3)])
  then have "r \<noteq> Pending \<Longrightarrow> (case ws_get (pl_index pl) (np_storage p1) of Inr e \<Rightarrow> wake_weight (e kind) | Inl p \<Rightarrow> 0) =
      weight_at (pl_index pl) kind s"
    using st(2) nt by (cases r) (simp_all add: weight_at_def wake_weight_def)
  then show ?thesis
    using net_goes_safe_step [OF sz inv step] en i
    by (intro exI [where x = r] exI [where x = ws] exI [where x = pl1] exI [where x = p1])
      (simp add: weight_at_def set_pc_def)
qed

text \<open>The step out of it.\<close>

lemma outcome_goes:
  fixes out :: "'a io_result"
  assumes sz: "sizes_ok nb ne" and inv: "net_inv nb ne s" and pl: "net_pollable n s = Some pl"
    and pc: "nm_pcs s n kind = At_Io ctx" and out: "out \<noteq> Inl Interrupted"
  shows "\<exists>p1 s1. poll_io_outcome kind out pl (nm_poller s) =
      Inr (if out = Inl WouldBlock then Retry else Done out, p1) \<and>
    s1 = set_pc n kind (if out = Inl WouldBlock then At_Retry ctx else Io_Idle) (s\<lparr>nm_poller := p1\<rparr>) \<and>
    net_goes nb ne s s1 \<and> net_inv nb ne s1 \<and>
    (out = Inl WouldBlock \<longrightarrow> weight_at (pl_index pl) kind s1 < weight_at (pl_index pl) kind s)"
proof -
  let ?out = "map_sum id (\<lambda>_. ()) out"
  have o: "?out = Inl Interrupted \<longleftrightarrow> out = Inl Interrupted" "?out = Inl WouldBlock \<longleftrightarrow> out = Inl WouldBlock"
    by (cases out; simp)+
  have step: "net_step nb ne (Io_Outcome n kind ?out) s =
      Some (rbind (poll_io_outcome kind ?out pl (nm_poller s)) (\<lambda>(next, p).
            Inr (set_pc n kind
                   (case next of Again \<Rightarrow> At_Io ctx | Retry \<Rightarrow> At_Retry ctx | Done v \<Rightarrow> Io_Idle)
                   (s\<lparr>nm_poller := p\<rparr>))))"
    using pl pc by simp
  have w: "ws_inv nb ne (net_storage s) (live_indices (nm_pollables s))" using inv by (simp add: net_inv_def)
  then have b: "blocks_ok nb ne (net_storage s)" by (simp add: ws_inv_def)
  note P = net_inv_pollable [OF inv pl]
  obtain e where g: "ws_get (pl_index pl) (net_storage s) = Inr e" and ok: "\<And>k. aw_ok (e k)"
    using ws_get_ok [OF b P(4)] by metis
  have nt: "aw_notified (e kind)" using inv pl pc g unfolding net_inv_def notified_at_def by fastforce
  note reset = reset_waker_ok [OF g nt ok]
  let ?e = "e(kind := (e kind)\<lparr>aw_notified := False\<rparr>)"
  have "ws_get (pl_index pl) (ws_put (pl_index pl) ?e (net_storage s)) = Inr ?e"
    by (rule ws_put_ok(4) [OF b P(4) reset(2)])
  then show ?thesis
    using net_goes_safe_step [OF sz inv step] out reset(1) g nt
    by (auto simp: poll_io_outcome_def o weight_at_def set_pc_def wake_weight_def)
qed

text \<open>One iteration: in, the I/O, out again.\<close>

lemma iteration_goes:
  assumes sz: "sizes_ok nb ne" and inv: "net_inv nb ne s" and pl: "net_pollable n s = Some pl"
    and pc: "nm_pcs s n kind = Io_Idle \<or> nm_pcs s n kind = At_Retry ctx"
    and en: "poll_io_enter kind ctx pl (nm_poller s) = Inr (r, ws, pl1, p1)" "r \<noteq> Pending"
    and io: "do_poller_io (try_accept_inner nb ne ls) (p1, l) = Some result"
  shows "\<exists>out p2 l2 s3. result = Inr (out, p2, l2) \<and>
    poll_io_outcome kind out pl1 p2 = Inr (if out = Inl WouldBlock then Retry else Done out, nm_poller s3) \<and>
    net_goes nb ne s s3 \<and> net_inv nb ne s3 \<and>
    nm_pcs s3 = (nm_pcs s)(n := (nm_pcs s n)(kind := if out = Inl WouldBlock then At_Retry ctx else Io_Idle)) \<and>
    nm_pollables s3 = (nm_pollables s)[n := Some pl1] @ accepted out \<and> pl_index pl1 = pl_index pl \<and>
    (out = Inl WouldBlock \<longrightarrow> weight_at (pl_index pl) kind s3 < weight_at (pl_index pl) kind s)"
proof -
  have n: "n < length (nm_pollables s)" by (rule net_inv_pollable [OF inv pl])
  obtain s1 where s1: "s1 = set_pc n kind (At_Io ctx)
           (s\<lparr>nm_poller := p1, nm_pollables := (nm_pollables s)[n := Some pl1]\<rparr>)"
      "net_goes nb ne s s1" "net_inv nb ne s1" "pl_index pl1 = pl_index pl"
      "weight_at (pl_index pl) kind s1 = weight_at (pl_index pl) kind s"
    using enter_goes [OF sz inv pl pc] en by auto
  have p1: "p1 = nm_poller s1" by (simp add: s1(1) set_pc_def)
  obtain out l2 s2 where res: "result = Inr (out, nm_poller s2, l2)" "out \<noteq> Inl Interrupted"
    and s2: "net_goes nb ne s1 s2" "wakers_kept ne s1 s2" "nm_pcs s2 = nm_pcs s1"
      "nm_pollables s2 = nm_pollables s1 @ accepted out"
    using do_poller_io_goes [OF sz io, of ls] p1 s1(3) unfolding io_goes_def by (metis fst_conv)
  have inv2: "net_inv nb ne s2" by (rule net_goes_inv [OF sz s1(3) s2(1)])
  have pl1: "net_pollable n s1 = Some pl1" using s1(1) n by (simp add: net_pollable_def set_pc_def)
  have pl2: "net_pollable n s2 = Some pl1"
    using s2(4) s1(1) n by (simp add: net_pollable_def set_pc_def nth_append)
  have pc2: "nm_pcs s2 n kind = At_Io ctx" using s2(3) s1(1) by (simp add: set_pc_def)
  have w2: "weight_at (pl_index pl) kind s2 = weight_at (pl_index pl) kind s"
    using s2(2) net_inv_pollable(4) [OF s1(3) pl1] s1(4,5) by (simp add: wakers_kept_def weight_at_def)
  obtain p3 s3 where o: "poll_io_outcome kind out pl1 (nm_poller s2) =
      Inr (if out = Inl WouldBlock then Retry else Done out, p3)"
    and s3: "s3 = set_pc n kind (if out = Inl WouldBlock then At_Retry ctx else Io_Idle) (s2\<lparr>nm_poller := p3\<rparr>)"
      "net_goes nb ne s2 s3" "net_inv nb ne s3"
      "out = Inl WouldBlock \<longrightarrow> weight_at (pl_index pl1) kind s3 < weight_at (pl_index pl1) kind s2"
    using outcome_goes [OF sz inv2 pl2 pc2 res(2)] by metis
  have "nm_poller s3 = p3" "nm_pollables s3 = (nm_pollables s)[n := Some pl1] @ accepted out"
    "nm_pcs s3 = (nm_pcs s)(n := (nm_pcs s n)(kind := if out = Inl WouldBlock then At_Retry ctx else Io_Idle))"
    using s1(1) s2(3,4) s3(1) by (simp_all add: set_pc_def)
  then show ?thesis
    using res(1) o s1(4) s3(3,4) w2 net_goes_trans [OF net_goes_trans [OF s1(2) s2(1)] s3(2)]
    by (intro exI [where x = out] exI [where x = "nm_poller s2"] exI [where x = l2] exI [where x = s3]) simp
qed

text \<open>
  A whole call, from where the machine is not in a call of this pollable and kind: it returns, and
  is a run of the machine.
\<close>

lemma poll_poller_io_goes:
  fixes s :: "'w net" and ls :: "('l, 'c) listener_api"
  assumes sz: "sizes_ok nb ne"
    and io: "\<And>x :: 'w net_poller \<times> 'l. do_poller_io (try_accept_inner nb ne ls) x \<noteq> None"
    and "net_inv nb ne s" and "net_pollable n s = Some pl"
    and "nm_pcs s n kind = Io_Idle \<or> nm_pcs s n kind = At_Retry ctx"
  shows "\<exists>r ws pl' l' s'. poll_poller_io kind ctx (try_accept_inner nb ne ls) pl (nm_poller s) l =
      Some (Inr (r, ws, pl', nm_poller s', l')) \<and> net_goes nb ne s s' \<and>
    nm_pcs s' = (nm_pcs s)(n := (nm_pcs s n)(kind := Io_Idle)) \<and>
    nm_pollables s' = (nm_pollables s)[n := Some pl'] @
      (case r of Pending \<Rightarrow> [] | Ready v \<Rightarrow> accepted v)"
  using assms(3-)
proof (induction "weight_at (pl_index pl) kind s" arbitrary: s pl l rule: less_induct)
  case less
  note unfold = poll_poller_io.simps [of kind ctx "try_accept_inner nb ne ls" pl "nm_poller s" l]
  have n: "n < length (nm_pollables s)" by (rule net_inv_pollable [OF less.prems(1,2)])
  obtain r ws pl1 p1 s1 where en: "poll_io_enter kind ctx pl (nm_poller s) = Inr (r, ws, pl1, p1)"
    and s1: "s1 = set_pc n kind (if r = Pending then Io_Idle else At_Io ctx)
         (s\<lparr>nm_poller := p1, nm_pollables := (nm_pollables s)[n := Some pl1]\<rparr>)" "net_goes nb ne s s1"
    using enter_goes [OF sz less.prems] by metis
  show ?case
  proof (cases "r = Pending")
    case True
    then show ?thesis
      unfolding unfold using en s1 by (intro exI [where x = Pending] exI [where x = ws] exI [where x = pl1]
          exI [where x = l] exI [where x = s1]) (simp add: set_pc_def)
  next
    case False
    obtain res1 where res1: "do_poller_io (try_accept_inner nb ne ls) (p1, l) = Some res1"
      using io [of "(p1, l)"] by (cases "do_poller_io (try_accept_inner nb ne ls) (p1, l)") auto
    obtain out p2 l2 s3 where o: "res1 = Inr (out, p2, l2)"
        "poll_io_outcome kind out pl1 p2 = Inr (if out = Inl WouldBlock then Retry else Done out, nm_poller s3)"
      and s3: "net_goes nb ne s s3" "net_inv nb ne s3"
        "nm_pcs s3 = (nm_pcs s)(n := (nm_pcs s n)(kind := if out = Inl WouldBlock then At_Retry ctx else Io_Idle))"
        "nm_pollables s3 = (nm_pollables s)[n := Some pl1] @ accepted out" "pl_index pl1 = pl_index pl"
        "out = Inl WouldBlock \<longrightarrow> weight_at (pl_index pl) kind s3 < weight_at (pl_index pl) kind s"
      using iteration_goes [OF sz less.prems en False res1] by metis
    show ?thesis
    proof (cases "out = Inl WouldBlock")
      case True
      then have w: "weight_at (pl_index pl1) kind s3 < weight_at (pl_index pl) kind s"
        and pl3: "net_pollable n s3 = Some pl1" and pc3: "nm_pcs s3 n kind = At_Retry ctx"
        using s3 n by (simp_all add: net_pollable_def nth_append)
      have "poll_poller_io kind ctx (try_accept_inner nb ne ls) pl (nm_poller s) l =
          poll_poller_io kind ctx (try_accept_inner nb ne ls) pl1 (nm_poller s3) l2"
        unfolding unfold using en False res1 o True by simp
      then show ?thesis
        using less.hyps [OF w s3(2) pl3 disjI2 [OF pc3], of l2] s3(3,4) True
        by (auto simp: accepted_def elim!: net_goes_trans [OF s3(1)])
    next
      case out: False
      then have "poll_poller_io kind ctx (try_accept_inner nb ne ls) pl (nm_poller s) l =
          Some (Inr (Ready out, ws, pl1, nm_poller s3, l2))"
        unfolding unfold using en False res1 o by simp
      then show ?thesis
        using s3 out by (intro exI [where x = "Ready out"] exI [where x = ws] exI [where x = pl1]
            exI [where x = l2] exI [where x = s3]) simp
    qed
  qed
qed

subsection \<open>The order of the backlog\<close>

text \<open>
  What a result means for the backlog when the selector accepts every registration: only a
  connection that finds the waker storage full is taken and not returned.
\<close>

definition registers :: "('l, 'c) listener_api \<Rightarrow> bool" where
  "registers ls \<longleftrightarrow> (\<forall>c l. fst (ls_register ls c l) = Inr ())"

definition takes_in_order :: "'c list \<Rightarrow> ('c \<times> 'p) io_result \<Rightarrow> 'c list \<Rightarrow> bool" where
  "takes_in_order before r after \<longleftrightarrow>
     (case r of
        Inr (c, pl) \<Rightarrow> before = c # after
      | Inl e \<Rightarrow> after = before \<or> e = OutOfMemory \<and> (\<exists>c. before = c # after))"

lemma listener_law_accept:
  assumes "listener_laws ls backlog patience" "ls_accept ls l = (a, l1)"
  shows "case a of Inl e \<Rightarrow> backlog l1 = backlog l \<and> (e = Interrupted \<longrightarrow> patience l1 < patience l)
    | Inr c \<Rightarrow> backlog l = c # backlog l1 \<and> patience l1 \<le> patience l"
  using assms(1) [unfolded listener_laws_def, THEN conjunct1, THEN spec, of l] assms(2) by simp

lemma listener_law_register:
  fixes ls :: "('l, 'c) listener_api"
  assumes "listener_laws ls backlog patience" "ls_register ls c l = (r, l1)"
  shows "backlog l1 = backlog l" "r = Inl Interrupted \<Longrightarrow> patience l1 < patience l"
  using assms(1) [unfolded listener_laws_def, THEN conjunct2, rule_format, of l c] assms(2)
  by simp_all

text \<open>What registering gives: an error of the registration is passed on.\<close>

lemma pollable_new_error:
  assumes "pollable_new nb ne registered p = Inr (Inl e, p')"
  shows "e = OutOfMemory \<or> registered = Inl e"
proof (cases "ws_alloc nb ne (np_storage p)")
  case (Inl x)
  then show ?thesis using assms by (simp add: pollable_new_def np_register_def)
next
  case (Inr x)
  then show ?thesis
    using assms by (cases x; cases "fst x"; cases registered) (simp_all add: pollable_new_def np_register_def Let_def)
qed

lemma try_accept_inner_result:
  assumes laws: "listener_laws ls backlog patience"
    and run: "try_accept_inner nb ne ls (p, l) = Inr (r, p', l')"
  shows "r = Inl Interrupted \<Longrightarrow> patience l' < patience l"
    and "registers ls \<Longrightarrow> takes_in_order (backlog l) r (backlog l')"
proof -
  obtain a l1 where a: "ls_accept ls l = (a, l1)" by (cases "ls_accept ls l")
  note A = listener_law_accept [OF laws a]
  have "(r = Inl Interrupted \<longrightarrow> patience l' < patience l) \<and> (registers ls \<longrightarrow> takes_in_order (backlog l) r (backlog l'))"
  proof (cases a)
    case (Inl e)
    then show ?thesis using run a A by (auto simp: try_accept_inner_def takes_in_order_def)
  next
    case (Inr c)
    obtain registered l2 where reg: "ls_register ls c l1 = (registered, l2)" by (cases "ls_register ls c l1")
    note R = listener_law_register [OF laws reg]
    obtain q where q: "pollable_new nb ne registered p = Inr (q, p')" "l' = l2"
      "r = (case q of Inl e \<Rightarrow> Inl e | Inr pl \<Rightarrow> Inr (c, pl))"
      using run a Inr reg by (auto simp: try_accept_inner_def)
    show ?thesis
    proof (cases q)
      case (Inl e)
      have "registers ls \<Longrightarrow> registered = Inr ()" using reg unfolding registers_def by (metis fst_conv)
      then show ?thesis
        using pollable_new_error [OF q(1) [unfolded Inl]] q(2,3) Inl A R \<open>a = Inr c\<close>
        by (auto simp: takes_in_order_def)
    next
      case (Inr pl)
      then show ?thesis using q(2,3) A R \<open>a = Inr c\<close> by (simp add: takes_in_order_def)
    qed
  qed
  then show "r = Inl Interrupted \<Longrightarrow> patience l' < patience l"
    and "registers ls \<Longrightarrow> takes_in_order (backlog l) r (backlog l')" by simp_all
qed

lemma takes_nothing [simp]:
  "takes_in_order before (Inl Interrupted) after \<longleftrightarrow> after = before"
  "takes_in_order before (Inl WouldBlock) after \<longleftrightarrow> after = before"
  by (simp_all add: takes_in_order_def)

lemma do_poller_io_takes:
  assumes laws: "listener_laws ls backlog patience"
  shows "\<exists>result. do_poller_io (try_accept_inner nb ne ls) (p, l) = Some result \<and>
    (\<forall>r p' l'. result = Inr (r, p', l') \<longrightarrow> registers ls \<longrightarrow> takes_in_order (backlog l) r (backlog l'))"
proof (induction "patience l" arbitrary: p l rule: less_induct)
  case less
  note unfold = do_poller_io.simps [of "try_accept_inner nb ne ls" "(p, l)"]
  show ?case
  proof (cases "try_accept_inner nb ne ls (p, l)")
    case (Inl e)
    then show ?thesis unfolding unfold by simp
  next
    case (Inr x)
    obtain r p1 l1 where x: "x = (r, p1, l1)" by (cases x)
    note one = try_accept_inner_result [OF laws Inr [unfolded x]]
    show ?thesis
    proof (cases "r = Inl Interrupted")
      case True
      have "takes_in_order (backlog l) r' (backlog l')" if "takes_in_order (backlog l1) r' (backlog l')" "registers ls" for r' l'
        using one(2) that True by simp
      then show ?thesis
        unfolding unfold using less.hyps [OF one(1) [OF True], of p1] Inr x True by auto
    next
      case False
      then show ?thesis unfolding unfold using Inr x one(2) by simp
    qed
  qed
qed

definition call_takes :: "nat \<Rightarrow> nat \<Rightarrow> ('l, 'c) listener_api \<Rightarrow> ('l \<Rightarrow> 'c list) \<Rightarrow> waker_kind \<Rightarrow> 'w option \<Rightarrow>
    ('w net_poller \<times> 'l \<Rightarrow> (('c \<times> pollable) io_result \<times> 'w net_poller \<times> 'l) res) \<Rightarrow>
    pollable \<Rightarrow> 'w net_poller \<Rightarrow> 'l \<Rightarrow>
    (('c \<times> pollable) io_result poll \<times> 'w list \<times> pollable \<times> 'w net_poller \<times> 'l) res \<Rightarrow> bool" where
  "call_takes nb ne ls backlog kind ctx io pl p l result \<longleftrightarrow>
     (io = try_accept_inner nb ne ls \<longrightarrow>
       (\<forall>r ws pl' p' l'. result = Inr (r, ws, pl', p', l') \<longrightarrow>
          (case r of Pending \<Rightarrow> backlog l' = backlog l | Ready v \<Rightarrow> takes_in_order (backlog l) v (backlog l'))))"

lemma poll_poller_io_takes:
  fixes io :: "'w net_poller \<times> 'l \<Rightarrow> (('c \<times> pollable) io_result \<times> 'w net_poller \<times> 'l) res"
  assumes laws: "listener_laws ls backlog patience" and reg: "registers ls"
    and run: "poll_poller_io kind ctx io pl p l = Some result"
  shows "call_takes nb ne ls backlog kind ctx io pl p l result"
proof (rule poll_poller_io.raw_induct [where P = "call_takes nb ne ls backlog", OF _ run])
  fix loop kind ctx io pl p l result
  assume IH: "\<And>kind ctx io pl p l result. loop kind ctx io pl p l = Some result \<Longrightarrow>
      call_takes nb ne ls backlog kind ctx io pl p l result"
    and body: "(case poll_io_enter kind ctx pl p of
        Inl e \<Rightarrow> Some (Inl e)
      | Inr (r, ws, pl1, p1) \<Rightarrow>
          if r = Pending then Some (Inr (Pending, ws, pl1, p1, l))
          else Option.bind (do_poller_io io (p1, l)) (\<lambda>result.
            case result of
              Inl e \<Rightarrow> Some (Inl e)
            | Inr (out, p2, s2) \<Rightarrow>
                (case poll_io_outcome kind out pl1 p2 of
                   Inl e \<Rightarrow> Some (Inl e)
                 | Inr (Done v, p3) \<Rightarrow> Some (Inr (Ready v, ws, pl1, p3, s2))
                 | Inr (_, p3) \<Rightarrow> loop kind ctx io pl1 p3 s2))) = Some result"
  show "call_takes nb ne ls backlog kind ctx io pl p l result"
    unfolding call_takes_def
  proof (intro allI impI)
    fix r ws pl' p' l'
    assume io: "io = try_accept_inner nb ne ls" and result: "result = Inr (r, ws, pl', p', l')"
    show "case r of Pending \<Rightarrow> backlog l' = backlog l | Ready v \<Rightarrow> takes_in_order (backlog l) v (backlog l')"
    proof (cases "\<exists>ws1 pl1 p1. poll_io_enter kind ctx pl p = Inr (Ready (), ws1, pl1, p1)")
      case False
      then show ?thesis
        using body result by (auto split: sum.splits prod.splits if_splits poll.splits)
    next
      case True
      then obtain ws1 pl1 p1 where en: "poll_io_enter kind ctx pl p = Inr (Ready (), ws1, pl1, p1)" by blast
      obtain res1 where res1: "do_poller_io io (p1, l) = Some res1"
        "\<forall>out p2 l2. res1 = Inr (out, p2, l2) \<longrightarrow> takes_in_order (backlog l) out (backlog l2)"
        using do_poller_io_takes [OF laws] reg io by metis
      obtain out p2 l2 nxt p3 where o: "res1 = Inr (out, p2, l2)" "poll_io_outcome kind out pl1 p2 = Inr (nxt, p3)"
        using body en res1(1) result by (auto split: sum.splits)
      have t: "takes_in_order (backlog l) out (backlog l2)" using res1(2) o(1) by blast
      consider "nxt = Done out" | "out = Inl Interrupted \<or> out = Inl WouldBlock" "nxt = Again \<or> nxt = Retry"
        using o(2) by (auto simp: poll_io_outcome_def split: if_splits)
      then show ?thesis
      proof cases
        case 1
        then show ?thesis using body en res1(1) o t result by auto
      next
        case 2
        then have "loop kind ctx io pl1 p3 l2 = Some (Inr (r, ws, pl', p', l'))"
          using body en res1(1) o result by auto
        from IH [OF this] have "case r of Pending \<Rightarrow> backlog l' = backlog l2 | Ready v \<Rightarrow> takes_in_order (backlog l2) v (backlog l')"
          using io by (simp add: call_takes_def)
        moreover have "backlog l2 = backlog l" using t 2(1) by auto
        ultimately show ?thesis by (cases r) simp_all
      qed
    qed
  qed
qed

subsection \<open>Properties\<close>


definition queue_listener :: "(nat list, nat) listener_api" where
  "queue_listener = \<lparr>ls_accept = (\<lambda>l. case l of [] \<Rightarrow> (Inl WouldBlock, []) | c # cs \<Rightarrow> (Inr c, cs)),
     ls_register = (\<lambda>c l. (Inr (), l))\<rparr>"

lemma queue_listener_laws: "listener_laws queue_listener (\<lambda>l. l) (\<lambda>l. 0)"
  by (simp add: listener_laws_def queue_listener_def split: list.split)

lemma replicate_two: "replicate 2 x = [x, x]"
  by (simp add: numeral_2_eq_2)

lemma listener_runs:
  "\<exists>s pl. run (net_step 2 1) (net_start :: nat net) [Register (Inr ()), Net_Event readable_event] = Some (Inr s) \<and>
     net_pollable 0 s = Some pl \<and> nm_pcs s 0 Read = Io_Idle \<and>
     (\<exists>new ws pl' p'. poll_accept 2 1 queue_listener 7 pl (nm_poller s) [41, 42] =
        Some (Inr (Ready (Inr (41, new)), ws, pl', p', [42])))"
  by (simp add: net_eval poll_accept_def poll_poller_io.simps do_poller_io.simps try_accept_inner_def
      queue_listener_def replicate_two)




end
