(* ===== verification/Tcp_Halves.thy ===== *)
theory Tcp_Halves
  imports Tcp_Properties Tcp_Split
begin

text \<open>
  \<open>src/src/net/tcp/split.rs\<close>, the halves that borrow a stream, and the I/O of the owned halves of
  \<open>src/src/net/tcp/split_owned.rs\<close>: all of it is that of the stream they refer to. The two halves of a stream
  may be used by two tasks at once, since a call of one kind leaves what the other kind uses alone.
\<close>

subsection \<open>Streams and references to them\<close>

record 's tcp_stream =
  st_pollable :: pollable
  st_socket :: 's

record ('w, 's) streams =
  sm_poller :: "'w net_poller"
  sm_streams :: "nat \<Rightarrow> 's tcp_stream"

text \<open>An operation on the stream under a reference; \<open>'b\<close> is the caller's buffer.\<close>

definition on_stream :: "nat \<Rightarrow>
    (pollable \<Rightarrow> 'w net_poller \<Rightarrow> 's \<Rightarrow> ('r \<times> 'w list \<times> pollable \<times> 'w net_poller \<times> 's) res option) \<Rightarrow>
    ('w, 's) streams \<Rightarrow> ('r \<times> 'w list \<times> ('w, 's) streams) res option" where
  "on_stream u f m =
     map_option (\<lambda>result. rbind result (\<lambda>(r, ws, pl, p, s).
         Inr (r, ws, m\<lparr>sm_poller := p, sm_streams := (sm_streams m)(u := \<lparr>st_pollable = pl, st_socket = s\<rparr>)\<rparr>)))
       (f (st_pollable (sm_streams m u)) (sm_poller m) (st_socket (sm_streams m u)))"

text \<open>The same with a buffer that the operation fills.\<close>

definition on_stream_buf :: "nat \<Rightarrow>
    (pollable \<Rightarrow> 'w net_poller \<Rightarrow> 'b \<times> 's \<Rightarrow> ('r \<times> 'w list \<times> pollable \<times> 'w net_poller \<times> 'b \<times> 's) res option) \<Rightarrow>
    'b \<Rightarrow> ('w, 's) streams \<Rightarrow> ('r \<times> 'w list \<times> 'b \<times> ('w, 's) streams) res option" where
  "on_stream_buf u f b m =
     map_option (\<lambda>result. rbind result (\<lambda>(r, ws, pl, p, b', s).
         Inr (r, ws, b', m\<lparr>sm_poller := p, sm_streams := (sm_streams m)(u := \<lparr>st_pollable = pl, st_socket = s\<rparr>)\<rparr>)))
       (f (st_pollable (sm_streams m u)) (sm_poller m) (b, st_socket (sm_streams m u)))"

text \<open>
  One poll of a future of the stream, which borrows it too; the flag tells that the future gave its result.
  \<open>readable\<close> and \<open>writable\<close> do not touch the socket.
\<close>

definition on_stream_future :: "nat \<Rightarrow>
    (pollable \<Rightarrow> 'w net_poller \<Rightarrow> 's \<Rightarrow> ('r \<times> bool \<times> 'w list \<times> pollable \<times> 'w net_poller \<times> 's) res option) \<Rightarrow>
    ('w, 's) streams \<Rightarrow> (('r \<times> bool) \<times> 'w list \<times> ('w, 's) streams) res option" where
  "on_stream_future u f m =
     on_stream u (\<lambda>pl p s. map_option (\<lambda>result. rbind result (\<lambda>(r, completed, rest). Inr ((r, completed), rest))) (f pl p s)) m"

definition stream_ready :: "waker_kind \<Rightarrow> 'w \<Rightarrow> bool \<Rightarrow> pollable \<Rightarrow> 'w net_poller \<Rightarrow> 's \<Rightarrow>
    (unit io_result poll \<times> bool \<times> 'w list \<times> pollable \<times> 'w net_poller \<times> 's) res option" where
  "stream_ready kind ctx completed pl p s =
     map_option (\<lambda>result. rbind result (\<lambda>(r, completed', ws, pl', p', _). Inr (r, completed', ws, pl', p', s)))
       (ready_future_poll kind ctx completed pl p)"

subsection \<open>The public operations of a stream\<close>

text \<open>
  A stream comes from a socket of \<open>mio\<close> by registering it; \<open>connected\<close> is the result of starting a connection
  and \<open>reg\<close> that of the registry. What \<open>connect\<close> waits for then is \<open>connect_poll\<close>.
\<close>

definition stream_new :: "nat \<Rightarrow> nat \<Rightarrow> unit io_result \<Rightarrow> 'w net_poller \<Rightarrow> (pollable io_result \<times> 'w net_poller) res" where
  "stream_new nb ne reg p = pollable_new nb ne reg p"

definition stream_from_std :: "nat \<Rightarrow> nat \<Rightarrow> unit io_result \<Rightarrow> 'w net_poller \<Rightarrow>
    (pollable io_result \<times> 'w net_poller) res" where
  "stream_from_std nb ne reg p = stream_new nb ne reg p"

definition stream_try_from :: "nat \<Rightarrow> nat \<Rightarrow> unit io_result \<Rightarrow> 'w net_poller \<Rightarrow>
    (pollable io_result \<times> 'w net_poller) res" where
  "stream_try_from nb ne reg p = stream_from_std nb ne reg p"

definition connect_start :: "nat \<Rightarrow> nat \<Rightarrow> unit io_result \<Rightarrow> unit io_result \<Rightarrow> 'w net_poller \<Rightarrow>
    (pollable io_result \<times> 'w net_poller) res" where
  "connect_start nb ne connected reg p =
     (case connected of Inl e \<Rightarrow> Inr (Inl e, p) | Inr _ \<Rightarrow> stream_new nb ne reg p)"

definition stream_poll_peek :: "'b readbuf_api \<Rightarrow> 's socket_api \<Rightarrow> 'w \<Rightarrow> nat \<Rightarrow> 'b \<Rightarrow> ('w, 's) streams \<Rightarrow>
    (nat io_result poll \<times> 'w list \<times> 'b \<times> ('w, 's) streams) res option" where
  "stream_poll_peek api so ctx u b m = on_stream_buf u (poll_peek_inner api so ctx) b m"

definition stream_poll_read :: "'b readbuf_api \<Rightarrow> 's socket_api \<Rightarrow> 'w \<Rightarrow> nat \<Rightarrow> 'b \<Rightarrow> ('w, 's) streams \<Rightarrow>
    (unit io_result poll \<times> 'w list \<times> 'b \<times> ('w, 's) streams) res option" where
  "stream_poll_read api so ctx u b m = on_stream_buf u (poll_read_inner api so ctx) b m"

definition stream_poll_write :: "'s socket_api \<Rightarrow> 'w \<Rightarrow> nat \<Rightarrow> u8 list \<Rightarrow> ('w, 's) streams \<Rightarrow>
    (nat io_result poll \<times> 'w list \<times> ('w, 's) streams) res option" where
  "stream_poll_write so ctx u buf m = on_stream u (poll_write_inner so buf ctx) m"

definition stream_poll_write_vectored :: "'s socket_api \<Rightarrow> 'w \<Rightarrow> nat \<Rightarrow> u8 list list \<Rightarrow> ('w, 's) streams \<Rightarrow>
    (nat io_result poll \<times> 'w list \<times> ('w, 's) streams) res option" where
  "stream_poll_write_vectored so ctx u bufs m = on_stream u (poll_write_vectored_inner so bufs ctx) m"

definition stream_poll_flush :: "unit io_result poll" where
  "stream_poll_flush = poll_flush_inner"

definition stream_poll_shutdown :: "'s socket_api \<Rightarrow> nat \<Rightarrow> ('w, 's) streams \<Rightarrow> unit io_result poll \<times> ('w, 's) streams" where
  "stream_poll_shutdown so u m =
     (let (r, s) = poll_shutdown_inner so (st_socket (sm_streams m u))
      in (r, m\<lparr>sm_streams := (sm_streams m)(u := (sm_streams m u)\<lparr>st_socket := s\<rparr>)\<rparr>))"

subsection \<open>Borrowed halves\<close>

record read_half =
  rh_stream :: nat

record write_half =
  wh_stream :: nat

definition split_stream :: "nat \<Rightarrow> read_half \<times> write_half" where
  "split_stream u = (\<lparr>rh_stream = u\<rparr>, \<lparr>wh_stream = u\<rparr>)"

definition read_half_poll_peek :: "'b readbuf_api \<Rightarrow> 's socket_api \<Rightarrow> 'w \<Rightarrow> read_half \<Rightarrow> 'b \<Rightarrow> ('w, 's) streams \<Rightarrow>
    (nat io_result poll \<times> 'w list \<times> 'b \<times> ('w, 's) streams) res option" where
  "read_half_poll_peek api so ctx h b m = on_stream_buf (rh_stream h) (poll_peek_inner api so ctx) b m"

definition read_half_try_read :: "'s socket_api \<Rightarrow> read_half \<Rightarrow> nat \<Rightarrow> ('w, 's) streams \<Rightarrow>
    (u8 list io_result \<times> 'w list \<times> ('w, 's) streams) res option" where
  "read_half_try_read so h n m = on_stream (rh_stream h) (try_read so n) m"

definition read_half_try_read_vectored :: "'s socket_api \<Rightarrow> read_half \<Rightarrow> nat list \<Rightarrow> ('w, 's) streams \<Rightarrow>
    (u8 list list io_result \<times> 'w list \<times> ('w, 's) streams) res option" where
  "read_half_try_read_vectored so h ns m = on_stream (rh_stream h) (try_read_vectored so ns) m"

definition read_half_poll_read :: "'b readbuf_api \<Rightarrow> 's socket_api \<Rightarrow> 'w \<Rightarrow> read_half \<Rightarrow> 'b \<Rightarrow> ('w, 's) streams \<Rightarrow>
    (unit io_result poll \<times> 'w list \<times> 'b \<times> ('w, 's) streams) res option" where
  "read_half_poll_read api so ctx h b m = on_stream_buf (rh_stream h) (poll_read_inner api so ctx) b m"

definition read_half_peek :: "'s socket_api \<Rightarrow> nat \<Rightarrow> 'w \<Rightarrow> bool \<Rightarrow> read_half \<Rightarrow> ('w, 's) streams \<Rightarrow>
    ((u8 list io_result poll \<times> bool) \<times> 'w list \<times> ('w, 's) streams) res option" where
  "read_half_peek so n ctx completed h m = on_stream_future (rh_stream h) (peek_future_poll so n ctx completed) m"

definition read_half_readable :: "'w \<Rightarrow> bool \<Rightarrow> read_half \<Rightarrow> ('w, 's) streams \<Rightarrow>
    ((unit io_result poll \<times> bool) \<times> 'w list \<times> ('w, 's) streams) res option" where
  "read_half_readable ctx completed h m = on_stream_future (rh_stream h) (stream_ready Read ctx completed) m"

definition write_half_writable :: "'w \<Rightarrow> bool \<Rightarrow> write_half \<Rightarrow> ('w, 's) streams \<Rightarrow>
    ((unit io_result poll \<times> bool) \<times> 'w list \<times> ('w, 's) streams) res option" where
  "write_half_writable ctx completed h m = on_stream_future (wh_stream h) (stream_ready Write ctx completed) m"

definition write_half_try_write :: "'s socket_api \<Rightarrow> write_half \<Rightarrow> u8 list \<Rightarrow> ('w, 's) streams \<Rightarrow>
    (nat io_result \<times> 'w list \<times> ('w, 's) streams) res option" where
  "write_half_try_write so h buf m = on_stream (wh_stream h) (try_write so buf) m"

definition write_half_try_write_vectored :: "'s socket_api \<Rightarrow> write_half \<Rightarrow> u8 list list \<Rightarrow> ('w, 's) streams \<Rightarrow>
    (nat io_result \<times> 'w list \<times> ('w, 's) streams) res option" where
  "write_half_try_write_vectored so h bufs m = on_stream (wh_stream h) (try_write_vectored so bufs) m"

definition write_half_poll_write :: "'s socket_api \<Rightarrow> 'w \<Rightarrow> write_half \<Rightarrow> u8 list \<Rightarrow> ('w, 's) streams \<Rightarrow>
    (nat io_result poll \<times> 'w list \<times> ('w, 's) streams) res option" where
  "write_half_poll_write so ctx h buf m = on_stream (wh_stream h) (poll_write_inner so buf ctx) m"

definition write_half_poll_write_vectored :: "'s socket_api \<Rightarrow> 'w \<Rightarrow> write_half \<Rightarrow> u8 list list \<Rightarrow> ('w, 's) streams \<Rightarrow>
    (nat io_result poll \<times> 'w list \<times> ('w, 's) streams) res option" where
  "write_half_poll_write_vectored so ctx h bufs m = on_stream (wh_stream h) (poll_write_vectored_inner so bufs ctx) m"

definition write_half_poll_flush :: "write_half \<Rightarrow> unit io_result poll" where
  "write_half_poll_flush h = poll_flush_inner"

definition write_half_poll_shutdown :: "'s socket_api \<Rightarrow> write_half \<Rightarrow> ('w, 's) streams \<Rightarrow>
    unit io_result poll \<times> ('w, 's) streams" where
  "write_half_poll_shutdown so h m =
     (let u = wh_stream h; (r, s) = poll_shutdown_inner so (st_socket (sm_streams m u))
      in (r, m\<lparr>sm_streams := (sm_streams m)(u := (sm_streams m u)\<lparr>st_socket := s\<rparr>)\<rparr>))"

subsection \<open>Owned halves\<close>

text \<open>The stream an \<open>Arc\<close> of an owned half points to.\<close>

definition arc_stream :: "'q owned \<Rightarrow> nat \<Rightarrow> nat" where
  "arc_stream ow a = ar_stream (ow_arcs ow ! a)"

definition owned_poll_peek :: "'q owned \<Rightarrow> 'b readbuf_api \<Rightarrow> 's socket_api \<Rightarrow> 'w \<Rightarrow> nat \<Rightarrow> 'b \<Rightarrow> ('w, 's) streams \<Rightarrow>
    (nat io_result poll \<times> 'w list \<times> 'b \<times> ('w, 's) streams) res option" where
  "owned_poll_peek ow api so ctx a b m = on_stream_buf (arc_stream ow a) (poll_peek_inner api so ctx) b m"

definition owned_try_read :: "'q owned \<Rightarrow> 's socket_api \<Rightarrow> nat \<Rightarrow> nat \<Rightarrow> ('w, 's) streams \<Rightarrow>
    (u8 list io_result \<times> 'w list \<times> ('w, 's) streams) res option" where
  "owned_try_read ow so a n m = on_stream (arc_stream ow a) (try_read so n) m"

definition owned_try_read_vectored :: "'q owned \<Rightarrow> 's socket_api \<Rightarrow> nat \<Rightarrow> nat list \<Rightarrow> ('w, 's) streams \<Rightarrow>
    (u8 list list io_result \<times> 'w list \<times> ('w, 's) streams) res option" where
  "owned_try_read_vectored ow so a ns m = on_stream (arc_stream ow a) (try_read_vectored so ns) m"

definition owned_poll_read :: "'q owned \<Rightarrow> 'b readbuf_api \<Rightarrow> 's socket_api \<Rightarrow> 'w \<Rightarrow> nat \<Rightarrow> 'b \<Rightarrow> ('w, 's) streams \<Rightarrow>
    (unit io_result poll \<times> 'w list \<times> 'b \<times> ('w, 's) streams) res option" where
  "owned_poll_read ow api so ctx a b m = on_stream_buf (arc_stream ow a) (poll_read_inner api so ctx) b m"

definition owned_peek :: "'q owned \<Rightarrow> 's socket_api \<Rightarrow> nat \<Rightarrow> 'w \<Rightarrow> bool \<Rightarrow> nat \<Rightarrow> ('w, 's) streams \<Rightarrow>
    ((u8 list io_result poll \<times> bool) \<times> 'w list \<times> ('w, 's) streams) res option" where
  "owned_peek ow so n ctx completed a m = on_stream_future (arc_stream ow a) (peek_future_poll so n ctx completed) m"

definition owned_readable :: "'q owned \<Rightarrow> 'w \<Rightarrow> bool \<Rightarrow> nat \<Rightarrow> ('w, 's) streams \<Rightarrow>
    ((unit io_result poll \<times> bool) \<times> 'w list \<times> ('w, 's) streams) res option" where
  "owned_readable ow ctx completed a m = on_stream_future (arc_stream ow a) (stream_ready Read ctx completed) m"

definition owned_writable :: "'q owned \<Rightarrow> 'w \<Rightarrow> bool \<Rightarrow> nat \<Rightarrow> ('w, 's) streams \<Rightarrow>
    ((unit io_result poll \<times> bool) \<times> 'w list \<times> ('w, 's) streams) res option" where
  "owned_writable ow ctx completed a m = on_stream_future (arc_stream ow a) (stream_ready Write ctx completed) m"

definition owned_try_write :: "'q owned \<Rightarrow> 's socket_api \<Rightarrow> nat \<Rightarrow> u8 list \<Rightarrow> ('w, 's) streams \<Rightarrow>
    (nat io_result \<times> 'w list \<times> ('w, 's) streams) res option" where
  "owned_try_write ow so a buf m = on_stream (arc_stream ow a) (try_write so buf) m"

definition owned_try_write_vectored :: "'q owned \<Rightarrow> 's socket_api \<Rightarrow> nat \<Rightarrow> u8 list list \<Rightarrow> ('w, 's) streams \<Rightarrow>
    (nat io_result \<times> 'w list \<times> ('w, 's) streams) res option" where
  "owned_try_write_vectored ow so a bufs m = on_stream (arc_stream ow a) (try_write_vectored so bufs) m"

definition owned_poll_write :: "'q owned \<Rightarrow> 's socket_api \<Rightarrow> 'w \<Rightarrow> nat \<Rightarrow> u8 list \<Rightarrow> ('w, 's) streams \<Rightarrow>
    (nat io_result poll \<times> 'w list \<times> ('w, 's) streams) res option" where
  "owned_poll_write ow so ctx a buf m = on_stream (arc_stream ow a) (poll_write_inner so buf ctx) m"

definition owned_poll_write_vectored :: "'q owned \<Rightarrow> 's socket_api \<Rightarrow> 'w \<Rightarrow> nat \<Rightarrow> u8 list list \<Rightarrow> ('w, 's) streams \<Rightarrow>
    (nat io_result poll \<times> 'w list \<times> ('w, 's) streams) res option" where
  "owned_poll_write_vectored ow so ctx a bufs m =
     on_stream (arc_stream ow a) (poll_write_vectored_inner so bufs ctx) m"

subsection \<open>What a call of one kind leaves alone\<close>

definition waker_of :: "waker_index \<Rightarrow> waker_kind \<Rightarrow> 'w net_poller \<Rightarrow> 'w atomic_waker option" where
  "waker_of i kind p = (case ws_get i (np_storage p) of Inr e \<Rightarrow> Some (e kind) | Inl q \<Rightarrow> None)"

text \<open>Only the waker of index \<open>i\<close> and the given kind may differ.\<close>

definition only_waker :: "waker_index \<Rightarrow> waker_kind \<Rightarrow> 'w net_poller \<Rightarrow> 'w net_poller \<Rightarrow> bool" where
  "only_waker i kind p p' \<longleftrightarrow>
     (\<forall>j k. j \<noteq> i \<or> k \<noteq> kind \<longrightarrow> waker_of j k p' = waker_of j k p) \<and> np_selector p' = np_selector p"

text \<open>Only the budget and the flag of the given kind may differ.\<close>

definition only_kind :: "waker_kind \<Rightarrow> pollable \<Rightarrow> pollable \<Rightarrow> bool" where
  "only_kind kind pl pl' \<longleftrightarrow> pl_index pl' = pl_index pl \<and>
     (\<forall>k. k \<noteq> kind \<longrightarrow> pl_budgets pl' k = pl_budgets pl k \<and> pl_pendings pl' k = pl_pendings pl k)"

lemma only_waker_refl [simp]: "only_waker i kind p p"
  by (simp add: only_waker_def)

lemma only_waker_trans: "only_waker i kind p p1 \<Longrightarrow> only_waker i kind p1 p2 \<Longrightarrow> only_waker i kind p p2"
  by (simp add: only_waker_def)

lemma only_kind_refl [simp]: "only_kind kind pl pl"
  by (simp add: only_kind_def)

lemma only_kind_trans: "only_kind kind pl pl1 \<Longrightarrow> only_kind kind pl1 pl2 \<Longrightarrow> only_kind kind pl pl2"
  by (simp add: only_kind_def)

lemma ws_get_slot:
  assumes "ws_get i ws = Inr e"
  obtains array block where "ws_array ws = Some array" "unat (wi_block i) < length array"
    "array ! unat (wi_block i) = Some block" "unat (wi_entry i) < length block"
  using assms by (auto simp: ws_get_def index_def unwrap_def split: option.splits if_splits)

lemma ws_get_put_same: "ws_get i ws = Inr e \<Longrightarrow> ws_get i (ws_put i e' ws) = Inr e'"
  by (erule ws_get_slot) (simp add: ws_get_def ws_put_def)

lemma ws_get_put_other:
  assumes "j \<noteq> i"
  shows "ws_get j (ws_put i e ws) = ws_get j ws"
proof -
  have "unat (wi_block j) \<noteq> unat (wi_block i) \<or> unat (wi_entry j) \<noteq> unat (wi_entry i)"
    using assms by (cases i; cases j) (simp add: word_unat_eq_iff [symmetric])
  note neq = this
  show ?thesis
  proof (cases "\<exists>array block. ws_array ws = Some array \<and> array ! unat (wi_block i) = Some block")
    case False
    then have "ws_put i e ws = ws" by (auto simp: ws_put_def split: option.splits)
    then show ?thesis by simp
  next
    case True
    then obtain array block where a: "ws_array ws = Some array" "array ! unat (wi_block i) = Some block" by blast
    then have get: "ws_get j (ws_put i e ws) =
        rbind (index (array[unat (wi_block i) := Some (block[unat (wi_entry i) := e])]) (unat (wi_block j))) (\<lambda>slot.
        rbind (unwrap slot) (\<lambda>block. index block (unat (wi_entry j))))"
      "ws_get j ws = rbind (index array (unat (wi_block j))) (\<lambda>slot.
        rbind (unwrap slot) (\<lambda>block. index block (unat (wi_entry j))))"
      by (simp_all add: ws_get_def ws_put_def)
    show ?thesis
    proof (cases "unat (wi_block j) = unat (wi_block i) \<and> unat (wi_block i) < length array")
      case True
      then show ?thesis using get neq a by (simp add: index_def)
    next
      case False
      then show ?thesis using get by (auto simp: index_def nth_list_update)
    qed
  qed
qed

lemma with_wakers_only:
  assumes "np_with_wakers i f p = Inr (r, p')"
    and "\<And>e r e' k. f e = Inr (r, e') \<Longrightarrow> k \<noteq> kind \<Longrightarrow> e' k = e k"
  shows "only_waker i kind p p'"
proof -
  obtain e e' where g: "ws_get i (np_storage p) = Inr e" and f: "f e = Inr (r, e')"
    and p': "p' = p\<lparr>np_storage := ws_put i e' (np_storage p)\<rparr>"
    using assms(1) by (auto simp: np_with_wakers_def ws_with_def)
  have "waker_of j k p' = waker_of j k p" if "j \<noteq> i \<or> k \<noteq> kind" for j k
  proof (cases "j = i")
    case True
    then show ?thesis
      using that g p' ws_get_put_same [OF g] assms(2) [OF f, of k] by (simp add: waker_of_def)
  next
    case False
    then show ?thesis using p' by (simp add: waker_of_def ws_get_put_other)
  qed
  then show ?thesis by (simp add: only_waker_def p')
qed

lemma poll_waker_only:
  assumes "poll_waker kind ctx i p = Inr (r, p')"
  shows "only_waker i kind p p'"
  by (rule with_wakers_only [OF assms [unfolded poll_waker_def]]) auto

lemma reset_waker_only:
  assumes "reset_waker kind i p = Inr p'"
  shows "only_waker i kind p p'"
proof -
  obtain u where "np_with_wakers i (\<lambda>e. rbind (aw_reset (e kind)) (\<lambda>w. Inr ((), e(kind := w)))) p = Inr (u, p')"
    using assms by (auto simp: reset_waker_def)
  then show ?thesis by (rule with_wakers_only) auto
qed

lemma charge_budget_only:
  "charge_budget kind ctx pl = (r, ws, pl') \<Longrightarrow> only_kind kind pl pl'"
  by (auto simp: charge_budget_def only_kind_def Let_def split: option.splits if_splits)

lemma io_pending_only:
  "io_pending_begin p = Inr p' \<Longrightarrow> only_waker i kind p p'"
  "io_pending_complete p = Inr p' \<Longrightarrow> only_waker i kind p p'"
  by (auto simp: io_pending_begin_def io_pending_complete_def only_waker_def waker_of_def)

lemma pendings_only: "only_kind kind pl (pl\<lparr>pl_pendings := (pl_pendings pl)(kind := b)\<rparr>)"
  by (simp add: only_kind_def)

lemma poll_io_enter_only:
  assumes "poll_io_enter kind ctx pl p = Inr (r, ws, pl', p')"
  shows "only_kind kind pl pl'" "only_waker (pl_index pl) kind p p'"
proof -
  obtain r1 p1 where pw: "poll_waker kind ctx (pl_index pl) p = Inr (r1, p1)"
    using assms by (auto simp: poll_io_enter_def Let_def)
  note first = poll_waker_only [OF pw]
  have "only_kind kind pl pl' \<and> only_waker (pl_index pl) kind p1 p'"
  proof (cases "r1 = Pending")
    case True
    then show ?thesis
      using assms pw io_pending_only(1) [of p1 p'] pendings_only [of kind pl True]
      by (auto simp: poll_io_enter_def Let_def split: if_splits)
  next
    case False
    obtain r2 ws2 pl2 where c: "charge_budget kind ctx (pl\<lparr>pl_pendings := (pl_pendings pl)(kind := False)\<rparr>) = (r2, ws2, pl2)"
      by (cases "charge_budget kind ctx (pl\<lparr>pl_pendings := (pl_pendings pl)(kind := False)\<rparr>)")
    have "only_kind kind pl pl2"
      by (rule only_kind_trans [OF pendings_only charge_budget_only [OF c]])
    then show ?thesis
      using assms pw False c io_pending_only(2) [of p1 p']
      by (auto simp: poll_io_enter_def Let_def split: if_splits)
  qed
  then show "only_kind kind pl pl'" "only_waker (pl_index pl) kind p p'"
    using only_waker_trans [OF first] by blast+
qed

lemma poll_io_outcome_only:
  "poll_io_outcome kind out pl p = Inr (nxt, p') \<Longrightarrow> only_waker (pl_index pl) kind p p'"
  by (auto simp: poll_io_outcome_def reset_waker_only split: if_splits)

text \<open>A whole call of \<open>poll_io\<close>, whatever the I/O does.\<close>

definition call_only :: "waker_kind \<Rightarrow> 'w option \<Rightarrow> ('s \<Rightarrow> 'a io_result \<times> 's) \<Rightarrow> pollable \<Rightarrow> 'w net_poller \<Rightarrow> 's \<Rightarrow>
    ('a io_result poll \<times> 'w list \<times> pollable \<times> 'w net_poller \<times> 's) res \<Rightarrow> bool" where
  "call_only kind ctx do_io pl p s y \<longleftrightarrow> (\<forall>r ws pl' p' s'. y = Inr (r, ws, pl', p', s') \<longrightarrow>
     only_kind kind pl pl' \<and> only_waker (pl_index pl) kind p p')"

lemma poll_io_only:
  assumes "poll_io kind ctx do_io pl p s = Some y"
  shows "call_only kind ctx do_io pl p s y"
proof (rule poll_io.raw_induct [where P = call_only, OF _ assms])
  fix f :: "waker_kind \<Rightarrow> 'w option \<Rightarrow> ('s \<Rightarrow> 'a io_result \<times> 's) \<Rightarrow> pollable \<Rightarrow> 'w net_poller \<Rightarrow> 's \<Rightarrow>
      ('a io_result poll \<times> 'w list \<times> pollable \<times> 'w net_poller \<times> 's) res option"
    and kind ctx do_io pl p s y
  assume IH: "\<And>kind ctx do_io pl p s y. f kind ctx do_io pl p s = Some y \<Longrightarrow> call_only kind ctx do_io pl p s y"
    and step: "(case poll_io_enter kind ctx pl p of
        Inl e \<Rightarrow> Some (Inl e)
      | Inr (r, ws, pl1, p1) \<Rightarrow>
          if r = Pending then Some (Inr (Pending, ws, pl1, p1, s))
          else Option.bind (do_io_loop do_io s) (\<lambda>(out, s1).
            case poll_io_outcome kind out pl1 p1 of
              Inl e \<Rightarrow> Some (Inl e)
            | Inr (Done v, p2) \<Rightarrow> Some (Inr (Ready v, ws, pl1, p2, s1))
            | Inr (_, p2) \<Rightarrow> f kind ctx do_io pl1 p2 s1)) = Some y"
  show "call_only kind ctx do_io pl p s y"
    unfolding call_only_def
  proof (intro allI impI)
    fix r ws pl' p' s'
    assume y: "y = Inr (r, ws, pl', p', s')"
    obtain r1 ws1 pl1 p1 where en: "poll_io_enter kind ctx pl p = Inr (r1, ws1, pl1, p1)"
      using step y by (cases "poll_io_enter kind ctx pl p") auto
    note first = poll_io_enter_only [OF en]
    have i: "pl_index pl1 = pl_index pl" using first(1) by (simp add: only_kind_def)
    show "only_kind kind pl pl' \<and> only_waker (pl_index pl) kind p p'"
    proof (cases "r1 = Pending")
      case True
      then show ?thesis using step y en first by auto
    next
      case False
      obtain out s1 nxt p2 where io: "do_io_loop do_io s = Some (out, s1)"
        and o: "poll_io_outcome kind out pl1 p1 = Inr (nxt, p2)"
        using step y en False by (cases "do_io_loop do_io s") (auto split: sum.splits)
      have second: "only_waker (pl_index pl) kind p p2"
        using only_waker_trans [OF first(2)] poll_io_outcome_only [OF o] i by simp
      show ?thesis
      proof (cases "\<exists>v. nxt = Done v")
        case True
        then show ?thesis using step y en False io o first second by auto
      next
        case False
        then have "f kind ctx do_io pl1 p2 s1 = Some y"
          using step en \<open>r1 \<noteq> Pending\<close> io o by (cases nxt) auto
        from IH [OF this] have "only_kind kind pl1 pl'" "only_waker (pl_index pl1) kind p2 p'"
          using y by (auto simp: call_only_def)
        then show ?thesis
          using only_kind_trans [OF first(1)] only_waker_trans [OF second] i by simp
      qed
    qed
  qed
qed

lemma poll_io_res_only:
  assumes "poll_io_res kind ctx do_io pl p x = Some (Inr (r, ws, pl', p', x'))"
  shows "only_kind kind pl pl'" "only_waker (pl_index pl) kind p p'"
proof -
  obtain y where y: "poll_io kind ctx (catching do_io) pl p x = Some y" "resuming y = Inr (r, ws, pl', p', x')"
    using assms by (auto simp: poll_io_res_def)
  then obtain r0 rest where y0: "y = Inr (r0, rest)" by (cases y) (auto simp: resuming_def)
  have "\<exists>r0. y = Inr (r0, ws, pl', p', x')"
  proof (cases r0)
    case Pending
    then show ?thesis using y(2) y0 by (simp add: resuming_def)
  next
    case (Ready out)
    then show ?thesis using y(2) y0 by (cases out; cases "projr out") (auto simp: resuming_def)
  qed
  then obtain r0 where "y = Inr (r0, ws, pl', p', x')" by blast
  then show "only_kind kind pl pl'" "only_waker (pl_index pl) kind p p'"
    using poll_io_only [OF y(1)] by (simp_all add: call_only_def)
qed

text \<open>The owned halves do to their stream what the borrowed ones do.\<close>

lemma owned_is_borrowed:
  "owned_poll_read ow api so ctx a b m = read_half_poll_read api so ctx \<lparr>rh_stream = arc_stream ow a\<rparr> b m"
  "owned_poll_peek ow api so ctx a b m = read_half_poll_peek api so ctx \<lparr>rh_stream = arc_stream ow a\<rparr> b m"
  "owned_try_read ow so a n m = read_half_try_read so \<lparr>rh_stream = arc_stream ow a\<rparr> n m"
  "owned_poll_write ow so ctx a buf m = write_half_poll_write so ctx \<lparr>wh_stream = arc_stream ow a\<rparr> buf m"
  "owned_try_write ow so a buf m = write_half_try_write so \<lparr>wh_stream = arc_stream ow a\<rparr> buf m"
  by (simp_all add: owned_poll_read_def read_half_poll_read_def owned_poll_peek_def read_half_poll_peek_def
      owned_try_read_def read_half_try_read_def owned_poll_write_def write_half_poll_write_def
      owned_try_write_def write_half_try_write_def)


definition idle_streams :: "nat net_poller \<Rightarrow> (nat, u8 list \<times> u8 list) streams" where
  "idle_streams p = \<lparr>sm_poller = p, sm_streams = (\<lambda>u. \<lparr>st_pollable = first_source, st_socket = ([], [])\<rparr>)\<rparr>"

lemma idle_halves_run:
  "\<exists>s ws b' m1 ws' m2. run (net_step 1 1) (net_start :: nat net) [Register (Inr ())] = Some (Inr s) \<and>
     read_half_poll_read list_readbuf list_socket 7 \<lparr>rh_stream = 0\<rparr> ([], [0], 0) (idle_streams (nm_poller s)) =
       Some (Inr (Pending, ws, b', m1)) \<and>
     write_half_poll_write list_socket 8 \<lparr>wh_stream = 0\<rparr> [5] m1 = Some (Inr (Pending, ws', m2))"
  by (simp add: net_eval read_half_poll_read_def write_half_poll_write_def idle_streams_def on_stream_def
      on_stream_buf_def poll_read_inner_def poll_write_inner_def poll_io_res_def resuming_def first_source_def
      poll_io.simps)


end
