(* ===== verification/Tcp_Options.thy ===== *)
theory Tcp_Options
  imports Tcp_Halves
begin

text \<open>
  What \<open>stream.rs\<close>, \<open>split.rs\<close> and \<open>split_owned.rs\<close> have besides I/O: the options and addresses of the
  socket, the calls on a half that are those of its stream, and the two methods that reunite halves.
  The calls of the socket that they end in are parameters.
\<close>

subsection \<open>Options and addresses\<close>

record ('s, 'addr) socket_options =
  op_nodelay :: "'s \<Rightarrow> bool io_result"
  op_set_nodelay :: "bool \<Rightarrow> 's \<Rightarrow> unit io_result \<times> 's"
  op_ttl :: "'s \<Rightarrow> u32 io_result"
  op_set_ttl :: "u32 \<Rightarrow> 's \<Rightarrow> unit io_result \<times> 's"
  op_local_addr :: "'s \<Rightarrow> 'addr io_result"
  op_peer_addr :: "'s \<Rightarrow> 'addr io_result"

text \<open>A call of the socket under a stream that only reads it, and one that may change it.\<close>

definition ask_socket :: "('s \<Rightarrow> 'r) \<Rightarrow> nat \<Rightarrow> ('w, 's) streams \<Rightarrow> 'r" where
  "ask_socket f u m = f (st_socket (sm_streams m u))"

definition tell_socket :: "('s \<Rightarrow> 'r \<times> 's) \<Rightarrow> nat \<Rightarrow> ('w, 's) streams \<Rightarrow> 'r \<times> ('w, 's) streams" where
  "tell_socket f u m =
     (let (r, s) = f (st_socket (sm_streams m u))
      in (r, m\<lparr>sm_streams := (sm_streams m)(u := (sm_streams m u)\<lparr>st_socket := s\<rparr>)\<rparr>))"

definition stream_nodelay :: "('s, 'addr) socket_options \<Rightarrow> nat \<Rightarrow> ('w, 's) streams \<Rightarrow> bool io_result" where
  "stream_nodelay op = ask_socket (op_nodelay op)"

definition stream_set_nodelay :: "('s, 'addr) socket_options \<Rightarrow> bool \<Rightarrow> nat \<Rightarrow> ('w, 's) streams \<Rightarrow>
    unit io_result \<times> ('w, 's) streams" where
  "stream_set_nodelay op nodelay = tell_socket (op_set_nodelay op nodelay)"

definition stream_ttl :: "('s, 'addr) socket_options \<Rightarrow> nat \<Rightarrow> ('w, 's) streams \<Rightarrow> u32 io_result" where
  "stream_ttl op = ask_socket (op_ttl op)"

definition stream_set_ttl :: "('s, 'addr) socket_options \<Rightarrow> u32 \<Rightarrow> nat \<Rightarrow> ('w, 's) streams \<Rightarrow>
    unit io_result \<times> ('w, 's) streams" where
  "stream_set_ttl op ttl = tell_socket (op_set_ttl op ttl)"

definition stream_local_addr :: "('s, 'addr) socket_options \<Rightarrow> nat \<Rightarrow> ('w, 's) streams \<Rightarrow> 'addr io_result" where
  "stream_local_addr op = ask_socket (op_local_addr op)"

definition stream_peer_addr :: "('s, 'addr) socket_options \<Rightarrow> nat \<Rightarrow> ('w, 's) streams \<Rightarrow> 'addr io_result" where
  "stream_peer_addr op = ask_socket (op_peer_addr op)"

text \<open>Every writer of the crate sends several slices in one call.\<close>

definition stream_is_write_vectored :: bool where
  "stream_is_write_vectored = True"

subsection \<open>The borrowed halves\<close>

definition read_half_local_addr :: "('s, 'addr) socket_options \<Rightarrow> read_half \<Rightarrow> ('w, 's) streams \<Rightarrow> 'addr io_result" where
  "read_half_local_addr op h = stream_local_addr op (rh_stream h)"

definition read_half_peer_addr :: "('s, 'addr) socket_options \<Rightarrow> read_half \<Rightarrow> ('w, 's) streams \<Rightarrow> 'addr io_result" where
  "read_half_peer_addr op h = stream_peer_addr op (rh_stream h)"

definition read_half_as_ref :: "read_half \<Rightarrow> nat" where
  "read_half_as_ref h = rh_stream h"

definition write_half_local_addr :: "('s, 'addr) socket_options \<Rightarrow> write_half \<Rightarrow> ('w, 's) streams \<Rightarrow> 'addr io_result" where
  "write_half_local_addr op h = stream_local_addr op (wh_stream h)"

definition write_half_peer_addr :: "('s, 'addr) socket_options \<Rightarrow> write_half \<Rightarrow> ('w, 's) streams \<Rightarrow> 'addr io_result" where
  "write_half_peer_addr op h = stream_peer_addr op (wh_stream h)"

definition write_half_as_ref :: "write_half \<Rightarrow> nat" where
  "write_half_as_ref h = wh_stream h"

definition write_half_is_write_vectored :: bool where
  "write_half_is_write_vectored = True"

subsection \<open>The owned halves\<close>

text \<open>An owned half reaches its stream through its \<open>Arc\<close>.\<close>

definition owned_as_ref :: "'q owned \<Rightarrow> half \<Rightarrow> nat" where
  "owned_as_ref ow h = arc_stream ow (half_arc h)"

definition owned_local_addr :: "('s, 'addr) socket_options \<Rightarrow> 'q owned \<Rightarrow> half \<Rightarrow> ('w, 's) streams \<Rightarrow> 'addr io_result" where
  "owned_local_addr op ow h = stream_local_addr op (owned_as_ref ow h)"

definition owned_peer_addr :: "('s, 'addr) socket_options \<Rightarrow> 'q owned \<Rightarrow> half \<Rightarrow> ('w, 's) streams \<Rightarrow> 'addr io_result" where
  "owned_peer_addr op ow h = stream_peer_addr op (owned_as_ref ow h)"

definition owned_is_write_vectored :: bool where
  "owned_is_write_vectored = True"

definition owned_poll_flush :: "half \<Rightarrow> unit io_result poll" where
  "owned_poll_flush h = poll_flush_inner"

text \<open>
  \<open>OwnedReadHalf::reunite\<close> and \<open>OwnedWriteHalf::reunite\<close>: each hands itself and the other to \<open>reunite\<close>,
  whose error carries both halves.
\<close>

datatype reunite_error = Reunite_Error half half

definition reunite_result :: "half \<Rightarrow> half \<Rightarrow> nat option \<Rightarrow> reunite_error + nat" where
  "reunite_result read_half write_half r = (case r of Some u \<Rightarrow> Inr u | None \<Rightarrow> Inl (Reunite_Error read_half write_half))"

definition read_half_reunite :: "'q socket_api \<Rightarrow> half \<Rightarrow> half \<Rightarrow> 'q owned \<Rightarrow> ((reunite_error + nat) \<times> 'q owned) res" where
  "read_half_reunite so self other s =
     rbind (reunite so (half_arc self) (half_arc other) s) (\<lambda>(r, s1). Inr (reunite_result self other r, s1))"

definition write_half_reunite :: "'q socket_api \<Rightarrow> half \<Rightarrow> half \<Rightarrow> 'q owned \<Rightarrow> ((reunite_error + nat) \<times> 'q owned) res" where
  "write_half_reunite so self other s =
     rbind (reunite so (half_arc other) (half_arc self) s) (\<lambda>(r, s1). Inr (reunite_result other self r, s1))"

fun reunite_error_fmt :: "reunite_error \<Rightarrow> string" where
  "reunite_error_fmt (Reunite_Error r w) = ''tried to reunite halves that weren't from the same TcpStream''"

subsection \<open>Facts\<close>

text \<open>The documented behaviour of the options: what was set is read back, and setting one leaves the other.\<close>

definition option_laws :: "('s, 'addr) socket_options \<Rightarrow> bool" where
  "option_laws op \<longleftrightarrow>
     (\<forall>b s s'. op_set_nodelay op b s = (Inr (), s') \<longrightarrow> op_nodelay op s' = Inr b \<and> op_ttl op s' = op_ttl op s) \<and>
     (\<forall>n s s'. op_set_ttl op n s = (Inr (), s') \<longrightarrow> op_ttl op s' = Inr n \<and> op_nodelay op s' = op_nodelay op s)"

lemma ask_tell:
  "ask_socket g v (snd (tell_socket f u m)) =
     (if v = u then g (snd (f (st_socket (sm_streams m u)))) else ask_socket g v m)"
  by (simp add: ask_socket_def tell_socket_def split_def Let_def)

lemma tell_result: "fst (tell_socket f u m) = fst (f (st_socket (sm_streams m u)))"
  by (simp add: tell_socket_def split_def Let_def)

lemma tell_poller [simp]: "sm_poller (snd (tell_socket f u m)) = sm_poller m"
  by (simp add: tell_socket_def split_def Let_def)

lemma tell_pollable [simp]: "st_pollable (sm_streams (snd (tell_socket f u m)) v) = st_pollable (sm_streams m v)"
  by (simp add: tell_socket_def split_def Let_def)

lemmas option_defs = stream_nodelay_def stream_set_nodelay_def stream_ttl_def stream_set_ttl_def

text \<open>
  The options of a stream. A value that was set without an error is read back from that stream,
  setting \<open>nodelay\<close> and setting \<open>ttl\<close> do not undo each other in either order, and neither call
  touches the registration of any stream, the wakers, or the options of another stream.
\<close>

theorem options_round_trip:
  assumes laws: "option_laws op"
    and set1: "stream_set_nodelay op b u m = (Inr (), m1)"
    and set2: "stream_set_ttl op n u m1 = (Inr (), m2)"
  shows "stream_nodelay op u m2 = Inr b \<and> stream_ttl op u m2 = Inr n \<and> sm_poller m2 = sm_poller m \<and>
    (\<forall>v. st_pollable (sm_streams m2 v) = st_pollable (sm_streams m v)) \<and>
    (\<forall>v. v \<noteq> u \<longrightarrow> stream_nodelay op v m2 = stream_nodelay op v m \<and> stream_ttl op v m2 = stream_ttl op v m)"
proof -
  have m: "m1 = snd (tell_socket (op_set_nodelay op b) u m)" "m2 = snd (tell_socket (op_set_ttl op n) u m1)"
    using set1 set2 by (simp_all add: option_defs)
  let ?s = "st_socket (sm_streams m u)" and ?s1 = "st_socket (sm_streams m1 u)"
  have "op_set_nodelay op b ?s = (Inr (), snd (op_set_nodelay op b ?s))"
    using tell_result [of "op_set_nodelay op b" u m] set1 by (simp add: option_defs prod_eq_iff)
  then have one: "op_nodelay op (snd (op_set_nodelay op b ?s)) = Inr b" using laws unfolding option_laws_def by blast
  have "op_set_ttl op n ?s1 = (Inr (), snd (op_set_ttl op n ?s1))"
    using tell_result [of "op_set_ttl op n" u m1] set2 by (simp add: option_defs prod_eq_iff)
  then have two: "op_ttl op (snd (op_set_ttl op n ?s1)) = Inr n"
    "op_nodelay op (snd (op_set_ttl op n ?s1)) = op_nodelay op ?s1" using laws unfolding option_laws_def by blast+
  have "op_nodelay op ?s1 = Inr b" using one ask_tell [of "op_nodelay op" u "op_set_nodelay op b" u m]
    by (simp add: m(1) ask_socket_def)
  then have "stream_nodelay op u m2 = Inr b" "stream_ttl op u m2 = Inr n"
    using two by (simp_all add: m(2) option_defs ask_tell)
  then show ?thesis by (auto simp: m option_defs ask_tell)
qed

definition plain_options :: "(bool \<times> u32, nat) socket_options" where
  "plain_options = \<lparr>op_nodelay = (\<lambda>s. Inr (fst s)), op_set_nodelay = (\<lambda>b s. (Inr (), (b, snd s))),
     op_ttl = (\<lambda>s. Inr (snd s)), op_set_ttl = (\<lambda>n s. (Inr (), (fst s, n))),
     op_local_addr = (\<lambda>s. Inr 1), op_peer_addr = (\<lambda>s. Inr 2)\<rparr>"

definition plain_streams :: "(nat, bool \<times> u32) streams" where
  "plain_streams = \<lparr>sm_poller = np_new, sm_streams = (\<lambda>u. \<lparr>st_pollable = first_source, st_socket = (False, 64)\<rparr>)\<rparr>"

lemma plain_option_laws: "option_laws plain_options"
  by (simp add: option_laws_def plain_options_def)

theorem options_round_trip_witness:
  "\<exists>m1 m2. stream_set_nodelay plain_options True 0 plain_streams = (Inr (), m1) \<and>
     stream_set_ttl plain_options 9 0 m1 = (Inr (), m2) \<and>
     stream_nodelay plain_options 0 m2 = Inr True \<and> stream_ttl plain_options 0 m2 = Inr 9 \<and>
     stream_ttl plain_options 1 m2 = Inr 64"
proof -
  obtain m1 where m1: "stream_set_nodelay plain_options True 0 plain_streams = (Inr (), m1)"
    by (simp add: option_defs tell_socket_def plain_options_def)
  obtain m2 where m2: "stream_set_ttl plain_options 9 0 m1 = (Inr (), m2)"
    by (simp add: option_defs tell_socket_def plain_options_def)
  have "stream_ttl plain_options 1 plain_streams = Inr 64"
    by (simp add: option_defs ask_socket_def plain_options_def plain_streams_def)
  with options_round_trip [OF plain_option_laws m1 m2] m1 m2 show ?thesis by simp
qed

text \<open>The two methods that reunite differ only in which half they are called on.\<close>

lemma reunite_methods_agree: "write_half_reunite so w r s = read_half_reunite so r w s"
  by (simp add: write_half_reunite_def read_half_reunite_def)

text \<open>The addresses a half tells are those of its stream, after a split of either kind.\<close>

lemma borrowed_halves_addresses:
  "split_stream u = (r, w) \<Longrightarrow> read_half_as_ref r = u \<and> write_half_as_ref w = u \<and>
     read_half_local_addr op r = stream_local_addr op u \<and> write_half_peer_addr op w = stream_peer_addr op u"
  by (auto simp: split_stream_def read_half_as_ref_def write_half_as_ref_def read_half_local_addr_def
      write_half_peer_addr_def)

text \<open>
  Reuniting owned halves. In every state that any use of streams and halves reaches, called on
  either half with the other one: halves of different splits are handed back inside the error with nothing
  changed, no reference count among it, and nothing is shut down; halves of one split give a result
  without a panic, in which the stream is the one that both referred to.
\<close>

theorem reunite_gives_back_or_joins:
  assumes "reach (owned_step so) (owned_start n sock) s"
    and "half_at i s = Some (Read_Half a)" "half_at j s = Some (Write_Half b f)"
  shows "(a \<noteq> b \<longrightarrow>
      read_half_reunite so (Read_Half a) (Write_Half b f) s = Inr (Inl (Reunite_Error (Read_Half a) (Write_Half b f)), s)) \<and>
    (a = b \<longrightarrow> (\<exists>s'.
      read_half_reunite so (Read_Half a) (Write_Half b f) (take_half j (take_half i s)) = Inr (Inr (arc_stream s a), s') \<and>
      write_half_reunite so (Write_Half b f) (Read_Half a) (take_half j (take_half i s)) = Inr (Inr (arc_stream s a), s') \<and>
      ow_shutdowns s' = ow_shutdowns s \<and> ow_dropped s' = ow_dropped s))"
proof (cases "a = b")
  case True
  then have "half_at j s = Some (Write_Half a f)" using assms(3) by simp
  from reunite_ok(1) [OF owned.reach_inv [OF assms(1)] assms(2) this, where so = so] True show ?thesis
    by (simp add: reunite_methods_agree read_half_reunite_def reunite_result_def arc_stream_def take_half_def)
next
  case False
  then show ?thesis by (simp add: read_half_reunite_def reunite_def reunite_result_def)
qed

theorem reunite_gives_back_or_joins_witness:
  "\<exists>s s'. read_half_reunite idle_socket (Read_Half 0) (Write_Half 1 True) s =
       Inr (Inl (Reunite_Error (Read_Half 0) (Write_Half 1 True)), s) \<and>
     read_half_reunite idle_socket (Read_Half 0) (Write_Half 0 True) (take_half 1 (take_half 0 s)) = Inr (Inr 0, s') \<and>
     ow_dropped s' = []"
proof -
  obtain s where r: "run (owned_step idle_socket) (owned_start 2 ()) [Split 0, Split 1] = Some (Inr s)"
    and h: "half_at 0 s = Some (Read_Half 0)" "half_at 1 s = Some (Write_Half 0 True)"
      "half_at 3 s = Some (Write_Half 1 True)" and a: "arc_stream s 0 = 0" "ow_dropped s = []"
    by (simp add: owned_start_def split_owned_def half_at_def Let_def upt_rec arc_stream_def)
  have "read_half_reunite idle_socket (Read_Half 0) (Write_Half 1 True) s =
      Inr (Inl (Reunite_Error (Read_Half 0) (Write_Half 1 True)), s)"
    using reunite_gives_back_or_joins [OF run_reach [OF r] h(1,3)] by simp
  moreover obtain s' where "read_half_reunite idle_socket (Read_Half 0) (Write_Half 0 True)
      (take_half 1 (take_half 0 s)) = Inr (Inr 0, s')" "ow_dropped s' = []"
    using reunite_gives_back_or_joins [OF run_reach [OF r] h(1,2)] a by auto
  ultimately show ?thesis by blast
qed

end
