(* ===== verification/Runtime_System.thy ===== *)
theory Runtime_System
  imports Task Rt_Poller
begin

text \<open>
  Many tasks on many threads: the machines of \<open>Task\<close>, one for each task, with the run queues and the
  injector of \<open>Run_Queue\<close>, the scheduling of \<open>Dispatch\<close> and the pollers of \<open>Rt_Poller\<close> between them, while the threads
  take workers and give them back. Where the machine of one task counts its references in run queues, the queues
  here hold the tasks themselves, by number.
\<close>

subsection \<open>State\<close>

text \<open>
  \<open>rs_contexts k\<close> and \<open>rs_pollers k\<close> are the context and the poller of thread \<open>k\<close>, and \<open>rs_running k\<close> the task whose
  \<open>run\<close> it is inside, with the number of that call; \<open>rs_polling k\<close> tells that it is inside a poll of the timers or
  the network. \<open>rs_workers i\<close> is the producer of worker \<open>i\<close> when no thread has taken it; the runtime is executor 0.
\<close>

record ('d, 'j, 'f, 'o, 'e, 'w) rt_system =
  rs_tasks :: "('f, 'o, 'e, 'w) task_sys list"
  rs_contexts :: "nat \<Rightarrow> ('d, nat) rt_context"
  rs_pollers :: "nat \<Rightarrow> nat poller"
  rs_polling :: "nat \<Rightarrow> bool"
  rs_workers :: "nat \<Rightarrow> 'd producer option"
  rs_executors :: "'j executors"
  rs_running :: "nat \<Rightarrow> (nat \<times> nat) option"

definition rt_start :: "('d, 'j, nat) deque_api \<Rightarrow> ('d, 'j, 'f, 'o, 'e, 'w) rt_system" where
  "rt_start api = \<lparr>rs_tasks = [],
     rs_contexts = (\<lambda>k. context_enter 0), rs_pollers = (\<lambda>k. poller_default), rs_polling = (\<lambda>k. False),
     rs_workers = (\<lambda>i. Some (producer_new api)),
     rs_executors = (\<lambda>ex. \<lparr>dx_injector = da_inj_new api, dx_notifies = 0, dx_begun = 0\<rparr>),
     rs_running = (\<lambda>k. None)\<rparr>"

text \<open>
  Who spawns or pushes is \<open>Some k\<close> for thread \<open>k\<close>, and \<open>None\<close> outside the runtime. A thread with a worker looks
  for a task in the run queue of that worker, in the injector, or in the run queue of another worker, which another
  thread runs or none does.
\<close>

datatype source = From_Own bool | From_Injector | From_Thread nat | From_Idle nat

datatype ('f, 'o, 'e, 'w) rt_action =
    Spawn "nat option" 'f
  | Wake nat
  | Push nat "nat option"
  | Take nat source
  | Run nat "('f, 'o, 'e) future_outcome"
  | Join nat 'w
  | Begin_Poll nat
  | End_Poll nat
  | Pop_Ready nat
  | Inject_Ready nat
  | Get_Worker nat nat
  | Give_Worker nat

subsection \<open>Steps\<close>

definition thread_context :: "nat option \<Rightarrow> ('d, 'j, 'f, 'o, 'e, 'w) rt_system \<Rightarrow> ('d, nat) rt_context option" where
  "thread_context who s = map_option (rs_contexts s) who"

definition outside_or_thread :: "nat \<Rightarrow> nat option \<Rightarrow> bool" where
  "outside_or_thread m who = (case who of None \<Rightarrow> True | Some k \<Rightarrow> k < m)"

text \<open>A thread that is neither inside \<open>run\<close> nor inside a poll.\<close>

definition free_thread :: "nat \<Rightarrow> nat \<Rightarrow> ('d, 'j, 'f, 'o, 'e, 'w) rt_system \<Rightarrow> bool" where
  "free_thread m k s \<longleftrightarrow> k < m \<and> rs_running s k = None \<and> \<not> rs_polling s k"

definition put_dispatch :: "nat option \<Rightarrow> ('d, nat) rt_context option \<Rightarrow> 'j executors \<Rightarrow>
    ('d, 'j, 'f, 'o, 'e, 'w) rt_system \<Rightarrow> ('d, 'j, 'f, 'o, 'e, 'w) rt_system" where
  "put_dispatch who ctx xs s =
     s\<lparr>rs_contexts := (case (who, ctx) of (Some k, Some c) \<Rightarrow> (rs_contexts s)(k := c) | _ \<Rightarrow> rs_contexts s),
       rs_executors := xs\<rparr>"

definition put_task :: "nat \<Rightarrow> ('f, 'o, 'e, 'w) task_sys \<Rightarrow> ('d, 'j, 'f, 'o, 'e, 'w) rt_system \<Rightarrow>
    ('d, 'j, 'f, 'o, 'e, 'w) rt_system" where
  "put_task t task s = s\<lparr>rs_tasks := (rs_tasks s)[t := task]\<rparr>"

definition put_thread_producer :: "nat \<Rightarrow> 'd producer \<Rightarrow> ('d, 'j, 'f, 'o, 'e, 'w) rt_system \<Rightarrow>
    ('d, 'j, 'f, 'o, 'e, 'w) rt_system" where
  "put_thread_producer k p s = s\<lparr>rs_contexts := (rs_contexts s)(k := (rs_contexts s k)\<lparr>cx_producer := Some p\<rparr>)\<rparr>"

definition put_idle_producer :: "nat \<Rightarrow> 'd producer \<Rightarrow> ('d, 'j, 'f, 'o, 'e, 'w) rt_system \<Rightarrow>
    ('d, 'j, 'f, 'o, 'e, 'w) rt_system" where
  "put_idle_producer i p s = s\<lparr>rs_workers := (rs_workers s)(i := Some p)\<rparr>"

definition put_injector :: "'j \<Rightarrow> ('d, 'j, 'f, 'o, 'e, 'w) rt_system \<Rightarrow> ('d, 'j, 'f, 'o, 'e, 'w) rt_system" where
  "put_injector j s = s\<lparr>rs_executors := (rs_executors s)(0 := (rs_executors s 0)\<lparr>dx_injector := j\<rparr>)\<rparr>"

definition put_polled :: "nat \<Rightarrow> nat poller \<Rightarrow> ('d, nat) rt_context \<Rightarrow> bool \<Rightarrow>
    ('d, 'j, 'f, 'o, 'e, 'w) rt_system \<Rightarrow> ('d, 'j, 'f, 'o, 'e, 'w) rt_system" where
  "put_polled k p c polling s = s\<lparr>rs_pollers := (rs_pollers s)(k := p), rs_contexts := (rs_contexts s)(k := c),
     rs_polling := (rs_polling s)(k := polling)\<rparr>"

definition put_poller :: "nat \<Rightarrow> nat poller \<Rightarrow> 'j executors \<Rightarrow>
    ('d, 'j, 'f, 'o, 'e, 'w) rt_system \<Rightarrow> ('d, 'j, 'f, 'o, 'e, 'w) rt_system" where
  "put_poller k p xs s = s\<lparr>rs_pollers := (rs_pollers s)(k := p), rs_executors := xs\<rparr>"

definition put_hand_over :: "nat \<Rightarrow> ('d, nat) rt_context \<Rightarrow> (nat \<Rightarrow> 'd producer option) \<Rightarrow>
    ('d, 'j, 'f, 'o, 'e, 'w) rt_system \<Rightarrow> ('d, 'j, 'f, 'o, 'e, 'w) rt_system" where
  "put_hand_over k c ws s = s\<lparr>rs_contexts := (rs_contexts s)(k := c), rs_workers := ws\<rparr>"

text \<open>
  The two halves of a poll: what the thread schedules from the first to the second goes to the list that the
  poller lent to the context (\<open>poller_collect\<close>, taken apart so that other threads may move in between).
\<close>

definition begin_poll :: "'r poller \<Rightarrow> ('d, 'r) rt_context \<Rightarrow> ('r poller \<times> ('d, 'r) rt_context) res" where
  "begin_poll p c =
     rbind (rassert (cx_intercept c = None)) (\<lambda>_.
       Inr (p\<lparr>po_ready := []\<rparr>, c\<lparr>cx_intercept := Some (po_ready p)\<rparr>))"

definition end_poll :: "'r poller \<Rightarrow> ('d, 'r) rt_context \<Rightarrow> ('r poller \<times> ('d, 'r) rt_context) res" where
  "end_poll p c =
     rbind (unwrap (cx_intercept c)) (\<lambda>ready.
       Inr (p\<lparr>po_ready := ready\<rparr>, c\<lparr>cx_intercept := None\<rparr>))"

lemma poller_collect_parts:
  "poller_collect api wr ws p c xs =
     rbind (begin_poll p c) (\<lambda>(p1, c1).
     rbind (wake_tasks api wr ws c1 xs) (\<lambda>(c2, xs1).
     rbind (end_poll p1 c2) (\<lambda>(p2, c3). Inr (p2, c3, xs1))))"
  by (simp add: poller_collect_def begin_poll_def end_poll_def rbind_assoc rassert_def split_def)

text \<open>
  \<open>transition_to_running\<close> and \<open>transition_to_idle\<close> on the producer itself; whose index it is, and the count of
  searching threads, are in \<open>Scheduler\<close>.
\<close>

definition worker_to_running :: "nat \<Rightarrow> ('d, 'r) rt_context \<Rightarrow> (nat \<Rightarrow> 'd producer option) \<Rightarrow>
    (('d, 'r) rt_context \<times> (nat \<Rightarrow> 'd producer option)) res" where
  "worker_to_running i c ws =
     rbind (rassert (cx_worker c = None)) (\<lambda>_.
     rbind (unwrap (ws i)) (\<lambda>producer.
       if cx_producer c \<noteq> None then Inl Unreachable
       else Inr (c\<lparr>cx_worker := Some i, cx_producer := Some producer\<rparr>, ws(i := None))))"

definition worker_to_idle :: "nat \<Rightarrow> ('d, 'r) rt_context \<Rightarrow> (nat \<Rightarrow> 'd producer option) \<Rightarrow>
    (('d, 'r) rt_context \<times> (nat \<Rightarrow> 'd producer option)) res" where
  "worker_to_idle i c ws =
     rbind (unwrap (cx_producer c)) (\<lambda>producer.
       if ws i \<noteq> None then Inl Unreachable
       else rbind (rassert (cx_worker c = Some i)) (\<lambda>_.
         Inr (c\<lparr>cx_worker := None, cx_producer := None\<rparr>, ws(i := Some producer))))"

text \<open>
  The queues after thread \<open>k\<close> with producer \<open>p\<close> has looked into a source, and the task it got.
  \<open>None\<close> is a step that is not possible, or does not end.
\<close>

definition take_from :: "('d, 'j, nat) deque_api \<Rightarrow> nat \<Rightarrow> nat \<Rightarrow> nat \<Rightarrow> 'd producer \<Rightarrow> source \<Rightarrow>
    ('d, 'j, 'f, 'o, 'e, 'w) rt_system \<Rightarrow> (nat option \<times> ('d, 'j, 'f, 'o, 'e, 'w) rt_system) option" where
  "take_from api m n k p src s =
     (case src of
        From_Own be_fair \<Rightarrow> map_option (\<lambda>(r, p'). (r, put_thread_producer k p' s)) (producer_pop api be_fair p)
      | From_Injector \<Rightarrow>
          let (st, j, p') = producer_consume api (dx_injector (rs_executors s 0)) p
          in Some (steal_success st, put_thread_producer k p' (put_injector j s))
      | From_Thread l \<Rightarrow>
          if l < m \<and> l \<noteq> k
          then case cx_producer (rs_contexts s l) of
                 None \<Rightarrow> None
               | Some q \<Rightarrow>
                   let (st, d, p') = producer_steal api (pr_deque q) p
                   in Some (steal_success st, put_thread_producer k p' (put_thread_producer l (q\<lparr>pr_deque := d\<rparr>) s))
          else None
      | From_Idle i \<Rightarrow>
          if i < n
          then case rs_workers s i of
                 None \<Rightarrow> None
               | Some q \<Rightarrow>
                   let (st, d, p') = producer_steal api (pr_deque q) p
                   in Some (steal_success st, put_thread_producer k p' (put_idle_producer i (q\<lparr>pr_deque := d\<rparr>) s))
          else None)"

text \<open>
  \<open>run\<close> is called on the task a thread took. That a taken task is one its machine has a reference to
  is not a check of the code; it is shown to hold.
\<close>

definition begin_run :: "nat \<Rightarrow> nat option \<Rightarrow> ('d, 'j, 'f, 'o, 'e, 'w) rt_system \<Rightarrow>
    ('d, 'j, 'f, 'o, 'e, 'w) rt_system res" where
  "begin_run w r s =
     (case r of
        None \<Rightarrow> Inr s
      | Some t \<Rightarrow>
          if t < length (rs_tasks s)
          then case task_pop (rs_tasks s ! t) of
                 None \<Rightarrow> Inl Unreachable
               | Some task \<Rightarrow>
                   Inr (put_task t task (s\<lparr>rs_running := (rs_running s)(w := Some (t, length (tk_runners task) - 1))\<rparr>))
          else Inl Unreachable)"

text \<open>The thread returns from \<open>run\<close> when the call has nothing left to do.\<close>

definition end_run :: "nat \<Rightarrow> nat \<Rightarrow> nat \<Rightarrow> ('d, 'j, 'f, 'o, 'e, 'w) rt_system \<Rightarrow>
    ('d, 'j, 'f, 'o, 'e, 'w) rt_system" where
  "end_run w t i s =
     (case tk_runners (rs_tasks s ! t) ! i of
        R_Done \<Rightarrow> s\<lparr>rs_running := (rs_running s)(w := None)\<rparr>
      | _ \<Rightarrow> s)"

text \<open>The step of \<open>run\<close> that reschedules a task which was woken meanwhile is also one of the executor.\<close>

definition pushes :: "nat \<Rightarrow> ('f, 'o, 'e, 'w) task_sys \<Rightarrow> bool" where
  "pushes i task \<longleftrightarrow> i < length (tk_runners task) \<and> (case tk_runners task ! i of R_Push \<Rightarrow> True | _ \<Rightarrow> False)"

fun rt_step :: "('d, 'j, nat) deque_api \<Rightarrow> nat \<Rightarrow> nat \<Rightarrow> ('f, 'o, 'e, 'w) rt_action \<Rightarrow>
    ('d, 'j, 'f, 'o, 'e, 'w) rt_system \<Rightarrow> ('d, 'j, 'f, 'o, 'e, 'w) rt_system res option" where
  "rt_step api m n (Spawn who f) s =
     (if outside_or_thread m who
      then Some (rbind (task_spawn f) (\<lambda>task.
             rbind (task_spawn_on api 0 (length (rs_tasks s)) (thread_context who s) (rs_executors s))
               (\<lambda>(st, ctx, xs). Inr (put_dispatch who ctx xs (s\<lparr>rs_tasks := rs_tasks s @ [task]\<rparr>)))))
      else None)"
| "rt_step api m n (Wake t) s =
     (if t < length (rs_tasks s) then Some (Inr (put_task t (task_wake (rs_tasks s ! t)) s)) else None)"
| "rt_step api m n (Push t who) s =
     (if outside_or_thread m who \<and> t < length (rs_tasks s)
      then map_option (\<lambda>task.
             rbind (task_schedule api 0 t (thread_context who s) (rs_executors s)) (\<lambda>(ctx, xs).
               Inr (put_dispatch who ctx xs (put_task t task s)))) (task_push (rs_tasks s ! t))
      else None)"
| "rt_step api m n (Take k src) s =
     (if free_thread m k s
      then case cx_producer (rs_contexts s k) of
             None \<Rightarrow> None
           | Some p \<Rightarrow> map_option (\<lambda>(r, s'). begin_run k r s') (take_from api m n k p src s)
      else None)"
| "rt_step api m n (Run k out) s =
     (case rs_running s k of
        None \<Rightarrow> None
      | Some (t, i) \<Rightarrow>
          map_option (\<lambda>result. rbind result (\<lambda>task.
             if pushes i (rs_tasks s ! t)
             then rbind (executor_schedule api 0 t (Some (rs_contexts s k)) True (rs_executors s)) (\<lambda>(ctx, xs).
                    Inr (end_run k t i (put_dispatch (Some k) ctx xs (put_task t task s))))
             else Inr (end_run k t i (put_task t task s)))) (task_run i out (rs_tasks s ! t)))"
| "rt_step api m n (Join t c) s =
     (if t < length (rs_tasks s)
      then map_option (\<lambda>result. rbind result (\<lambda>task. Inr (put_task t task s))) (join_step c (rs_tasks s ! t))
      else None)"
| "rt_step api m n (Begin_Poll k) s =
     (if free_thread m k s
      then Some (rbind (begin_poll (rs_pollers s k) (rs_contexts s k)) (\<lambda>(p, c). Inr (put_polled k p c True s)))
      else None)"
| "rt_step api m n (End_Poll k) s =
     (if k < m \<and> rs_polling s k
      then Some (rbind (end_poll (rs_pollers s k) (rs_contexts s k)) (\<lambda>(p, c). Inr (put_polled k p c False s)))
      else None)"
| "rt_step api m n (Pop_Ready k) s =
     (if free_thread m k s \<and> cx_worker (rs_contexts s k) \<noteq> None
      then let (r, p, xs) = pop_and_inject api 0 (rs_pollers s k) (rs_executors s)
           in Some (begin_run k r (put_poller k p xs s))
      else None)"
| "rt_step api m n (Inject_Ready k) s =
     (if free_thread m k s
      then let (p, xs) = poller_inject api 0 (rs_pollers s k) (rs_executors s) in Some (Inr (put_poller k p xs s))
      else None)"
| "rt_step api m n (Get_Worker k i) s =
     (if free_thread m k s \<and> cx_worker (rs_contexts s k) = None \<and> i < n \<and> rs_workers s i \<noteq> None
      then let (r, p, xs) = pop_and_inject api 0 (rs_pollers s k) (rs_executors s)
           in Some (rbind (worker_to_running i (rs_contexts s k) (rs_workers s)) (\<lambda>(c, ws).
                begin_run k r (put_hand_over k c ws (put_poller k p xs s))))
      else None)"
| "rt_step api m n (Give_Worker k) s =
     (if free_thread m k s
      then map_option (\<lambda>i. rbind (worker_to_idle i (rs_contexts s k) (rs_workers s)) (\<lambda>(c, ws).
             Inr (put_hand_over k c ws s))) (cx_worker (rs_contexts s k))
      else None)"

subsection \<open>The queues\<close>

text \<open>All tasks: those of the threads, in the run queues at rest, and in the injector.\<close>

definition thread_tasks :: "('d \<Rightarrow> nat list) \<Rightarrow> ('d, nat) rt_context \<Rightarrow> nat poller \<Rightarrow> nat multiset" where
  "thread_tasks contents c p = context_tasks contents (Some c) + mset (po_ready p)"

definition idle_tasks :: "('d \<Rightarrow> nat list) \<Rightarrow> 'd producer option \<Rightarrow> nat multiset" where
  "idle_tasks contents q = (case q of Some p \<Rightarrow> mset (contents (pr_deque p)) | None \<Rightarrow> {#})"

definition runtime_tasks :: "('d \<Rightarrow> nat list) \<Rightarrow> ('j \<Rightarrow> nat list) \<Rightarrow> nat \<Rightarrow> nat \<Rightarrow>
    ('d, 'j, 'f, 'o, 'e, 'w) rt_system \<Rightarrow> nat multiset" where
  "runtime_tasks contents injected m n s =
     (\<Sum>k<m. thread_tasks contents (rs_contexts s k) (rs_pollers s k)) + (\<Sum>i<n. idle_tasks contents (rs_workers s i)) +
     injector_tasks injected 0 (rs_executors s)"

subsection \<open>The invariant\<close>

text \<open>The context of a thread: of this runtime, with a producer exactly when it has a worker.\<close>

definition context_ok :: "bool \<Rightarrow> ('d, nat) rt_context \<Rightarrow> bool" where
  "context_ok polling c \<longleftrightarrow> cx_executor c = 0 \<and> (cx_intercept c \<noteq> None \<longleftrightarrow> polling) \<and>
     (cx_producer c = None \<longleftrightarrow> cx_worker c = None)"

text \<open>A poller has lent its list during a poll, and a thread inside \<open>run\<close> has a worker and does not poll.\<close>

definition thread_ok :: "bool \<Rightarrow> ('d, nat) rt_context \<Rightarrow> nat poller \<Rightarrow> (nat \<times> nat) option \<Rightarrow> bool" where
  "thread_ok polling c p call \<longleftrightarrow> context_ok polling c \<and> (polling \<longrightarrow> po_ready p = []) \<and>
     (call \<noteq> None \<longrightarrow> cx_worker c \<noteq> None \<and> \<not> polling)"

text \<open>Every worker is at rest or one thread has it.\<close>

definition owners :: "nat \<Rightarrow> nat \<Rightarrow> (nat \<Rightarrow> nat option) \<Rightarrow> (nat \<Rightarrow> 'p option) \<Rightarrow> bool" where
  "owners m n worker rest \<longleftrightarrow>
     (\<forall>k i. worker k = Some i \<longrightarrow> k < m \<and> i < n \<and> rest i = None) \<and>
     (\<forall>k l i. worker k = Some i \<and> worker l = Some i \<longrightarrow> k = l) \<and>
     (\<forall>i < n. rest i \<noteq> None \<or> (\<exists>k. worker k = Some i))"

definition threads_ok :: "nat \<Rightarrow> nat \<Rightarrow> ('d, 'j, 'f, 'o, 'e, 'w) rt_system \<Rightarrow> bool" where
  "threads_ok m n s \<longleftrightarrow>
     (\<forall>k. thread_ok (rs_polling s k) (rs_contexts s k) (rs_pollers s k) (rs_running s k)) \<and>
     owners m n (\<lambda>k. cx_worker (rs_contexts s k)) (rs_workers s)"

text \<open>A thread that runs a task is inside a call of \<open>run\<close> that is not over, and no other thread is.\<close>

definition running_ok :: "nat \<Rightarrow> ('d, 'j, 'f, 'o, 'e, 'w) rt_system \<Rightarrow> bool" where
  "running_ok m s \<longleftrightarrow>
     (\<forall>w t i. rs_running s w = Some (t, i) \<longrightarrow>
        w < m \<and> t < length (rs_tasks s) \<and> i < length (tk_runners (rs_tasks s ! t)) \<and>
        tk_runners (rs_tasks s ! t) ! i \<noteq> R_Done) \<and>
     (\<forall>w v. rs_running s w = rs_running s v \<and> rs_running s w \<noteq> None \<longrightarrow> w = v)"

text \<open>The queues hold a task as often as its machine counts.\<close>

definition rt_inv :: "('d \<Rightarrow> nat list) \<Rightarrow> ('j \<Rightarrow> nat list) \<Rightarrow> nat \<Rightarrow> nat \<Rightarrow>
    ('d, 'j, 'f, 'o, 'e, 'w) rt_system \<Rightarrow> bool" where
  "rt_inv contents injected m n s \<longleftrightarrow> threads_ok m n s \<and> running_ok m s \<and>
     (\<forall>t < length (rs_tasks s). \<exists>f. reach task_step (task_spawned f) (rs_tasks s ! t)) \<and>
     (\<forall>t. count (runtime_tasks contents injected m n s) t =
        (if t < length (rs_tasks s) then tk_queued (rs_tasks s ! t) else 0))"

end
