(* ===== verification/Runtime_Proofs.thy ===== *)
theory Runtime_Proofs
  imports Runtime_System
begin

text \<open>
  Every step of the whole runtime keeps its invariant: scheduling adds a task to the queues once, looking into a
  queue removes the task it gives, polls and the hand-over of workers move tasks without losing any, and a thread
  stays inside the call of \<open>run\<close> it made.
\<close>

subsection \<open>Counting what moves\<close>

lemma sum_update:
  fixes f g :: "nat \<Rightarrow> 'a multiset"
  assumes "k < n" "\<And>j. j \<noteq> k \<Longrightarrow> f j = g j"
  shows "sum f {..<n} + g k = sum g {..<n} + f k"
proof -
  have "sum f ({..<n} - {k}) = sum g ({..<n} - {k})"
    by (rule sum.cong) (use assms(2) in auto)
  then show ?thesis using assms(1) by (simp add: sum.remove [of "{..<n}" k] ac_simps)
qed

text \<open>Three places, of which two are parts of sums, before and after a step that adds \<open>A\<close> and takes \<open>R\<close>.\<close>

lemma places_move:
  fixes T :: "'a multiset"
  assumes "T' + t = T + t'" "W' + w = W + w'" "t' + w' + I' + R = t + w + I + A"
  shows "T' + W' + I' + R = T + W + I + A"
proof (rule multiset_eqI)
  fix x
  show "count (T' + W' + I' + R) x = count (T + W + I + A) x"
    using assms unfolding multiset_eq_iff by (auto dest!: spec [where x = x])
qed

lemma rt_frames [simp]:
  "runtime_tasks contents injected m n (s\<lparr>rs_tasks := ts\<rparr>) = runtime_tasks contents injected m n s"
  "runtime_tasks contents injected m n (s\<lparr>rs_running := rn\<rparr>) = runtime_tasks contents injected m n s"
  "runtime_tasks contents injected m n (put_task t task s) = runtime_tasks contents injected m n s"
  "runtime_tasks contents injected m n (end_run k t i s) = runtime_tasks contents injected m n s"
  by (simp_all add: runtime_tasks_def put_task_def end_run_def split: runner_pc.splits)

lemmas put_defs = put_task_def put_dispatch_def put_thread_producer_def put_idle_producer_def put_injector_def
  put_polled_def put_poller_def put_hand_over_def

lemma put_frames [simp]:
  "rs_tasks (put_task t task s) = (rs_tasks s)[t := task]"
  "rs_contexts (put_task t task s) = rs_contexts s"
  "rs_pollers (put_task t task s) = rs_pollers s"
  "rs_polling (put_task t task s) = rs_polling s"
  "rs_workers (put_task t task s) = rs_workers s"
  "rs_executors (put_task t task s) = rs_executors s"
  "rs_running (put_task t task s) = rs_running s"
  "rs_tasks (put_dispatch who ctx xs s) = rs_tasks s"
  "rs_running (put_dispatch who ctx xs s) = rs_running s"
  "rs_pollers (put_dispatch who ctx xs s) = rs_pollers s"
  "rs_polling (put_dispatch who ctx xs s) = rs_polling s"
  "rs_workers (put_dispatch who ctx xs s) = rs_workers s"
  "rs_executors (put_dispatch who ctx xs s) = xs"
  "rs_tasks (put_polled k p c pol s) = rs_tasks s"
  "rs_running (put_polled k p c pol s) = rs_running s"
  "rs_tasks (put_poller k p xs s) = rs_tasks s"
  "rs_running (put_poller k p xs s) = rs_running s"
  "rs_tasks (put_hand_over k c ws s) = rs_tasks s"
  "rs_running (put_hand_over k c ws s) = rs_running s"
  "rs_tasks (end_run k t i s) = rs_tasks s"
  "rs_contexts (end_run k t i s) = rs_contexts s"
  "rs_polling (end_run k t i s) = rs_polling s"
  "rs_workers (end_run k t i s) = rs_workers s"
  by (simp_all add: put_defs end_run_def split: runner_pc.splits)

text \<open>A step that moves tasks at one thread, at one worker at rest and in the injector.\<close>

lemma thread_step_tasks:
  assumes "k < m" "\<And>j. j \<noteq> k \<Longrightarrow> rs_contexts s' j = rs_contexts s j \<and> rs_pollers s' j = rs_pollers s j"
    and "rs_workers s' = rs_workers s"
    and "thread_tasks contents (rs_contexts s' k) (rs_pollers s' k) + injector_tasks injected 0 (rs_executors s') + R =
      thread_tasks contents (rs_contexts s k) (rs_pollers s k) + injector_tasks injected 0 (rs_executors s) + A"
  shows "runtime_tasks contents injected m n s' + R = runtime_tasks contents injected m n s + A"
  unfolding runtime_tasks_def
proof (rule places_move)
  show "(\<Sum>k<m. thread_tasks contents (rs_contexts s' k) (rs_pollers s' k)) + thread_tasks contents (rs_contexts s k) (rs_pollers s k) =
      (\<Sum>k<m. thread_tasks contents (rs_contexts s k) (rs_pollers s k)) + thread_tasks contents (rs_contexts s' k) (rs_pollers s' k)"
    by (rule sum_update) (use assms in simp_all)
  show "(\<Sum>i<n. idle_tasks contents (rs_workers s' i)) + {#} = (\<Sum>i<n. idle_tasks contents (rs_workers s i)) + {#}"
    using assms(3) by simp
qed (use assms(4) in simp)

lemma worker_step_tasks:
  assumes "k < m" "\<And>j. j \<noteq> k \<Longrightarrow> rs_contexts s' j = rs_contexts s j \<and> rs_pollers s' j = rs_pollers s j"
    and "i < n" "\<And>j. j \<noteq> i \<Longrightarrow> rs_workers s' j = rs_workers s j"
    and "thread_tasks contents (rs_contexts s' k) (rs_pollers s' k) + idle_tasks contents (rs_workers s' i) +
        injector_tasks injected 0 (rs_executors s') + R =
      thread_tasks contents (rs_contexts s k) (rs_pollers s k) + idle_tasks contents (rs_workers s i) +
        injector_tasks injected 0 (rs_executors s) + A"
  shows "runtime_tasks contents injected m n s' + R = runtime_tasks contents injected m n s + A"
  unfolding runtime_tasks_def
proof (rule places_move)
  show "(\<Sum>k<m. thread_tasks contents (rs_contexts s' k) (rs_pollers s' k)) + thread_tasks contents (rs_contexts s k) (rs_pollers s k) =
      (\<Sum>k<m. thread_tasks contents (rs_contexts s k) (rs_pollers s k)) + thread_tasks contents (rs_contexts s' k) (rs_pollers s' k)"
    by (rule sum_update) (use assms in simp_all)
  show "(\<Sum>i<n. idle_tasks contents (rs_workers s' i)) + idle_tasks contents (rs_workers s i) =
      (\<Sum>i<n. idle_tasks contents (rs_workers s i)) + idle_tasks contents (rs_workers s' i)"
    by (rule sum_update) (use assms in simp_all)
qed (use assms(5) in simp)

subsection \<open>Contexts and workers\<close>

text \<open>Steps that leave the threads with the workers they have.\<close>

definition context_like :: "('d, nat) rt_context \<Rightarrow> ('d, nat) rt_context \<Rightarrow> bool" where
  "context_like c c' \<longleftrightarrow> cx_executor c' = cx_executor c \<and> cx_worker c' = cx_worker c \<and>
     (cx_producer c' = None \<longleftrightarrow> cx_producer c = None) \<and> (cx_intercept c' = None \<longleftrightarrow> cx_intercept c = None)"

definition same_threads :: "('d, 'j, 'f, 'o, 'e, 'w) rt_system \<Rightarrow> ('d, 'j, 'f, 'o, 'e, 'w) rt_system \<Rightarrow> bool" where
  "same_threads s s' \<longleftrightarrow> (\<forall>k. context_like (rs_contexts s k) (rs_contexts s' k)) \<and>
     (\<forall>i. rs_workers s' i = None \<longleftrightarrow> rs_workers s i = None) \<and> rs_polling s' = rs_polling s \<and>
     rs_pollers s' = rs_pollers s"

lemma context_like_refl [simp]: "context_like c c"
  by (simp add: context_like_def)

lemma context_like_producer [simp]: "cx_producer c \<noteq> None \<Longrightarrow> context_like c (c\<lparr>cx_producer := Some p\<rparr>)"
  by (simp add: context_like_def)

lemma same_threads_put_task [simp]: "same_threads s (put_task t task s)"
  by (simp add: same_threads_def)

lemma same_threads_trans: "same_threads s s' \<Longrightarrow> same_threads s' s'' \<Longrightarrow> same_threads s s''"
  by (simp add: same_threads_def context_like_def)

lemma owners_rest:
  assumes "owners m n worker rest" "\<And>i. rest' i = None \<longleftrightarrow> rest i = None"
  shows "owners m n worker rest'"
  using assms unfolding owners_def by metis

lemma ownersI:
  assumes "\<And>k i. worker k = Some i \<Longrightarrow> k < m \<and> i < n \<and> rest i = None"
    and "\<And>k l i. worker k = Some i \<Longrightarrow> worker l = Some i \<Longrightarrow> k = l"
    and "\<And>i. i < n \<Longrightarrow> rest i \<noteq> None \<or> (\<exists>k. worker k = Some i)"
  shows "owners m n worker rest"
  unfolding owners_def using assms by blast

lemma owners_get:
  assumes own: "owners m n worker rest" and k: "k < m" "worker k = None" and i: "i < n" "rest i \<noteq> None"
  shows "owners m n (worker(k := Some i)) (rest(i := None))"
proof -
  have none: "worker l \<noteq> Some i" for l using own i(2) by (auto simp: owners_def)
  have "l < m \<and> j < n \<and> (rest(i := None)) j = None" if "(worker(k := Some i)) l = Some j" for l j
    using that own k(1) i(1) by (auto simp: owners_def split: if_splits)
  moreover have "l = l'" if "(worker(k := Some i)) l = Some j" "(worker(k := Some i)) l' = Some j" for l l' j
    using that none own by (auto simp: owners_def split: if_splits)
  moreover have "(rest(i := None)) j \<noteq> None \<or> (\<exists>l. (worker(k := Some i)) l = Some j)" if "j < n" for j
  proof (cases "j = i")
    case False
    have there: "(worker(k := Some i)) l = Some j" if "worker l = Some j" for l using that k(2) by auto
    show ?thesis
    proof (cases "rest j = None")
      case True
      then obtain l where "worker l = Some j" using own \<open>j < n\<close> unfolding owners_def by blast
      from there [OF this] show ?thesis by blast
    qed (use False in simp)
  qed auto
  ultimately show ?thesis by (rule ownersI)
qed

lemma owners_give:
  assumes own: "owners m n worker rest" and k: "worker k = Some i"
  shows "owners m n (worker(k := None)) (rest(i := Some p))"
proof -
  have only: "worker l = Some i \<Longrightarrow> l = k" for l using own k by (auto simp: owners_def)
  have "l < m \<and> j < n \<and> (rest(i := Some p)) j = None" if "(worker(k := None)) l = Some j" for l j
    using that own only by (auto simp: owners_def split: if_splits)
  moreover have "l = l'" if "(worker(k := None)) l = Some j" "(worker(k := None)) l' = Some j" for l l' j
    using that own by (auto simp: owners_def split: if_splits)
  moreover have "(rest(i := Some p)) j \<noteq> None \<or> (\<exists>l. (worker(k := None)) l = Some j)" if "j < n" for j
  proof (cases "j = i")
    case False
    have there: "(worker(k := None)) l = Some j" if "worker l = Some j" for l using that k False by auto
    show ?thesis
    proof (cases "rest j = None")
      case True
      then obtain l where "worker l = Some j" using own \<open>j < n\<close> unfolding owners_def by blast
      from there [OF this] show ?thesis by blast
    qed (use False in simp)
  qed auto
  ultimately show ?thesis by (rule ownersI)
qed

lemma threads_okI:
  assumes "threads_ok m n s"
    and "\<And>l. l \<noteq> k \<Longrightarrow> rs_polling s' l = rs_polling s l \<and> rs_contexts s' l = rs_contexts s l \<and>
      rs_pollers s' l = rs_pollers s l \<and> rs_running s' l = rs_running s l"
    and "thread_ok (rs_polling s' k) (rs_contexts s' k) (rs_pollers s' k) (rs_running s' k)"
    and "owners m n (\<lambda>l. cx_worker (rs_contexts s' l)) (rs_workers s')"
  shows "threads_ok m n s'"
proof -
  have "thread_ok (rs_polling s' l) (rs_contexts s' l) (rs_pollers s' l) (rs_running s' l)" for l
    using assms(1-3) by (cases "l = k") (simp_all add: threads_ok_def)
  then show ?thesis using assms(4) by (simp add: threads_ok_def)
qed

lemma threads_ok_same:
  assumes ok: "threads_ok m n s" and same: "same_threads s s'"
    and run: "\<And>k. rs_running s' k \<noteq> None \<Longrightarrow> rs_running s k \<noteq> None \<or>
      cx_worker (rs_contexts s k) \<noteq> None \<and> \<not> rs_polling s k"
  shows "threads_ok m n s'"
proof -
  have like: "context_like (rs_contexts s k) (rs_contexts s' k)" "rs_polling s' = rs_polling s"
    "rs_pollers s' = rs_pollers s" for k
    using same by (simp_all add: same_threads_def)
  have "thread_ok (rs_polling s k) (rs_contexts s k) (rs_pollers s k) (rs_running s k)" for k
    using ok by (simp add: threads_ok_def)
  then have "thread_ok (rs_polling s' k) (rs_contexts s' k) (rs_pollers s' k) (rs_running s' k)" for k
    using like(1) [of k] like(2,3) run [of k] unfolding thread_ok_def context_ok_def context_like_def by metis
  moreover have "(\<lambda>k. cx_worker (rs_contexts s' k)) = (\<lambda>k. cx_worker (rs_contexts s k))"
    using like(1) by (simp add: context_like_def)
  moreover have "owners m n (\<lambda>k. cx_worker (rs_contexts s k)) (rs_workers s')"
    by (rule owners_rest) (use ok same in \<open>simp_all add: threads_ok_def same_threads_def\<close>)
  ultimately show ?thesis by (simp add: threads_ok_def)
qed

lemma threads_ok_at:
  assumes "threads_ok m n s"
  shows "context_ok (rs_polling s k) (rs_contexts s k)"
    "rs_polling s k \<Longrightarrow> po_ready (rs_pollers s k) = [] \<and> rs_running s k = None"
    "cx_producer (rs_contexts s k) = None \<longleftrightarrow> cx_worker (rs_contexts s k) = None"
    "cx_worker (rs_contexts s k) = Some i \<Longrightarrow> k < m \<and> i < n \<and> rs_workers s i = None"
proof -
  have "thread_ok (rs_polling s k) (rs_contexts s k) (rs_pollers s k) (rs_running s k)"
    using assms by (simp add: threads_ok_def)
  then show "context_ok (rs_polling s k) (rs_contexts s k)"
    "rs_polling s k \<Longrightarrow> po_ready (rs_pollers s k) = [] \<and> rs_running s k = None"
    "cx_producer (rs_contexts s k) = None \<longleftrightarrow> cx_worker (rs_contexts s k) = None"
    unfolding thread_ok_def context_ok_def by blast+
qed (use assms in \<open>auto simp: threads_ok_def owners_def\<close>)

subsection \<open>The queues\<close>

text \<open>Scheduling adds the task once: to the list of a poll, to a run queue or to the injector.\<close>

lemma schedule_context:
  assumes laws: "deque_laws api contents injected" and c: "cx_executor c = 0"
  shows "\<exists>c' xs'. executor_schedule api 0 r (Some c) be_fair xs = Inr (Some c', xs') \<and> context_like c c' \<and>
    context_tasks contents (Some c') + injector_tasks injected 0 xs' =
      add_mset r (context_tasks contents (Some c) + injector_tasks injected 0 xs)"
proof -
  obtain ctx' xs' where run: "executor_schedule api 0 r (Some c) be_fair xs = Inr (ctx', xs')"
    using executor_schedule_tasks [OF laws, where ex = 0 and r = r and ctx = "Some c" and be_fair = be_fair and xs = xs] c
    by (cases "executor_schedule api 0 r (Some c) be_fair xs") auto
  then obtain c' where "ctx' = Some c'" "context_like c c'"
    by (auto simp: executor_schedule_def context_like_def rassert_def split: option.splits if_splits)
  then show ?thesis using run executor_schedule_tasks [OF laws, where ex = 0 and r = r and ctx = "Some c" and be_fair = be_fair and xs = xs] by simp
qed

lemma schedule_queues:
  assumes laws: "deque_laws api contents injected" and ok: "threads_ok m n s"
    and who: "outside_or_thread m who" and inj: "injector_tasks injected 0 xs = injector_tasks injected 0 (rs_executors s)"
  shows "\<exists>ctx' xs'. executor_schedule api 0 r (thread_context who s) be_fair xs = Inr (ctx', xs') \<and>
    same_threads s (put_dispatch who ctx' xs' s) \<and>
    runtime_tasks contents injected m n (put_dispatch who ctx' xs' s) =
      add_mset r (runtime_tasks contents injected m n s)"
proof (cases who)
  case None
  then show ?thesis
    using inj executor_inject_tasks(1) [OF laws, of 0 0 "[r]" xs]
    by (simp add: thread_context_def executor_schedule_def put_dispatch_def runtime_tasks_def same_threads_def)
next
  case (Some k)
  then have k: "k < m" using who by (simp add: outside_or_thread_def)
  have "cx_executor (rs_contexts s k) = 0" using threads_ok_at(1) [OF ok, of k] by (simp add: context_ok_def)
  from schedule_context [OF laws this] obtain c' xs' where
    run: "executor_schedule api 0 r (Some (rs_contexts s k)) be_fair xs = Inr (Some c', xs')"
    and like: "context_like (rs_contexts s k) c'"
    and q: "context_tasks contents (Some c') + injector_tasks injected 0 xs' =
      add_mset r (context_tasks contents (Some (rs_contexts s k)) + injector_tasks injected 0 xs)" by blast
  let ?s = "put_dispatch who (Some c') xs' s"
  have "runtime_tasks contents injected m n ?s + {#} = runtime_tasks contents injected m n s + {#r#}"
    by (rule thread_step_tasks [OF k]) (use Some q inj in \<open>simp_all add: put_dispatch_def thread_tasks_def ac_simps\<close>)
  moreover have "same_threads s ?s"
    using like Some by (simp add: same_threads_def put_dispatch_def)
  ultimately show ?thesis using run Some by (auto simp: thread_context_def)
qed

lemma context_tasks_producer:
  assumes "cx_producer c = Some p"
  shows "context_tasks contents (Some (c\<lparr>cx_producer := Some p'\<rparr>)) + mset (contents (pr_deque p)) =
    context_tasks contents (Some c) + mset (contents (pr_deque p'))"
  using assms by (simp add: context_tasks_def)

text \<open>Another producer for a thread, with the tasks that moved in or out of its run queue.\<close>

lemma put_thread_producer_tasks:
  assumes "k < m" "cx_producer (rs_contexts s k) = Some p"
    and "mset (contents (pr_deque p')) + R = mset (contents (pr_deque p)) + A"
  shows "runtime_tasks contents injected m n (put_thread_producer k p' s) + R = runtime_tasks contents injected m n s + A"
proof (rule thread_step_tasks [OF assms(1)])
  have "context_tasks contents (Some (rs_contexts (put_thread_producer k p' s) k)) + R =
      context_tasks contents (Some (rs_contexts s k)) + A"
    using assms(2,3) by (simp add: context_tasks_def put_thread_producer_def ac_simps)
  then show "thread_tasks contents (rs_contexts (put_thread_producer k p' s) k) (rs_pollers (put_thread_producer k p' s) k) +
        injector_tasks injected 0 (rs_executors (put_thread_producer k p' s)) + R =
      thread_tasks contents (rs_contexts s k) (rs_pollers s k) + injector_tasks injected 0 (rs_executors s) + A"
    by (simp add: thread_tasks_def put_thread_producer_def add.assoc add.left_commute [of _ R] add.left_commute [of _ A])
qed (simp_all add: put_thread_producer_def)

lemma put_injector_tasks:
  "runtime_tasks contents injected m n (put_injector j s) + mset (injected (dx_injector (rs_executors s 0))) =
     runtime_tasks contents injected m n s + mset (injected j)"
  by (simp add: runtime_tasks_def put_injector_def injector_tasks_def ac_simps)

lemma put_idle_producer_tasks:
  assumes "i < n" "rs_workers s i = Some q"
  shows "runtime_tasks contents injected m n (put_idle_producer i q' s) + mset (contents (pr_deque q)) =
    runtime_tasks contents injected m n s + mset (contents (pr_deque q'))"
proof -
  have "(\<Sum>j<n. idle_tasks contents (rs_workers (put_idle_producer i q' s) j)) + idle_tasks contents (rs_workers s i) =
      (\<Sum>j<n. idle_tasks contents (rs_workers s j)) + idle_tasks contents (rs_workers (put_idle_producer i q' s) i)"
    by (rule sum_update [OF assms(1)]) (simp add: put_idle_producer_def)
  then show ?thesis
    using assms(2) by (simp add: runtime_tasks_def put_idle_producer_def idle_tasks_def)
qed

lemma same_threads_producer:
  "cx_producer (rs_contexts s k) \<noteq> None \<Longrightarrow> same_threads s (put_thread_producer k p s)"
  by (simp add: same_threads_def put_thread_producer_def)

lemma same_threads_idle: "rs_workers s i \<noteq> None \<Longrightarrow> same_threads s (put_idle_producer i p s)"
  by (auto simp: same_threads_def put_idle_producer_def)

lemma same_threads_injector: "same_threads s (put_injector j s)"
  by (simp add: same_threads_def put_injector_def)

lemma put_queue_frames [simp]:
  "rs_tasks (put_thread_producer k p s) = rs_tasks s" "rs_running (put_thread_producer k p s) = rs_running s"
  "rs_tasks (put_idle_producer i p s) = rs_tasks s" "rs_running (put_idle_producer i p s) = rs_running s"
  "rs_tasks (put_injector j s) = rs_tasks s" "rs_running (put_injector j s) = rs_running s"
  "rs_contexts (put_idle_producer i p s) = rs_contexts s" "rs_contexts (put_injector j s) = rs_contexts s"
  "l \<noteq> k \<Longrightarrow> rs_contexts (put_thread_producer l p s) k = rs_contexts s k"
  by (simp_all add: put_defs)

text \<open>Two queues in a row: what leaves the second for the first, and the task taken.\<close>

lemma taken_from:
  fixes S :: "'a multiset"
  assumes "A' + P = A + P'" "A + X = S + X'" "X + P = X' + P' + T"
  shows "S = A' + T"
proof (rule multiset_eqI)
  fix x
  show "count S x = count (A' + T) x"
    using assms unfolding multiset_eq_iff by (auto dest!: spec [where x = x])
qed

lemma take_from_queues:
  assumes laws: "deque_laws api contents injected" and k: "k < m" "cx_producer (rs_contexts s k) = Some p"
    and run: "take_from api m n k p src s = Some (r, s')"
  shows "rs_tasks s' = rs_tasks s \<and> rs_running s' = rs_running s \<and> same_threads s s' \<and>
    runtime_tasks contents injected m n s = runtime_tasks contents injected m n s' + option_mset r"
proof (cases src)
  case (From_Own be_fair)
  then obtain p' where pop: "producer_pop api be_fair p = Some (r, p')" and s': "s' = put_thread_producer k p' s"
    using run by (auto simp: take_from_def)
  have "runtime_tasks contents injected m n s' + option_mset r = runtime_tasks contents injected m n s + {#}"
    unfolding s'
    by (rule put_thread_producer_tasks [OF k]) (use producer_pop_mset [OF laws pop] in \<open>simp add: ac_simps\<close>)
  then show ?thesis using k by (simp add: s' same_threads_producer)
next
  case From_Injector
  obtain st j p' where c: "producer_consume api (dx_injector (rs_executors s 0)) p = (st, j, p')"
    by (metis prod_cases3)
  then have s': "s' = put_thread_producer k p' (put_injector j s)" and r: "r = steal_success st"
    using run From_Injector by (simp_all add: take_from_def)
  have "runtime_tasks contents injected m n s' + mset (contents (pr_deque p)) =
      runtime_tasks contents injected m n (put_injector j s) + mset (contents (pr_deque p'))"
    unfolding s' by (rule put_thread_producer_tasks) (use k in simp_all)
  then have "runtime_tasks contents injected m n s = runtime_tasks contents injected m n s' + option_mset r"
    using put_injector_tasks [of contents injected m n j s] producer_consume_mset(1) [OF laws c]
    unfolding r option_mset_steal by (rule taken_from)
  then show ?thesis
    using k same_threads_trans [OF same_threads_injector [of s j] same_threads_producer [where k = k and p = p']] by (simp add: s')
next
  case (From_Thread l)
  then obtain q where l: "l < m" "l \<noteq> k" and q: "cx_producer (rs_contexts s l) = Some q"
    using run by (auto simp: take_from_def split: if_splits option.splits)
  obtain st d p' where c: "producer_steal api (pr_deque q) p = (st, d, p')"
    by (metis prod_cases3)
  let ?s = "put_thread_producer l (q\<lparr>pr_deque := d\<rparr>) s"
  have s': "s' = put_thread_producer k p' ?s" and r: "r = steal_success st"
    using run From_Thread l q c by (simp_all add: take_from_def)
  have "runtime_tasks contents injected m n s' + mset (contents (pr_deque p)) =
      runtime_tasks contents injected m n ?s + mset (contents (pr_deque p'))"
    unfolding s' by (rule put_thread_producer_tasks) (use k l in simp_all)
  moreover have "runtime_tasks contents injected m n ?s + mset (contents (pr_deque q)) =
      runtime_tasks contents injected m n s + mset (contents d)"
    by (rule put_thread_producer_tasks [OF l(1) q]) (simp add: ac_simps)
  ultimately have "runtime_tasks contents injected m n s = runtime_tasks contents injected m n s' + option_mset r"
    using producer_steal_mset(1) [OF laws c] unfolding r option_mset_steal by (rule taken_from)
  then show ?thesis
    using k l q same_threads_trans [OF same_threads_producer [of s l "q\<lparr>pr_deque := d\<rparr>"] same_threads_producer [where k = k and p = p']]
    by (simp add: s')
next
  case (From_Idle i)
  then obtain q where i: "i < n" and q: "rs_workers s i = Some q"
    using run by (auto simp: take_from_def split: if_splits option.splits)
  obtain st d p' where c: "producer_steal api (pr_deque q) p = (st, d, p')"
    by (metis prod_cases3)
  let ?s = "put_idle_producer i (q\<lparr>pr_deque := d\<rparr>) s"
  have s': "s' = put_thread_producer k p' ?s" and r: "r = steal_success st"
    using run From_Idle i q c by (simp_all add: take_from_def)
  have "runtime_tasks contents injected m n s' + mset (contents (pr_deque p)) =
      runtime_tasks contents injected m n ?s + mset (contents (pr_deque p'))"
    unfolding s' by (rule put_thread_producer_tasks) (use k in simp_all)
  moreover have "runtime_tasks contents injected m n ?s + mset (contents (pr_deque q)) =
      runtime_tasks contents injected m n s + mset (contents d)"
    using put_idle_producer_tasks [OF i q, of contents injected m "q\<lparr>pr_deque := d\<rparr>"] by simp
  ultimately have "runtime_tasks contents injected m n s = runtime_tasks contents injected m n s' + option_mset r"
    using producer_steal_mset(1) [OF laws c] unfolding r option_mset_steal by (rule taken_from)
  then show ?thesis
    using k q same_threads_trans [OF same_threads_idle [of s i "q\<lparr>pr_deque := d\<rparr>"] same_threads_producer [where k = k and p = p']]
    by (simp add: s')
qed

subsection \<open>Polls and the hand-over of workers\<close>

lemma pop_and_inject_tasks:
  assumes laws: "deque_laws api contents injected" and run: "pop_and_inject api 0 p xs = (r, p', xs')"
  shows "po_ready p' = [] \<and> injector_tasks injected 0 xs' + option_mset r = injector_tasks injected 0 xs + mset (po_ready p)"
proof (cases "po_ready p")
  case Nil
  then show ?thesis using run by (auto simp: pop_and_inject_def poller_inject_def poller_pending_def)
next
  case (Cons t ts)
  then show ?thesis
    using run executor_inject_tasks(1) [OF laws, of 0 0 ts xs]
    by (cases ts) (auto simp: pop_and_inject_def poller_inject_def poller_pending_def)
qed

lemma poller_inject_tasks:
  assumes laws: "deque_laws api contents injected" and run: "poller_inject api 0 p xs = (p', xs')"
  shows "po_ready p' = [] \<and> injector_tasks injected 0 xs' = injector_tasks injected 0 xs + mset (po_ready p)"
  using run executor_inject_tasks(1) [OF laws, of 0 0 "po_ready p" xs]
  by (cases "po_ready p") (auto simp: poller_inject_def poller_pending_def)

lemma begin_poll_ok:
  assumes "context_ok False c"
  shows "begin_poll p c = Inr (p\<lparr>po_ready := []\<rparr>, c\<lparr>cx_intercept := Some (po_ready p)\<rparr>)"
    "context_ok True (c\<lparr>cx_intercept := Some rs\<rparr>)"
    "thread_tasks contents (c\<lparr>cx_intercept := Some (po_ready p)\<rparr>) (p\<lparr>po_ready := []\<rparr>) = thread_tasks contents c p"
proof -
  have "cx_intercept c = None" using assms by (simp add: context_ok_def)
  then show "begin_poll p c = Inr (p\<lparr>po_ready := []\<rparr>, c\<lparr>cx_intercept := Some (po_ready p)\<rparr>)"
    "thread_tasks contents (c\<lparr>cx_intercept := Some (po_ready p)\<rparr>) (p\<lparr>po_ready := []\<rparr>) = thread_tasks contents c p"
    by (simp_all add: begin_poll_def thread_tasks_def context_tasks_def ac_simps)
qed (use assms in \<open>simp add: context_ok_def\<close>)

lemma end_poll_ok:
  assumes "cx_intercept c = Some rs" "context_ok True c" "po_ready p = []"
  shows "end_poll p c = Inr (p\<lparr>po_ready := rs\<rparr>, c\<lparr>cx_intercept := None\<rparr>)"
    "context_ok False (c\<lparr>cx_intercept := None\<rparr>)"
    "thread_tasks contents (c\<lparr>cx_intercept := None\<rparr>) (p\<lparr>po_ready := rs\<rparr>) = thread_tasks contents c p"
  using assms by (simp_all add: end_poll_def context_ok_def thread_tasks_def context_tasks_def ac_simps)

lemma polled_tasks:
  assumes "k < m" "thread_tasks contents c p = thread_tasks contents (rs_contexts s k) (rs_pollers s k)"
  shows "runtime_tasks contents injected m n (put_polled k p c pol s) = runtime_tasks contents injected m n s"
proof -
  have "runtime_tasks contents injected m n (put_polled k p c pol s) + {#} = runtime_tasks contents injected m n s + {#}"
    by (rule thread_step_tasks [OF assms(1)]) (use assms(2) in \<open>simp_all add: put_polled_def\<close>)
  then show ?thesis by simp
qed

lemma poller_tasks:
  assumes "k < m" "po_ready p = []" "injector_tasks injected 0 xs + R = injector_tasks injected 0 (rs_executors s) + mset (po_ready (rs_pollers s k))"
  shows "runtime_tasks contents injected m n (put_poller k p xs s) + R = runtime_tasks contents injected m n s"
proof -
  have "runtime_tasks contents injected m n (put_poller k p xs s) + R = runtime_tasks contents injected m n s + {#}"
    by (rule thread_step_tasks [OF assms(1)])
      (use assms(2,3) in \<open>simp_all add: put_poller_def thread_tasks_def add.assoc add.left_commute [of "injector_tasks injected 0 xs"]\<close>)
  then show ?thesis by simp
qed

text \<open>A worker moves between its place at rest and a thread, with the tasks in its run queue.\<close>

lemma hand_over_tasks:
  assumes "k < m" "i < n" "\<And>j. j \<noteq> i \<Longrightarrow> ws j = rs_workers s j"
    and "context_tasks contents (Some c) + idle_tasks contents (ws i) =
      context_tasks contents (Some (rs_contexts s k)) + idle_tasks contents (rs_workers s i)"
  shows "runtime_tasks contents injected m n (put_hand_over k c ws s) = runtime_tasks contents injected m n s"
proof -
  have "runtime_tasks contents injected m n (put_hand_over k c ws s) + {#} = runtime_tasks contents injected m n s + {#}"
    by (rule worker_step_tasks [OF assms(1) _ assms(2)])
      (use assms(3,4) in \<open>simp_all add: put_hand_over_def thread_tasks_def ac_simps\<close>)
  then show ?thesis by simp
qed

lemma worker_to_running_ok:
  assumes "context_ok pol c" "cx_worker c = None" "ws i = Some p"
  shows "worker_to_running i c ws = Inr (c\<lparr>cx_worker := Some i, cx_producer := Some p\<rparr>, ws(i := None))"
    "context_tasks contents (Some (c\<lparr>cx_worker := Some i, cx_producer := Some p\<rparr>)) + idle_tasks contents None =
      context_tasks contents (Some c) + idle_tasks contents (ws i)"
  using assms by (simp_all add: worker_to_running_def context_ok_def context_tasks_def idle_tasks_def)

lemma worker_to_idle_ok:
  assumes "cx_worker c = Some i" "cx_producer c = Some p" "ws i = None"
  shows "worker_to_idle i c ws = Inr (c\<lparr>cx_worker := None, cx_producer := None\<rparr>, ws(i := Some p))"
    "context_tasks contents (Some (c\<lparr>cx_worker := None, cx_producer := None\<rparr>)) + idle_tasks contents (Some p) =
      context_tasks contents (Some c) + idle_tasks contents (ws i)"
  using assms by (simp_all add: worker_to_idle_def context_tasks_def idle_tasks_def ac_simps)

text \<open>Who has which worker afterwards.\<close>

lemma threads_ok_polled:
  assumes ok: "threads_ok m n s" and c: "context_ok pol c" "cx_worker c = cx_worker (rs_contexts s k)"
    and p: "pol \<longrightarrow> po_ready p = []" and k: "rs_running s k = None"
  shows "threads_ok m n (put_polled k p c pol s)"
proof (rule threads_okI [OF ok, where k = k])
  have "(\<lambda>l. cx_worker (rs_contexts (put_polled k p c pol s) l)) = (\<lambda>l. cx_worker (rs_contexts s l))"
    using c(2) by (simp add: put_polled_def fun_eq_iff)
  then show "owners m n (\<lambda>l. cx_worker (rs_contexts (put_polled k p c pol s) l)) (rs_workers (put_polled k p c pol s))"
    using ok by (simp add: threads_ok_def put_polled_def)
qed (use c p k in \<open>simp_all add: put_polled_def thread_ok_def\<close>)

lemma threads_ok_poller:
  assumes ok: "threads_ok m n s" and p: "po_ready p = []"
  shows "threads_ok m n (put_poller k p xs s)"
proof (rule threads_okI [OF ok, where k = k])
  show "thread_ok (rs_polling (put_poller k p xs s) k) (rs_contexts (put_poller k p xs s) k)
      (rs_pollers (put_poller k p xs s) k) (rs_running (put_poller k p xs s) k)"
    using threads_ok_at(1,2) [OF ok, of k] ok p by (auto simp: put_poller_def threads_ok_def thread_ok_def)
qed (use ok in \<open>simp_all add: put_poller_def threads_ok_def\<close>)

lemma threads_ok_get:
  assumes ok: "threads_ok m n s" and k: "free_thread m k s" "cx_worker (rs_contexts s k) = None"
    and i: "i < n" "rs_workers s i = Some p"
  shows "threads_ok m n (put_hand_over k ((rs_contexts s k)\<lparr>cx_worker := Some i, cx_producer := Some p\<rparr>)
    ((rs_workers s)(i := None)) s)" (is "threads_ok m n ?s")
proof (rule threads_okI [OF ok, where k = k])
  have "owners m n ((\<lambda>l. cx_worker (rs_contexts s l))(k := Some i)) ((rs_workers s)(i := None))"
    by (rule owners_get) (use ok k i in \<open>simp_all add: threads_ok_def free_thread_def\<close>)
  then show "owners m n (\<lambda>l. cx_worker (rs_contexts ?s l)) (rs_workers ?s)"
    by (simp add: put_hand_over_def fun_upd_def if_distrib [of cx_worker] cong: if_cong)
  show "thread_ok (rs_polling ?s k) (rs_contexts ?s k) (rs_pollers ?s k) (rs_running ?s k)"
    using threads_ok_at(1) [OF ok, of k] k by (simp add: put_hand_over_def thread_ok_def context_ok_def free_thread_def)
qed (simp_all add: put_hand_over_def)

lemma threads_ok_give:
  assumes ok: "threads_ok m n s" and k: "free_thread m k s" "cx_worker (rs_contexts s k) = Some i"
  shows "threads_ok m n (put_hand_over k ((rs_contexts s k)\<lparr>cx_worker := None, cx_producer := None\<rparr>)
    ((rs_workers s)(i := Some p)) s)" (is "threads_ok m n ?s")
proof (rule threads_okI [OF ok, where k = k])
  have "owners m n ((\<lambda>l. cx_worker (rs_contexts s l))(k := None)) ((rs_workers s)(i := Some p))"
    by (rule owners_give) (use ok k in \<open>simp_all add: threads_ok_def\<close>)
  then show "owners m n (\<lambda>l. cx_worker (rs_contexts ?s l)) (rs_workers ?s)"
    by (simp add: put_hand_over_def fun_upd_def if_distrib [of cx_worker] cong: if_cong)
  show "thread_ok (rs_polling ?s k) (rs_contexts ?s k) (rs_pollers ?s k) (rs_running ?s k)"
    using threads_ok_at(1) [OF ok, of k] k by (simp add: put_hand_over_def thread_ok_def context_ok_def free_thread_def)
qed (simp_all add: put_hand_over_def)

subsection \<open>The invariant\<close>

text \<open>What a step of one task does to its counters.\<close>

lemma task_run_effect:
  assumes "task_run i out t = Some (Inr t')"
  shows "i < length (tk_runners t) \<and> (\<exists>pc. tk_runners t' = (tk_runners t)[i := pc]) \<and>
    tk_queued t' = tk_queued t + (if pushes i t then 1 else 0)"
proof -
  from assms obtain q where i: "i < length (tk_runners t)" and q: "run_pc out (tk_runners t ! i) t = Some q"
    and r: "Inr t' = rbind q (\<lambda>(pc', t'). Inr (t'\<lparr>tk_runners := (tk_runners t')[i := pc']\<rparr>))"
    by (auto simp: task_run_def split: if_splits option.splits)
  then obtain pc u where u: "q = Inr (pc, u)" "t' = u\<lparr>tk_runners := (tk_runners u)[i := pc]\<rparr>"
    by (cases q) auto
  have "pushes i t \<longleftrightarrow> tk_runners t ! i = R_Push"
    using i by (auto simp: pushes_def split: runner_pc.splits)
  then show ?thesis using run_pc_frame [of out "tk_runners t ! i" t pc u] q u i by auto
qed

lemma join_step_effect:
  "join_step c t = Some (Inr t') \<Longrightarrow> tk_runners t' = tk_runners t \<and> tk_queued t' = tk_queued t"
  by (auto simp: join_step_def rbind_def split: joiner_pc.splits sum.splits if_splits task_data.splits prod.splits)

lemma task_wake_effect: "tk_runners (task_wake t) = tk_runners t \<and> tk_queued (task_wake t) = tk_queued t"
  by (simp add: task_wake_def Let_def split: prod.splits)

lemma task_push_effect:
  "task_push t = Some t' \<Longrightarrow> tk_runners t' = tk_runners t \<and> tk_queued t' = Suc (tk_queued t)"
  by (auto simp: task_push_def split: if_splits)

lemma task_pop_effect:
  "tk_queued t \<noteq> 0 \<Longrightarrow>
   \<exists>t'. task_pop t = Some t' \<and> tk_runners t' = tk_runners t @ [R_Load] \<and> Suc (tk_queued t') = tk_queued t"
  by (simp add: task_pop_def)

lemma running_okI:
  assumes "\<And>w t i. rs_running s w = Some (t, i) \<Longrightarrow> w < m \<and> t < length (rs_tasks s) \<and>
      i < length (tk_runners (rs_tasks s ! t)) \<and> tk_runners (rs_tasks s ! t) ! i \<noteq> R_Done"
    and "\<And>w v. rs_running s w = rs_running s v \<Longrightarrow> rs_running s w \<noteq> None \<Longrightarrow> w = v"
  shows "running_ok m s"
  unfolding running_ok_def using assms by blast

lemma running_ok_put:
  assumes "running_ok m s" "rs_tasks s' = (rs_tasks s)[t := task]" "rs_running s' = rs_running s"
    and "tk_runners task = tk_runners (rs_tasks s ! t)"
  shows "running_ok m s'"
  unfolding running_ok_def
proof (intro conjI allI impI)
  fix w u i
  assume "rs_running s' w = Some (u, i)"
  then have "w < m \<and> u < length (rs_tasks s) \<and> i < length (tk_runners (rs_tasks s ! u)) \<and>
      tk_runners (rs_tasks s ! u) ! i \<noteq> R_Done"
    using assms(1,3) by (simp add: running_ok_def)
  then show "w < m" "u < length (rs_tasks s')" "i < length (tk_runners (rs_tasks s' ! u))"
    "tk_runners (rs_tasks s' ! u) ! i \<noteq> R_Done"
    using assms(2,4) by (cases "u = t"; simp)+
next
  fix w v
  assume "rs_running s' w = rs_running s' v \<and> rs_running s' w \<noteq> None"
  then show "w = v" using assms(1,3) unfolding running_ok_def by metis
qed

lemma running_ok_end:
  assumes ok: "running_ok m s" and w: "rs_running s w = Some (t, i)"
    and s': "rs_tasks s' = (rs_tasks s)[t := task]" "rs_running s' = rs_running s"
    and task: "tk_runners task = (tk_runners (rs_tasks s ! t))[i := pc]"
  shows "running_ok m (end_run w t i s')"
proof -
  have here: "w < m" "t < length (rs_tasks s)" "i < length (tk_runners (rs_tasks s ! t))"
    using ok w by (auto simp: running_ok_def)
  then have pc: "tk_runners (rs_tasks s' ! t) ! i = pc"
    using s' task by simp
  have once: "u = v" if "rs_running s u = rs_running s v" "rs_running s u \<noteq> None" for u v
    using ok that unfolding running_ok_def by metis
  have other: "v < m \<and> u < length (rs_tasks s') \<and> j < length (tk_runners (rs_tasks s' ! u)) \<and>
      tk_runners (rs_tasks s' ! u) ! j \<noteq> R_Done" if "rs_running s v = Some (u, j)" "v \<noteq> w" for v u j
  proof -
    have "(u, j) \<noteq> (t, i)"
      using once [of v w] that w by auto
    moreover have "v < m \<and> u < length (rs_tasks s) \<and> j < length (tk_runners (rs_tasks s ! u)) \<and>
        tk_runners (rs_tasks s ! u) ! j \<noteq> R_Done"
      using ok that(1) by (simp add: running_ok_def)
    ultimately show ?thesis using s'(1) task by (cases "u = t") auto
  qed
  show ?thesis
  proof (cases "pc = R_Done")
    case True
    then have e: "rs_running (end_run w t i s') = (rs_running s)(w := None)"
      using pc s'(2) by (simp add: end_run_def)
    show ?thesis
    proof (rule running_okI)
      fix v u j
      assume "rs_running (end_run w t i s') v = Some (u, j)"
      then have "rs_running s v = Some (u, j)" "v \<noteq> w" unfolding e by (auto split: if_splits)
      from other [OF this] show "v < m \<and> u < length (rs_tasks (end_run w t i s')) \<and>
          j < length (tk_runners (rs_tasks (end_run w t i s') ! u)) \<and>
          tk_runners (rs_tasks (end_run w t i s') ! u) ! j \<noteq> R_Done" by simp
    next
      fix u v
      assume "rs_running (end_run w t i s') u = rs_running (end_run w t i s') v"
        "rs_running (end_run w t i s') u \<noteq> None"
      then show "u = v" using once [of u v] unfolding e by (auto split: if_splits)
    qed
  next
    case False
    then have e: "end_run w t i s' = s'"
      using pc by (simp add: end_run_def split: runner_pc.splits)
    show ?thesis
      unfolding e
    proof (rule running_okI)
      fix v u j
      assume "rs_running s' v = Some (u, j)"
      then show "v < m \<and> u < length (rs_tasks s') \<and> j < length (tk_runners (rs_tasks s' ! u)) \<and>
          tk_runners (rs_tasks s' ! u) ! j \<noteq> R_Done"
        using other [of v u j] w here pc False s' task by (cases "v = w") auto
    qed (use once s'(2) in simp)
  qed
qed

lemma running_ok_begin:
  assumes ok: "running_ok m s" and w: "w < m" "t < length (rs_tasks s)"
    and task: "tk_runners task = tk_runners (rs_tasks s ! t) @ [R_Load]"
    and s': "rs_tasks s' = (rs_tasks s)[t := task]"
      "rs_running s' = (rs_running s)(w := Some (t, length (tk_runners (rs_tasks s ! t))))"
  shows "running_ok m s'"
proof -
  let ?i = "length (tk_runners (rs_tasks s ! t))"
  have here: "v < m \<and> u < length (rs_tasks s) \<and> j < length (tk_runners (rs_tasks s ! u)) \<and>
      tk_runners (rs_tasks s ! u) ! j \<noteq> R_Done" if "rs_running s v = Some (u, j)" for v u j
    using ok that by (simp add: running_ok_def)
  have new: "rs_running s v \<noteq> Some (t, ?i)" for v using here [of v t ?i] by auto
  have once: "u = v" if "rs_running s u = rs_running s v" "rs_running s u \<noteq> None" for u v
    using ok that unfolding running_ok_def by metis
  have "v < m \<and> u < length (rs_tasks s') \<and> j < length (tk_runners (rs_tasks s' ! u)) \<and>
      tk_runners (rs_tasks s' ! u) ! j \<noteq> R_Done" if "rs_running s' v = Some (u, j)" for v u j
  proof (cases "v = w")
    case True
    then show ?thesis using that w task s' by auto
  next
    case False
    then show ?thesis using here [of v u j] that task s' w by (cases "u = t") (auto simp: nth_append)
  qed
  moreover have "u = v" if "rs_running s' u = rs_running s' v" "rs_running s' u \<noteq> None" for u v
    using that once [of u v] new [of u] new [of v] s'(2) by (cases "u = w"; cases "v = w") auto
  ultimately show ?thesis by (rule running_okI)
qed


text \<open>A step that moves tasks between queues, and one that moves a task's own machine.\<close>

lemma rt_inv_move:
  assumes inv: "rt_inv contents injected m n s"
    and s': "rs_tasks s' = rs_tasks s" "rs_running s' = rs_running s" "threads_ok m n s'"
    and q: "runtime_tasks contents injected m n s' = runtime_tasks contents injected m n s"
  shows "rt_inv contents injected m n s'"
proof -
  have "running_ok m s'" using inv unfolding rt_inv_def running_ok_def s'(1,2) by blast
  then show ?thesis using inv s'(3) unfolding rt_inv_def s'(1) q by blast
qed

lemma rt_inv_put:
  assumes inv: "rt_inv contents injected m n s" and t: "t < length (rs_tasks s)"
    and step: "task_step a (rs_tasks s ! t) = Some (Inr task)"
    and s': "rs_tasks s' = (rs_tasks s)[t := task]" "threads_ok m n s'" "running_ok m s'"
    and q: "runtime_tasks contents injected m n s' + replicate_mset (tk_queued (rs_tasks s ! t)) t =
      runtime_tasks contents injected m n s + replicate_mset (tk_queued task) t"
  shows "rt_inv contents injected m n s'"
proof -
  obtain f where "reach task_step (task_spawned f) (rs_tasks s ! t)"
    using inv t by (auto simp: rt_inv_def)
  then have r: "reach task_step (task_spawned f) task" using step by (rule reach_step)
  have "\<exists>f. reach task_step (task_spawned f) (rs_tasks s' ! u)" if "u < length (rs_tasks s')" for u
    using that r inv s'(1) t by (cases "u = t") (auto simp: rt_inv_def)
  moreover have "count (runtime_tasks contents injected m n s') u =
      (if u < length (rs_tasks s') then tk_queued (rs_tasks s' ! u) else 0)" for u
    using inv s'(1) t q [THEN arg_cong, where f = "\<lambda>M. count M u"]
    by (cases "u = t") (auto simp: rt_inv_def)
  ultimately show ?thesis using s'(2,3) by (simp add: rt_inv_def)
qed

text \<open>The steps that end with the call of \<open>run\<close> on the task a thread found.\<close>

lemma rt_inv_begin:
  assumes inv: "rt_inv contents injected m n s" and k: "k < m"
    and s1: "rs_tasks s1 = rs_tasks s" "rs_running s1 = rs_running s" "threads_ok m n s1"
      "cx_worker (rs_contexts s1 k) \<noteq> None" "\<not> rs_polling s1 k"
    and q: "runtime_tasks contents injected m n s = runtime_tasks contents injected m n s1 + option_mset x"
  shows "\<exists>s'. begin_run k x s1 = Inr s' \<and> rt_inv contents injected m n s'"
proof (cases x)
  case None
  have "rt_inv contents injected m n s1" by (rule rt_inv_move [OF inv s1(1-3)]) (use q None in simp)
  then show ?thesis using None by (simp add: begin_run_def)
next
  case (Some t)
  have "count (runtime_tasks contents injected m n s) t \<noteq> 0" unfolding q Some by simp
  moreover have "count (runtime_tasks contents injected m n s) t =
      (if t < length (rs_tasks s) then tk_queued (rs_tasks s ! t) else 0)"
    using inv by (simp add: rt_inv_def)
  ultimately have t: "t < length (rs_tasks s)" and "tk_queued (rs_tasks s ! t) \<noteq> 0"
    by (simp_all split: if_splits)
  then obtain task where task: "task_pop (rs_tasks s ! t) = Some task"
    "tk_runners task = tk_runners (rs_tasks s ! t) @ [R_Load]" "Suc (tk_queued task) = tk_queued (rs_tasks s ! t)"
    using task_pop_effect by blast
  let ?s = "put_task t task (s1\<lparr>rs_running := (rs_running s1)(k := Some (t, length (tk_runners task) - 1))\<rparr>)"
  have run_ok: "running_ok m s" using inv by (simp add: rt_inv_def)
  have "rt_inv contents injected m n ?s"
  proof (rule rt_inv_put [OF inv t])
    show "task_step T_Pop (rs_tasks s ! t) = Some (Inr task)" using task by simp
    show "running_ok m ?s"
      by (rule running_ok_begin [OF run_ok k t task(2)]) (use s1 task in simp_all)
    show "threads_ok m n ?s"
      by (rule threads_ok_same [OF s1(3)]) (use s1(4,5) in \<open>auto simp: same_threads_def split: if_splits\<close>)
  qed (use s1 q Some task in \<open>simp_all flip: task(3)\<close>)
  then show ?thesis using Some s1 t task by (simp add: begin_run_def)
qed

subsection \<open>Every step keeps it\<close>

lemma thread_context_frames [simp]:
  "thread_context who (put_task t task s) = thread_context who s"
  "thread_context who (s\<lparr>rs_tasks := ts\<rparr>) = thread_context who s"
  by (simp_all add: thread_context_def put_task_def)

lemma threads_ok_dispatch:
  assumes "threads_ok m n s" "same_threads s' (put_dispatch who ctx xs s')" "same_threads s s'"
    and "rs_running s' = rs_running s"
  shows "threads_ok m n (put_dispatch who ctx xs s')"
  by (rule threads_ok_same [OF assms(1) same_threads_trans [OF assms(3,2)]]) (simp add: assms(4))

lemma threads_ok_put_task: "threads_ok m n s \<Longrightarrow> threads_ok m n (put_task t task s)"
  by (simp add: threads_ok_def)

lemma threads_ok_tasks: "threads_ok m n (s\<lparr>rs_tasks := ts\<rparr>) = threads_ok m n s"
  by (simp add: threads_ok_def)

lemma threads_ok_end_run: "threads_ok m n s \<Longrightarrow> threads_ok m n (end_run k t i s)"
  by (rule threads_ok_same) (auto simp: same_threads_def end_run_def split: runner_pc.splits if_splits)

lemma rt_inv_spawn:
  assumes laws: "deque_laws api contents injected" and inv: "rt_inv contents injected m n s"
    and step: "rt_step api m n (Spawn who f) s = Some r"
  shows "\<exists>s'. r = Inr s' \<and> rt_inv contents injected m n s'"
proof -
  let ?t = "length (rs_tasks s)" and ?xs = "task_begun 0 (rs_executors s)"
  let ?s = "s\<lparr>rs_tasks := rs_tasks s @ [task_spawned f]\<rparr>"
  have who: "outside_or_thread m who" using step by (auto split: if_splits)
  have "injector_tasks injected 0 ?xs = injector_tasks injected 0 (rs_executors ?s)"
    by (simp add: task_begun_def injector_tasks_def)
  moreover have ok: "threads_ok m n ?s" using inv by (simp add: rt_inv_def threads_ok_tasks)
  ultimately obtain ctx xs where run: "executor_schedule api 0 ?t (thread_context who s) False ?xs = Inr (ctx, xs)"
    and same: "same_threads ?s (put_dispatch who ctx xs ?s)"
    and q: "runtime_tasks contents injected m n (put_dispatch who ctx xs ?s) =
      add_mset ?t (runtime_tasks contents injected m n s)"
    using schedule_queues [OF laws, where s = ?s and who = who and xs = ?xs and n = n and m = m and r = ?t
        and be_fair = False] who by auto
  have ctx: "threads_ok m n (put_dispatch who ctx xs ?s)"
    by (rule threads_ok_dispatch [OF ok same]) (simp_all add: same_threads_def)
  have r: "r = Inr (put_dispatch who ctx xs ?s)"
    using step who run by (simp add: task_spawn_ok task_spawn_on_def task_state_new_def)
  have "running_ok m (put_dispatch who ctx xs ?s)"
  proof (rule running_okI)
    fix w t i
    assume "rs_running (put_dispatch who ctx xs ?s) w = Some (t, i)"
    then have "w < m \<and> t < length (rs_tasks s) \<and> i < length (tk_runners (rs_tasks s ! t)) \<and>
        tk_runners (rs_tasks s ! t) ! i \<noteq> R_Done"
      using inv by (simp add: rt_inv_def running_ok_def)
    then show "w < m \<and> t < length (rs_tasks (put_dispatch who ctx xs ?s)) \<and>
        i < length (tk_runners (rs_tasks (put_dispatch who ctx xs ?s) ! t)) \<and>
        tk_runners (rs_tasks (put_dispatch who ctx xs ?s) ! t) ! i \<noteq> R_Done"
      by (simp add: nth_append)
  next
    fix w v
    assume "rs_running (put_dispatch who ctx xs ?s) w = rs_running (put_dispatch who ctx xs ?s) v"
      "rs_running (put_dispatch who ctx xs ?s) w \<noteq> None"
    then show "w = v" using inv unfolding rt_inv_def running_ok_def by simp
  qed
  moreover have "\<exists>g. reach task_step (task_spawned g) ((rs_tasks s @ [task_spawned f]) ! t)" if "t < Suc ?t" for t
    using that inv reach_start [of task_step "task_spawned f"]
    by (cases "t = ?t") (auto simp: rt_inv_def nth_append)
  moreover have "count (runtime_tasks contents injected m n (put_dispatch who ctx xs ?s)) t =
      (if t < Suc ?t then tk_queued ((rs_tasks s @ [task_spawned f]) ! t) else 0)" for t
    using inv unfolding q
    by (cases "t = ?t") (auto simp: rt_inv_def nth_append task_spawned_def)
  ultimately have "rt_inv contents injected m n (put_dispatch who ctx xs ?s)"
    using ctx by (simp add: rt_inv_def)
  then show ?thesis using r by simp
qed


lemma rt_inv_put_task:
  assumes inv: "rt_inv contents injected m n s" and t: "t < length (rs_tasks s)"
    and step: "task_step a (rs_tasks s ! t) = Some (Inr task)"
    and same: "tk_runners task = tk_runners (rs_tasks s ! t) \<and> tk_queued task = tk_queued (rs_tasks s ! t)"
  shows "rt_inv contents injected m n (put_task t task s)"
proof (rule rt_inv_put [OF inv t step])
  show "running_ok m (put_task t task s)"
    by (rule running_ok_put [where s = s and t = t and task = task]) (use inv same in \<open>simp_all add: rt_inv_def\<close>)
qed (use inv same in \<open>simp_all add: rt_inv_def threads_ok_put_task\<close>)

lemma rt_inv_wake:
  assumes inv: "rt_inv contents injected m n s" and step: "rt_step api m n (Wake t) s = Some r"
  shows "\<exists>s'. r = Inr s' \<and> rt_inv contents injected m n s'"
proof -
  have t: "t < length (rs_tasks s)" and r: "r = Inr (put_task t (task_wake (rs_tasks s ! t)) s)"
    using step by (auto split: if_splits)
  have "task_step T_Wake (rs_tasks s ! t) = Some (Inr (task_wake (rs_tasks s ! t)))" by simp
  from rt_inv_put_task [OF inv t this task_wake_effect] r show ?thesis by simp
qed

lemma rt_inv_task:
  assumes "rt_inv contents injected m n s" "t < length (rs_tasks s)"
  shows "task_inv (rs_tasks s ! t)"
proof -
  obtain f where "reach task_step (task_spawned f) (rs_tasks s ! t)"
    using assms by (auto simp: rt_inv_def)
  then show ?thesis by (rule reach_task_inv)
qed

lemma rt_inv_join:
  assumes inv: "rt_inv contents injected m n s" and step: "rt_step api m n (Join t c) s = Some r"
  shows "\<exists>s'. r = Inr s' \<and> rt_inv contents injected m n s'"
proof -
  obtain x where t: "t < length (rs_tasks s)" and x: "join_step c (rs_tasks s ! t) = Some x"
    and r: "r = rbind x (\<lambda>task. Inr (put_task t task s))"
    using step by (auto split: if_splits)
  have a: "task_step (T_Join c) (rs_tasks s ! t) = Some x" using x by simp
  obtain task where task: "x = Inr task" using task_inv_step [OF rt_inv_task [OF inv t] a] by blast
  have "join_step c (rs_tasks s ! t) = Some (Inr task)" using x task by simp
  from rt_inv_put_task [OF inv t a [unfolded task] join_step_effect [OF this]] r task show ?thesis by simp
qed

text \<open>The steps that put a task back into a queue.\<close>

lemma rt_inv_push:
  assumes laws: "deque_laws api contents injected" and inv: "rt_inv contents injected m n s"
    and step: "rt_step api m n (Push t who) s = Some r"
  shows "\<exists>s'. r = Inr s' \<and> rt_inv contents injected m n s'"
proof -
  obtain task where who: "outside_or_thread m who" and t: "t < length (rs_tasks s)"
    and task: "task_push (rs_tasks s ! t) = Some task"
    and r: "r = rbind (task_schedule api 0 t (thread_context who s) (rs_executors s)) (\<lambda>(ctx, xs).
      Inr (put_dispatch who ctx xs (put_task t task s)))"
    using step by (auto split: if_splits)
  let ?s = "put_task t task s"
  have ok: "threads_ok m n s" "threads_ok m n ?s" using inv by (simp_all add: rt_inv_def threads_ok_put_task)
  have "cx_executor (rs_contexts s k) = 0" for k using threads_ok_at(1) [OF ok(1), of k] by (simp add: context_ok_def)
  then have own: "task_schedule api 0 t (thread_context who s) (rs_executors s) =
      executor_schedule api 0 t (thread_context who ?s) False (rs_executors s)"
    by (cases who) (simp_all add: task_schedule_def thread_context_def)
  obtain ctx xs where run: "executor_schedule api 0 t (thread_context who ?s) False (rs_executors s) = Inr (ctx, xs)"
    and same: "same_threads ?s (put_dispatch who ctx xs ?s)"
    and q: "runtime_tasks contents injected m n (put_dispatch who ctx xs ?s) =
      add_mset t (runtime_tasks contents injected m n ?s)"
    using schedule_queues [OF laws ok(2) who, where xs = "rs_executors s" and r = t and be_fair = False] by auto
  note eff = task_push_effect [OF task]
  have "rt_inv contents injected m n (put_dispatch who ctx xs ?s)"
  proof (rule rt_inv_put [OF inv t])
    show "task_step T_Push (rs_tasks s ! t) = Some (Inr task)" using task by simp
    show "running_ok m (put_dispatch who ctx xs ?s)"
      by (rule running_ok_put [where s = s and t = t and task = task]) (use inv eff in \<open>simp_all add: rt_inv_def\<close>)
    show "threads_ok m n (put_dispatch who ctx xs ?s)"
      by (rule threads_ok_dispatch [OF ok(2) same]) (simp_all add: same_threads_def)
  qed (use q eff in simp_all)
  then show ?thesis using r own run by simp
qed

lemma rt_inv_take:
  assumes laws: "deque_laws api contents injected" and inv: "rt_inv contents injected m n s"
    and step: "rt_step api m n (Take k src) s = Some r"
  shows "\<exists>s'. r = Inr s' \<and> rt_inv contents injected m n s'"
proof -
  obtain p x s1 where k: "free_thread m k s" "cx_producer (rs_contexts s k) = Some p"
    and run: "take_from api m n k p src s = Some (x, s1)" and r: "r = begin_run k x s1"
    using step by (auto split: if_splits option.splits)
  have ok: "threads_ok m n s" using inv by (simp add: rt_inv_def)
  have km: "k < m" using k(1) by (simp add: free_thread_def)
  have s1: "rs_tasks s1 = rs_tasks s" "rs_running s1 = rs_running s" "same_threads s s1"
    and q: "runtime_tasks contents injected m n s = runtime_tasks contents injected m n s1 + option_mset x"
    using take_from_queues [OF laws km k(2) run] by simp_all
  have "threads_ok m n s1" by (rule threads_ok_same [OF ok s1(3)]) (simp add: s1(2))
  moreover have "cx_worker (rs_contexts s1 k) \<noteq> None" "\<not> rs_polling s1 k"
    using threads_ok_at(3) [OF ok, of k] k s1(3) by (auto simp: same_threads_def context_like_def free_thread_def)
  ultimately show ?thesis unfolding r by (intro rt_inv_begin [OF inv km s1(1,2) _ _ _ q])
qed

lemma rt_inv_run:
  assumes laws: "deque_laws api contents injected" and inv: "rt_inv contents injected m n s"
    and step: "rt_step api m n (Run w out) s = Some r"
  shows "\<exists>s'. r = Inr s' \<and> rt_inv contents injected m n s'"
proof -
  obtain t i x where w: "rs_running s w = Some (t, i)" and x: "task_run i out (rs_tasks s ! t) = Some x"
    and r: "r = rbind x (\<lambda>task.
      if pushes i (rs_tasks s ! t)
      then rbind (executor_schedule api 0 t (Some (rs_contexts s w)) True (rs_executors s)) (\<lambda>(ctx, xs).
             Inr (end_run w t i (put_dispatch (Some w) ctx xs (put_task t task s))))
      else Inr (end_run w t i (put_task t task s)))"
    using step by (auto split: option.splits)
  have run_ok: "running_ok m s" and ok: "threads_ok m n s" using inv by (simp_all add: rt_inv_def)
  then have t: "t < length (rs_tasks s)" and wm: "w < m" using w by (auto simp: running_ok_def)
  have a: "task_step (T_Run i out) (rs_tasks s ! t) = Some x" using x by simp
  obtain task where task: "x = Inr task" using task_inv_step [OF rt_inv_task [OF inv t] a] by blast
  note eff = task_run_effect [OF x [unfolded task]]
  then obtain pc where pc: "tk_runners task = (tk_runners (rs_tasks s ! t))[i := pc]" by blast
  let ?s = "put_task t task s"
  have oks: "threads_ok m n ?s" using ok by (rule threads_ok_put_task)
  show ?thesis
  proof (cases "pushes i (rs_tasks s ! t)")
    case True
    obtain ctx xs where run: "executor_schedule api 0 t (thread_context (Some w) ?s) True (rs_executors s) = Inr (ctx, xs)"
      and same: "same_threads ?s (put_dispatch (Some w) ctx xs ?s)"
      and q: "runtime_tasks contents injected m n (put_dispatch (Some w) ctx xs ?s) =
        add_mset t (runtime_tasks contents injected m n ?s)"
      using schedule_queues [OF laws oks, where who = "Some w" and xs = "rs_executors s" and r = t and be_fair = True]
        wm by (auto simp: outside_or_thread_def)
    let ?d = "put_dispatch (Some w) ctx xs ?s"
    have "rt_inv contents injected m n (end_run w t i ?d)"
    proof (rule rt_inv_put [OF inv t a [unfolded task]])
      show "running_ok m (end_run w t i ?d)"
        by (rule running_ok_end [OF run_ok w _ _ pc]) simp_all
      have "threads_ok m n ?d" by (rule threads_ok_dispatch [OF oks same]) (simp_all add: same_threads_def)
      then show "threads_ok m n (end_run w t i ?d)" by (rule threads_ok_end_run)
    qed (use q eff True in simp_all)
    then show ?thesis using r task True run by (simp add: thread_context_def)
  next
    case False
    have "rt_inv contents injected m n (end_run w t i ?s)"
    proof (rule rt_inv_put [OF inv t a [unfolded task]])
      show "running_ok m (end_run w t i ?s)"
        by (rule running_ok_end [OF run_ok w _ _ pc]) simp_all
    qed (use threads_ok_end_run [OF oks] eff False in simp_all)
    then show ?thesis using r task False by simp
  qed
qed

text \<open>Polls: what the poller lends, it gets back with what was scheduled meanwhile.\<close>

lemma rt_inv_begin_poll:
  assumes inv: "rt_inv contents injected m n s" and step: "rt_step api m n (Begin_Poll k) s = Some r"
  shows "\<exists>s'. r = Inr s' \<and> rt_inv contents injected m n s'"
proof -
  let ?p = "rs_pollers s k" and ?c = "rs_contexts s k"
  have ok: "threads_ok m n s" using inv by (simp add: rt_inv_def)
  have k: "k < m" "rs_running s k = None" "\<not> rs_polling s k"
    using step by (auto simp: free_thread_def split: if_splits)
  have c: "context_ok False ?c" using threads_ok_at(1) [OF ok, of k] k by simp
  note poll = begin_poll_ok [OF c]
  let ?s = "put_polled k (?p\<lparr>po_ready := []\<rparr>) (?c\<lparr>cx_intercept := Some (po_ready ?p)\<rparr>) True s"
  have "rt_inv contents injected m n ?s"
  proof (rule rt_inv_move [OF inv])
    show "threads_ok m n ?s" by (rule threads_ok_polled [OF ok poll(2)]) (simp_all add: k)
    show "runtime_tasks contents injected m n ?s = runtime_tasks contents injected m n s"
      by (rule polled_tasks [OF k(1) poll(3)])
  qed simp_all
  then show ?thesis using step k poll(1) [of ?p] by (auto simp: free_thread_def)
qed

lemma rt_inv_end_poll:
  assumes inv: "rt_inv contents injected m n s" and step: "rt_step api m n (End_Poll k) s = Some r"
  shows "\<exists>s'. r = Inr s' \<and> rt_inv contents injected m n s'"
proof -
  let ?p = "rs_pollers s k" and ?c = "rs_contexts s k"
  have ok: "threads_ok m n s" using inv by (simp add: rt_inv_def)
  have k: "k < m" "rs_polling s k" using step by (auto split: if_splits)
  have c: "context_ok True ?c" and p: "po_ready ?p = []" "rs_running s k = None"
    using threads_ok_at(1,2) [OF ok, of k] k by simp_all
  obtain rs where rs: "cx_intercept ?c = Some rs" using c by (auto simp: context_ok_def)
  note poll = end_poll_ok [OF rs c p(1)]
  let ?s = "put_polled k (?p\<lparr>po_ready := rs\<rparr>) (?c\<lparr>cx_intercept := None\<rparr>) False s"
  have "rt_inv contents injected m n ?s"
  proof (rule rt_inv_move [OF inv])
    show "threads_ok m n ?s" by (rule threads_ok_polled [OF ok poll(2)]) (simp_all add: p)
    show "runtime_tasks contents injected m n ?s = runtime_tasks contents injected m n s"
      by (rule polled_tasks [OF k(1) poll(3)])
  qed simp_all
  then show ?thesis using step k poll(1) by auto
qed

lemma rt_inv_pop_ready:
  assumes laws: "deque_laws api contents injected" and inv: "rt_inv contents injected m n s"
    and step: "rt_step api m n (Pop_Ready k) s = Some r"
  shows "\<exists>s'. r = Inr s' \<and> rt_inv contents injected m n s'"
proof -
  obtain x p xs where pop: "pop_and_inject api 0 (rs_pollers s k) (rs_executors s) = (x, p, xs)" by (metis prod_cases3)
  have ok: "threads_ok m n s" using inv by (simp add: rt_inv_def)
  have k: "free_thread m k s" "cx_worker (rs_contexts s k) \<noteq> None" using step by (simp_all split: if_splits)
  then have r: "r = begin_run k x (put_poller k p xs s)" using step pop by simp
  note effect = pop_and_inject_tasks [OF laws pop]
  have km: "k < m" using k(1) by (simp add: free_thread_def)
  have "runtime_tasks contents injected m n (put_poller k p xs s) + option_mset x = runtime_tasks contents injected m n s"
    by (rule poller_tasks [OF km]) (use effect in simp_all)
  then show ?thesis
    unfolding r using threads_ok_poller [OF ok, of p k xs] effect k km
    by (intro rt_inv_begin [OF inv km]) (simp_all add: put_poller_def free_thread_def)
qed

lemma rt_inv_inject_ready:
  assumes laws: "deque_laws api contents injected" and inv: "rt_inv contents injected m n s"
    and step: "rt_step api m n (Inject_Ready k) s = Some r"
  shows "\<exists>s'. r = Inr s' \<and> rt_inv contents injected m n s'"
proof -
  obtain p xs where inj: "poller_inject api 0 (rs_pollers s k) (rs_executors s) = (p, xs)" by fastforce
  have ok: "threads_ok m n s" using inv by (simp add: rt_inv_def)
  have k: "k < m" and r: "r = Inr (put_poller k p xs s)"
    using step inj by (simp_all add: free_thread_def split: if_splits)
  note effect = poller_inject_tasks [OF laws inj]
  have "runtime_tasks contents injected m n (put_poller k p xs s) + {#} = runtime_tasks contents injected m n s"
    by (rule poller_tasks [OF k]) (use effect in simp_all)
  then have "rt_inv contents injected m n (put_poller k p xs s)"
    using threads_ok_poller [OF ok, of p k xs] effect by (intro rt_inv_move [OF inv]) simp_all
  then show ?thesis using r by simp
qed

text \<open>The hand-over: the run queue moves with its tasks.\<close>

lemma rt_inv_get_worker:
  assumes laws: "deque_laws api contents injected" and inv: "rt_inv contents injected m n s"
    and step: "rt_step api m n (Get_Worker k i) s = Some r"
  shows "\<exists>s'. r = Inr s' \<and> rt_inv contents injected m n s'"
proof -
  obtain x p xs where pop: "pop_and_inject api 0 (rs_pollers s k) (rs_executors s) = (x, p, xs)" by (metis prod_cases3)
  have ok: "threads_ok m n s" using inv by (simp add: rt_inv_def)
  obtain q where k: "free_thread m k s" "cx_worker (rs_contexts s k) = None" and i: "i < n" "rs_workers s i = Some q"
    using step by (auto split: if_splits)
  have km: "k < m" using k(1) by (simp add: free_thread_def)
  note effect = pop_and_inject_tasks [OF laws pop]
  note get = worker_to_running_ok [where ws = "rs_workers s", OF threads_ok_at(1) [OF ok, of k] k(2) i(2)]
  let ?c = "(rs_contexts s k)\<lparr>cx_worker := Some i, cx_producer := Some q\<rparr>" and ?ws = "(rs_workers s)(i := None)"
  let ?s1 = "put_poller k p xs s"
  let ?s = "put_hand_over k ?c ?ws ?s1"
  have r: "r = begin_run k x ?s" using step pop k i get(1) by simp
  have s1: "free_thread m k ?s1" "rs_contexts ?s1 = rs_contexts s" "rs_workers ?s1 = rs_workers s"
    using k(1) by (simp_all add: put_poller_def free_thread_def)
  have ok1: "threads_ok m n ?s1" by (rule threads_ok_poller [OF ok]) (use effect in simp)
  have "runtime_tasks contents injected m n ?s = runtime_tasks contents injected m n ?s1"
    by (rule hand_over_tasks [OF km i(1)]) (use get(2) in \<open>simp_all add: s1\<close>)
  moreover have "runtime_tasks contents injected m n ?s1 + option_mset x = runtime_tasks contents injected m n s"
    by (rule poller_tasks [OF km]) (use effect in simp_all)
  ultimately have q: "runtime_tasks contents injected m n s = runtime_tasks contents injected m n ?s + option_mset x" by simp
  have "threads_ok m n ?s"
    using threads_ok_get [OF ok1 s1(1) _ i(1)] k(2) i(2) by (simp add: s1)
  then show ?thesis
    unfolding r using k(1) by (intro rt_inv_begin [OF inv km _ _ _ _ _ q]) (simp_all add: put_defs free_thread_def)
qed

lemma rt_inv_give_worker:
  assumes inv: "rt_inv contents injected m n s" and step: "rt_step api m n (Give_Worker k) s = Some r"
  shows "\<exists>s'. r = Inr s' \<and> rt_inv contents injected m n s'"
proof -
  have ok: "threads_ok m n s" using inv by (simp add: rt_inv_def)
  obtain i where k: "free_thread m k s" "cx_worker (rs_contexts s k) = Some i"
    using step by (auto split: if_splits)
  note at = threads_ok_at(4) [OF ok k(2)]
  obtain q where q: "cx_producer (rs_contexts s k) = Some q" using threads_ok_at(3) [OF ok, of k] k(2) by auto
  note give = worker_to_idle_ok [where ws = "rs_workers s" and i = i, OF k(2) q]
  let ?c = "(rs_contexts s k)\<lparr>cx_worker := None, cx_producer := None\<rparr>" and ?ws = "(rs_workers s)(i := Some q)"
  let ?s = "put_hand_over k ?c ?ws s"
  have "rt_inv contents injected m n ?s"
  proof (rule rt_inv_move [OF inv])
    show "threads_ok m n ?s" by (rule threads_ok_give [OF ok k])
    show "runtime_tasks contents injected m n ?s = runtime_tasks contents injected m n s"
      by (rule hand_over_tasks [where i = i]) (use at give(2) in simp_all)
  qed simp_all
  then show ?thesis using step k at give(1) by auto
qed

lemma rt_inv_step:
  assumes laws: "deque_laws api contents injected" and inv: "rt_inv contents injected m n s"
    and step: "rt_step api m n a s = Some r"
  shows "\<exists>s'. r = Inr s' \<and> rt_inv contents injected m n s'"
proof (cases a)
  case (Spawn who f)
  then show ?thesis using rt_inv_spawn [OF laws inv] step by blast
next
  case (Wake t)
  then show ?thesis using rt_inv_wake [OF inv] step by blast
next
  case (Push t who)
  then show ?thesis using rt_inv_push [OF laws inv] step by blast
next
  case (Take k src)
  then show ?thesis using rt_inv_take [OF laws inv] step by blast
next
  case (Run k out)
  then show ?thesis using rt_inv_run [OF laws inv] step by blast
next
  case (Join t c)
  then show ?thesis using rt_inv_join [OF inv] step by blast
next
  case (Begin_Poll k)
  then show ?thesis using rt_inv_begin_poll [OF inv] step by blast
next
  case (End_Poll k)
  then show ?thesis using rt_inv_end_poll [OF inv] step by blast
next
  case (Pop_Ready k)
  then show ?thesis using rt_inv_pop_ready [OF laws inv] step by blast
next
  case (Inject_Ready k)
  then show ?thesis using rt_inv_inject_ready [OF laws inv] step by blast
next
  case (Get_Worker k i)
  then show ?thesis using rt_inv_get_worker [OF laws inv] step by blast
next
  case (Give_Worker k)
  then show ?thesis using rt_inv_give_worker [OF inv] step by blast
qed

lemma rt_inv_start:
  assumes laws: "deque_laws api contents injected"
  shows "rt_inv contents injected m n (rt_start api)"
proof -
  have "contents (da_new api) = []" "injected (da_inj_new api) = []"
    using laws by (simp_all add: deque_laws_def)
  then show ?thesis
    by (simp add: rt_inv_def rt_start_def threads_ok_def thread_ok_def owners_def context_ok_def context_enter_def
        running_ok_def runtime_tasks_def thread_tasks_def idle_tasks_def context_tasks_def injector_tasks_def
        producer_new_def poller_default_def)
qed

lemma rt_safe_machine:
  assumes laws: "deque_laws api contents injected"
  shows "safe_machine (rt_step api m n) (rt_start api) (rt_inv contents injected m n)"
proof
  show "rt_inv contents injected m n (rt_start api)" by (rule rt_inv_start [OF laws])
qed (use rt_inv_step [OF laws] in fastforce)+

end
