(* ===== verification/Runtime_Properties.thy ===== *)
theory Runtime_Properties
  imports Runtime_Proofs
begin

text \<open>
  What holds of the whole runtime: no panic, one place for every task, no lost task, and calls of \<open>run\<close> that return.
\<close>

subsection \<open>Properties\<close>

lemma reach_rt_inv:
  "deque_laws api contents injected \<Longrightarrow> reach (rt_step api m n) (rt_start api) s \<Longrightarrow> rt_inv contents injected m n s"
  by (rule invariant_machine.reach_inv [OF safe_machine.axioms(1) [OF rt_safe_machine]])

lemma task_inv_places:
  assumes "task_inv t"
  shows "tk_queued t + tk_pushing t + length (filter (\<lambda>pc. pc \<noteq> R_Done) (tk_runners t)) \<le> 1"
    "tk_state t = TASK_SCHEDULED \<Longrightarrow>
      tk_queued t + tk_pushing t + length (filter (\<lambda>pc. pc \<noteq> R_Done) (tk_runners t)) = 1"
proof -
  have n: "length (tokens t) = tk_queued t + tk_pushing t + length (filter (\<lambda>pc. pc \<noteq> R_Done) (tk_runners t))"
    by (simp add: tokens_def)
  have "token_ok (tokens t) t" using assms by (simp add: task_inv_def)
  then have "length (tokens t) \<le> 1" "tk_state t = TASK_SCHEDULED \<Longrightarrow> length (tokens t) = 1"
    by (auto simp: token_ok_def live_state_def split: list.splits)
  then show "tk_queued t + tk_pushing t + length (filter (\<lambda>pc. pc \<noteq> R_Done) (tk_runners t)) \<le> 1"
    "tk_state t = TASK_SCHEDULED \<Longrightarrow>
      tk_queued t + tk_pushing t + length (filter (\<lambda>pc. pc \<noteq> R_Done) (tk_runners t)) = 1"
    unfolding n by simp_all
qed

lemma rt_inv_places:
  assumes inv: "rt_inv contents injected m n s" and t: "t < length (rs_tasks s)"
  shows "count (runtime_tasks contents injected m n s) t = tk_queued (rs_tasks s ! t)"
  using assms by (simp add: rt_inv_def)

lemma rt_inv_one_worker:
  assumes inv: "rt_inv contents injected m n s" and w: "rs_running s w = Some (t, i)" "rs_running s v = Some (t, j)"
  shows "w = v"
proof -
  let ?act = "filter (\<lambda>pc. pc \<noteq> R_Done) (tk_runners (rs_tasks s ! t))"
  have ok: "t < length (rs_tasks s)" "i < length (tk_runners (rs_tasks s ! t))" "tk_runners (rs_tasks s ! t) ! i \<noteq> R_Done"
    "j < length (tk_runners (rs_tasks s ! t))" "tk_runners (rs_tasks s ! t) ! j \<noteq> R_Done"
    using inv w by (auto simp: rt_inv_def running_ok_def)
  have one: "length ?act \<le> 1"
    using task_inv_places(1) [OF rt_inv_task [OF inv ok(1)]] by linarith
  have "{k. k < length (tk_runners (rs_tasks s ! t)) \<and> tk_runners (rs_tasks s ! t) ! k \<noteq> R_Done} \<supseteq> {i, j}"
    using ok by auto
  then have "card {i, j} \<le> length ?act"
    unfolding length_filter_conv_card by (intro card_mono) auto
  then have "i = j" using one by (cases "i = j") auto
  then show ?thesis using inv w unfolding rt_inv_def running_ok_def by (metis option.distinct(1))
qed


definition two_workers_run :: "(unit, nat, unit, nat) rt_action list" where
  "two_workers_run = [Get_Worker 0 0, Get_Worker 1 1, Spawn None (), Take 0 From_Injector, Spawn (Some 0) (), Take 1 (From_Thread 0),
     Run 0 (Future_Ready 5), Run 1 (Future_Pending ()), Wake 0]"

definition two_workers_start :: "(nat list, nat list, unit, nat, unit, nat) rt_system" where
  "two_workers_start = rt_start list_deques"


text \<open>
  C2: a task is in one place at most. In every reachable state of the runtime, a task occurs at most once in
  all run queues, the injector, and the lists of the pollers, lent to a context or not, together; then no thread
  is about to push it and none runs it; and no two threads are inside \<open>run\<close> of the same task.
\<close>

theorem task_is_in_one_place:
  assumes "deque_laws api contents injected" "reach (rt_step api m n) (rt_start api) s" "t < length (rs_tasks s)"
  shows "count (runtime_tasks contents injected m n s) t + tk_pushing (rs_tasks s ! t) +
      length (filter (\<lambda>pc. pc \<noteq> R_Done) (tk_runners (rs_tasks s ! t))) \<le> 1 \<and>
    (\<forall>w v i j. rs_running s w = Some (t, i) \<and> rs_running s v = Some (t, j) \<longrightarrow> w = v)"
proof -
  have inv: "rt_inv contents injected m n s" by (rule reach_rt_inv [OF assms(1,2)])
  show ?thesis
    using task_inv_places(1) [OF rt_inv_task [OF inv assms(3)]] rt_inv_one_worker [OF inv]
    by (auto simp: rt_inv_places [OF inv assms(3)])
qed

definition after_run :: "(unit, nat, unit, nat) rt_action list \<Rightarrow>
    (nat list, nat list, unit, nat, unit, nat) rt_system" where
  "after_run as = (case run (rt_step list_deques 2 2) two_workers_start as of
     Some (Inr s) \<Rightarrow> s | _ \<Rightarrow> two_workers_start)"

lemma after_run_reach: "reach (rt_step list_deques 2 2) (rt_start list_deques) (after_run as)"
  unfolding after_run_def two_workers_start_def
  by (auto intro: run_reach reach_start split: option.splits sum.splits)

definition both_running :: "(nat list, nat list, unit, nat, unit, nat) rt_system" where
  "both_running = after_run two_workers_run"

lemma both_running_reach: "reach (rt_step list_deques 2 2) (rt_start list_deques) both_running"
  unfolding both_running_def by (rule after_run_reach)

lemma both_running_state:
  "length (rs_tasks both_running) = 2" "rs_running both_running 0 = Some (0, 0)" "rs_running both_running 1 = Some (1, 0)"
  by code_simp+

theorem task_is_in_one_place_witness:
  "rs_running both_running 1 = Some (1, 0) \<and>
   count (runtime_tasks (\<lambda>d. d) (\<lambda>j. j) 2 2 both_running) 1 + tk_pushing (rs_tasks both_running ! 1) +
     length (filter (\<lambda>pc. pc \<noteq> R_Done) (tk_runners (rs_tasks both_running ! 1))) \<le> 1"
  using task_is_in_one_place [OF list_deques_laws both_running_reach, of 1] both_running_state by simp

text \<open>
  C4: a scheduled task is not lost. In every reachable state of the runtime, a task in state \<open>SCHEDULED\<close> is
  in exactly one place: a run queue, the injector or a poller's list holds it once, or one thread is about to push
  it, or one thread is inside its \<open>run\<close>. So no push, steal, batch, take, interception or hand-over of a worker drops
  a task that has yet to be polled.
\<close>

theorem scheduled_task_is_not_lost:
  assumes "deque_laws api contents injected" "reach (rt_step api m n) (rt_start api) s" "t < length (rs_tasks s)"
    and "tk_state (rs_tasks s ! t) = TASK_SCHEDULED"
  shows "count (runtime_tasks contents injected m n s) t + tk_pushing (rs_tasks s ! t) +
      length (filter (\<lambda>pc. pc \<noteq> R_Done) (tk_runners (rs_tasks s ! t))) = 1"
proof -
  have inv: "rt_inv contents injected m n s" by (rule reach_rt_inv [OF assms(1,2)])
  show ?thesis
    using task_inv_places(2) [OF rt_inv_task [OF inv assms(3)] assms(4)] by (simp add: rt_inv_places [OF inv assms(3)])
qed

definition polled_tasks :: "(nat list, nat list, unit, nat, unit, nat) rt_system" where
  "polled_tasks = after_run
     [Get_Worker 0 0, Get_Worker 1 1, Spawn (Some 0) (), Begin_Poll 1, Spawn (Some 1) (), Spawn (Some 1) (), End_Poll 1,
      Pop_Ready 1, Give_Worker 0]"

lemma polled_tasks_reach: "reach (rt_step list_deques 2 2) (rt_start list_deques) polled_tasks"
  unfolding polled_tasks_def by (rule after_run_reach)

theorem scheduled_task_is_not_lost_witness:
  "rs_running polled_tasks 1 = Some (1, 0) \<and>
   count (runtime_tasks (\<lambda>d. d) (\<lambda>j. j) 2 2 polled_tasks) 2 + tk_pushing (rs_tasks polled_tasks ! 2) +
     length (filter (\<lambda>pc. pc \<noteq> R_Done) (tk_runners (rs_tasks polled_tasks ! 2))) = 1"
proof -
  have "rs_running polled_tasks 1 = Some (1, 0)" by code_simp
  moreover have "length (rs_tasks polled_tasks) = 3" by code_simp
  moreover have "tk_state (rs_tasks polled_tasks ! 2) = TASK_SCHEDULED" by code_simp
  ultimately show ?thesis
    using scheduled_task_is_not_lost [OF list_deques_laws polled_tasks_reach, of 2] by simp
qed

text \<open>
  C5: a run queue has one holder. In every reachable state, the producer of a worker is at rest or exactly
  one thread has it; a thread has a producer exactly when it has a worker; a thread inside \<open>run\<close> has one and is
  not inside a poll; and a context intercepts exactly while its thread polls, with the poller's own list empty, so
  that the end of the poll overwrites nothing.
\<close>

theorem run_queue_has_one_holder:
  assumes "deque_laws api contents injected" "reach (rt_step api m n) (rt_start api) s"
  shows "(\<forall>i < n. rs_workers s i = None \<longleftrightarrow> (\<exists>k < m. cx_worker (rs_contexts s k) = Some i)) \<and>
    (\<forall>k l i. cx_worker (rs_contexts s k) = Some i \<and> cx_worker (rs_contexts s l) = Some i \<longrightarrow> k = l) \<and>
    (\<forall>k. (cx_producer (rs_contexts s k) = None \<longleftrightarrow> cx_worker (rs_contexts s k) = None) \<and>
      (rs_running s k \<noteq> None \<longrightarrow> cx_worker (rs_contexts s k) \<noteq> None \<and> cx_intercept (rs_contexts s k) = None) \<and>
      (cx_intercept (rs_contexts s k) \<noteq> None \<longleftrightarrow> rs_polling s k) \<and>
      (rs_polling s k \<longrightarrow> po_ready (rs_pollers s k) = []))"
proof -
  have "threads_ok m n s" using reach_rt_inv [OF assms] by (simp add: rt_inv_def)
  then have own: "owners m n (\<lambda>k. cx_worker (rs_contexts s k)) (rs_workers s)"
    and th: "\<And>k. thread_ok (rs_polling s k) (rs_contexts s k) (rs_pollers s k) (rs_running s k)"
    by (simp_all add: threads_ok_def)
  have "rs_workers s i = None \<longleftrightarrow> (\<exists>k < m. cx_worker (rs_contexts s k) = Some i)" if "i < n" for i
    using own that unfolding owners_def by metis
  moreover have "k = l" if "cx_worker (rs_contexts s k) = Some i" "cx_worker (rs_contexts s l) = Some i" for k l i
    using own that unfolding owners_def by metis
  moreover note th [unfolded thread_ok_def context_ok_def]
  ultimately show ?thesis by blast
qed

theorem run_queue_has_one_holder_witness:
  "rs_workers polled_tasks 1 = None \<and> (\<exists>k < 2. cx_worker (rs_contexts polled_tasks k) = Some 1)"
proof -
  have "rs_workers polled_tasks 1 = None" by code_simp
  moreover have "(1 :: nat) < 2" by simp
  ultimately show ?thesis
    using run_queue_has_one_holder [OF list_deques_laws polled_tasks_reach] by blast
qed

text \<open>
  C8: the runtime refines the machines of its tasks. Whatever the other tasks do, each task is in a state its own
  machine reaches, and the number of references in run queues that this machine counts is the number of times
  the real queues hold it; the queues hold nothing else.
\<close>

theorem runtime_refines_its_tasks:
  assumes "deque_laws api contents injected" "reach (rt_step api m n) (rt_start api) s"
  shows "(\<forall>t < length (rs_tasks s). \<exists>f. reach task_step (task_spawned f) (rs_tasks s ! t)) \<and>
    (\<forall>t. count (runtime_tasks contents injected m n s) t =
       (if t < length (rs_tasks s) then tk_queued (rs_tasks s ! t) else 0))"
  using reach_rt_inv [OF assms] by (simp add: rt_inv_def)

theorem runtime_refines_its_tasks_witness:
  "\<exists>f. reach task_step (task_spawned f) (rs_tasks both_running ! 1)"
  using runtime_refines_its_tasks [OF list_deques_laws both_running_reach] both_running_state by simp

subsection \<open>A call of \<open>run\<close> returns\<close>

text \<open>The steps a worker has left in its call of \<open>run\<close>.\<close>

fun run_rank :: "('f, 'o, 'e) runner_pc \<Rightarrow> nat" where
  "run_rank R_Load = 12"
| "run_rank R_Store = 11"
| "run_rank R_Lock = 10"
| "run_rank R_Take = 9"
| "run_rank (R_Poll f) = 8"
| "run_rank (R_Put f) = 7"
| "run_rank R_Idle = 6"
| "run_rank R_Check = 5"
| "run_rank R_Resched = 4"
| "run_rank R_Push = 3"
| "run_rank (R_Finish r) = 3"
| "run_rank R_Wake = 2"
| "run_rank R_Complete = 1"
| "run_rank R_Done = 0"

definition run_left :: "nat \<Rightarrow> ('d, 'j, 'f, 'o, 'e, 'w) rt_system \<Rightarrow> nat" where
  "run_left w s = (case rs_running s w of None \<Rightarrow> 0 | Some (t, i) \<Rightarrow> run_rank (tk_runners (rs_tasks s ! t) ! i))"

lemma run_pc_rank: "run_pc out pc t = Some (Inr (pc', t')) \<Longrightarrow> run_rank pc' < run_rank pc"
  by (cases pc; cases out; cases "tk_data t")
    (auto simp: rassert_def rbind_def split: if_splits sum.splits prod.splits)

lemma task_run_enabled: "i < length (tk_runners t) \<Longrightarrow> tk_runners t ! i \<noteq> R_Done \<Longrightarrow> task_run i out t \<noteq> None"
  by (cases "tk_runners t ! i") (auto simp: task_run_def)

text \<open>No other action moves a worker that is inside \<open>run\<close>.\<close>

definition keeps_call :: "nat \<Rightarrow> nat \<Rightarrow> nat \<Rightarrow> ('d, 'j, 'f, 'o, 'e, 'w) rt_system \<Rightarrow>
    ('d, 'j, 'f, 'o, 'e, 'w) rt_system \<Rightarrow> bool" where
  "keeps_call w t i s s' \<longleftrightarrow> rs_running s' w = Some (t, i) \<and>
     tk_runners (rs_tasks s' ! t) ! i = tk_runners (rs_tasks s ! t) ! i"

lemma keeps_call_update:
  assumes "rs_running s w = Some (t, i)" "t < length (rs_tasks s)" "i < length (tk_runners (rs_tasks s ! t))"
    and "rs_tasks s' = (rs_tasks s)[u := task]" "rs_running s' w = rs_running s w"
    and "u = t \<Longrightarrow> tk_runners task ! i = tk_runners (rs_tasks s ! t) ! i"
  shows "keeps_call w t i s s'"
  using assms by (cases "u = t") (simp_all add: keeps_call_def)

lemma end_run_other: "v \<noteq> w \<Longrightarrow> rs_running (end_run v u j s) w = rs_running s w"
  by (simp add: end_run_def split: runner_pc.splits)

lemma keeps_call_tasks:
  "rs_running s w = Some (t, i) \<Longrightarrow> rs_tasks s' = rs_tasks s \<Longrightarrow> rs_running s' = rs_running s \<Longrightarrow> keeps_call w t i s s'"
  by (simp add: keeps_call_def)

lemma keeps_call_begin:
  assumes w: "rs_running s w = Some (t, i)" "t < length (rs_tasks s)" "i < length (tk_runners (rs_tasks s ! t))"
    and s1: "rs_tasks s1 = rs_tasks s" "rs_running s1 = rs_running s"
    and v: "v \<noteq> w" and run: "begin_run v x s1 = Inr s'"
  shows "keeps_call w t i s s'"
proof (cases x)
  case None
  then show ?thesis using run s1 w(1) by (simp add: begin_run_def keeps_call_def)
next
  case (Some u)
  then obtain task where task: "task_pop (rs_tasks s ! u) = Some task"
    and s': "rs_tasks s' = (rs_tasks s)[u := task]" "rs_running s' w = rs_running s w"
    using run s1 v by (auto simp: begin_run_def split: if_splits option.splits)
  have "tk_runners task = tk_runners (rs_tasks s ! u) @ [R_Load]"
    using task by (auto simp: task_pop_def split: if_splits)
  then show ?thesis using w by (intro keeps_call_update [OF w s']) (simp add: nth_append)
qed

lemma rbind_InrE:
  assumes "rbind x f = Inr z"
  obtains y where "x = Inr y" "f y = Inr z"
  using assms by (cases x) auto

lemma other_steps_keep_call:
  assumes laws: "deque_laws api contents injected" and inv: "rt_inv contents injected m n s"
    and w: "rs_running s w = Some (t, i)" and a: "\<And>out. a \<noteq> Run w out"
    and step: "rt_step api m n a s = Some (Inr s')"
  shows "keeps_call w t i s s'"
proof -
  have t: "t < length (rs_tasks s)" "i < length (tk_runners (rs_tasks s ! t))"
    using inv w by (auto simp: rt_inv_def running_ok_def)
  note upd = keeps_call_update [OF w t] and begins = keeps_call_begin [OF w t] and tasks = keeps_call_tasks [OF w]
  have free: "v \<noteq> w" if "free_thread m v s" for v using that w by (auto simp: free_thread_def)
  show ?thesis
  proof (cases a)
    case (Spawn who f)
    then obtain ctx xs where "s' = put_dispatch who ctx xs (s\<lparr>rs_tasks := rs_tasks s @ [task_spawned f]\<rparr>)"
      using step by (auto simp: task_spawn_ok rbind_def split: if_splits sum.splits prod.splits)
    then show ?thesis using w t by (simp add: keeps_call_def nth_append)
  next
    case (Wake u)
    then have "s' = put_task u (task_wake (rs_tasks s ! u)) s" using step by (auto split: if_splits)
    then show ?thesis using task_wake_effect [of "rs_tasks s ! u"]
      by (intro upd [of s' u "task_wake (rs_tasks s ! u)"]) simp_all
  next
    case (Push u who)
    then obtain task ctx xs where task: "task_push (rs_tasks s ! u) = Some task"
      and "s' = put_dispatch who ctx xs (put_task u task s)"
      using step
      by (cases "task_schedule api 0 u (thread_context who s) (rs_executors s)") (auto split: if_splits)
    then show ?thesis using task_push_effect [OF task] by (intro upd [of s' u task]) simp_all
  next
    case (Take v src)
    then obtain p x s1 where v: "free_thread m v s" "cx_producer (rs_contexts s v) = Some p"
      and run: "take_from api m n v p src s = Some (x, s1)" and r: "begin_run v x s1 = Inr s'"
      using step by (auto split: if_splits option.splits)
    have "v < m" using v(1) by (simp add: free_thread_def)
    from take_from_queues [OF laws this v(2) run] show ?thesis by (intro begins [OF _ _ free [OF v(1)] r]) simp_all
  next
    case (Run v out)
    then obtain u j x where v: "rs_running s v = Some (u, j)" and x: "task_run j out (rs_tasks s ! u) = Some x"
      and r: "Inr s' = rbind x (\<lambda>task.
        if pushes j (rs_tasks s ! u)
        then rbind (executor_schedule api 0 u (Some (rs_contexts s v)) True (rs_executors s)) (\<lambda>(ctx, xs).
               Inr (end_run v u j (put_dispatch (Some v) ctx xs (put_task u task s))))
        else Inr (end_run v u j (put_task u task s)))"
      using step by (auto split: option.splits)
    have vw: "v \<noteq> w" using a Run by blast
    obtain task where task: "x = Inr task" and s': "rs_tasks s' = (rs_tasks s)[u := task]"
      "rs_running s' w = rs_running s w"
      using r vw by (cases x) (auto simp: rbind_def end_run_other split: if_splits sum.splits prod.splits)
    obtain pc where pc: "tk_runners task = (tk_runners (rs_tasks s ! u))[j := pc]"
      using task_run_effect [OF x [unfolded task]] by blast
    have "(u, j) \<noteq> (t, i)" using rt_inv_one_worker [OF inv w, of v j] v vw by auto
    then show ?thesis using pc by (intro upd [OF s']) auto
  next
    case (Join u c)
    then obtain x where x: "join_step c (rs_tasks s ! u) = Some x" "rbind x (\<lambda>task. Inr (put_task u task s)) = Inr s'"
      using step by (auto split: if_splits)
    then obtain task where "join_step c (rs_tasks s ! u) = Some (Inr task)" "s' = put_task u task s"
      by (cases x) auto
    then show ?thesis using join_step_effect [of c "rs_tasks s ! u" task]
      by (intro upd [of s' u task]) simp_all
  next
    case (Begin_Poll v)
    then show ?thesis using step by (intro tasks) (auto elim!: rbind_InrE split: if_splits)
  next
    case (End_Poll v)
    then show ?thesis using step by (intro tasks) (auto elim!: rbind_InrE split: if_splits)
  next
    case (Pop_Ready v)
    then have v: "free_thread m v s" using step by (auto split: if_splits)
    obtain x p xs where "begin_run v x (put_poller v p xs s) = Inr s'"
      using Pop_Ready step by (auto split: if_splits prod.splits)
    from begins [OF _ _ free [OF v] this] show ?thesis by simp
  next
    case (Inject_Ready v)
    then show ?thesis using step by (intro tasks) (auto split: if_splits prod.splits)
  next
    case (Get_Worker v j)
    then have v: "free_thread m v s" using step by (auto split: if_splits)
    obtain x c ws p xs where "begin_run v x (put_hand_over v c ws (put_poller v p xs s)) = Inr s'"
      using Get_Worker step by (auto elim!: rbind_InrE split: if_splits prod.splits)
    from begins [OF _ _ free [OF v] this] show ?thesis by simp
  next
    case (Give_Worker v)
    then show ?thesis using step by (intro tasks) (auto elim!: rbind_InrE split: if_splits)
  qed
qed

lemma run_left_other:
  assumes "deque_laws api contents injected" "rt_inv contents injected m n s" "rs_running s w = Some (t, i)"
    and "\<And>out. a \<noteq> Run w out" "rt_step api m n a s = Some (Inr s')"
  shows "rs_running s' w = Some (t, i) \<and> run_left w s' = run_left w s"
  using other_steps_keep_call [OF assms] assms(3) by (simp add: keeps_call_def run_left_def)

text \<open>The worker's own step is possible and leaves fewer.\<close>

lemma run_left_own:
  assumes laws: "deque_laws api contents injected" and inv: "rt_inv contents injected m n s"
    and w: "rs_running s w = Some (t, i)"
  shows "\<exists>s'. rt_step api m n (Run w out) s = Some (Inr s') \<and> run_left w s' < run_left w s \<and>
    (rs_running s' w = None \<or> rs_running s' w = Some (t, i))"
proof -
  have t: "t < length (rs_tasks s)" "i < length (tk_runners (rs_tasks s ! t))"
    "tk_runners (rs_tasks s ! t) ! i \<noteq> R_Done"
    using inv w by (auto simp: rt_inv_def running_ok_def)
  obtain x where x: "task_run i out (rs_tasks s ! t) = Some x"
    using task_run_enabled [OF t(2,3), of out] by auto
  then have "rt_step api m n (Run w out) s \<noteq> None" using w by simp
  then obtain s' where step: "rt_step api m n (Run w out) s = Some (Inr s')"
    using rt_inv_step [OF laws inv, of "Run w out"] by fastforce
  obtain task where task: "x = Inr task" using step w x by (cases x) auto
  obtain pc u where run: "run_pc out (tk_runners (rs_tasks s ! t) ! i) (rs_tasks s ! t) = Some (Inr (pc, u))"
    and u: "task = u\<lparr>tk_runners := (tk_runners u)[i := pc]\<rparr>"
    using x task by (auto simp: task_run_def rbind_def split: if_splits option.splits sum.splits)
  have at: "tk_runners task ! i = pc"
    using run_pc_frame [OF run] u t by simp
  obtain s1 where s1: "s' = end_run w t i s1" "rs_tasks s1 = (rs_tasks s)[t := task]" "rs_running s1 = rs_running s"
    using step w x task by (auto simp: rbind_def split: if_splits sum.splits)
  have "run_left w s' \<le> run_rank pc"
    using s1 at t w by (simp add: run_left_def end_run_def split: runner_pc.splits)
  moreover have "run_left w s = run_rank (tk_runners (rs_tasks s ! t) ! i)"
    using w by (simp add: run_left_def)
  moreover have "rs_running s' w = None \<or> rs_running s' w = Some (t, i)"
    using s1 w by (simp add: end_run_def split: runner_pc.splits)
  moreover have "run_rank pc < run_rank (tk_runners (rs_tasks s ! t) ! i)" by (rule run_pc_rank [OF run])
  ultimately show ?thesis using step by (intro exI [of _ s'] conjI) linarith+
qed

lemma run_left_running:
  assumes "rt_inv contents injected m n s" "rs_running s w = Some (t, i)"
  shows "0 < run_left w s \<and> run_left w s \<le> 12"
proof -
  have "tk_runners (rs_tasks s ! t) ! i \<noteq> R_Done" using assms by (auto simp: rt_inv_def running_ok_def)
  then show ?thesis using assms(2) by (cases "tk_runners (rs_tasks s ! t) ! i") (simp_all add: run_left_def)
qed

text \<open>The steps of worker \<open>w\<close> inside \<open>run\<close>, in a schedule.\<close>

definition own_steps :: "nat \<Rightarrow> ('f, 'o, 'e, 'w) rt_action list \<Rightarrow> nat" where
  "own_steps w as = length (filter (\<lambda>a. case a of Run v out \<Rightarrow> v = w | _ \<Rightarrow> False) as)"

lemma run_ends:
  assumes laws: "deque_laws api contents injected"
  shows "rt_inv contents injected m n s \<Longrightarrow> run (rt_step api m n) s as = Some (Inr s') \<Longrightarrow> run_left w s \<le> own_steps w as \<Longrightarrow>
    \<exists>k s''. k \<le> length as \<and> run (rt_step api m n) s (take k as) = Some (Inr s'') \<and> rs_running s'' w = None"
proof (induction as arbitrary: s)
  case Nil
  have "rs_running s w = None"
  proof (cases "rs_running s w")
    case (Some x)
    then show ?thesis using run_left_running [OF Nil.prems(1)] Nil.prems(3)
      by (cases x) (fastforce simp: own_steps_def)
  qed
  then show ?case by simp
next
  case (Cons a as)
  show ?case
  proof (cases "rs_running s w")
    case None
    then show ?thesis by (intro exI [of _ 0] exI [of _ s]) simp
  next
    case (Some x)
    obtain t i where w: "rs_running s w = Some (t, i)" using Some by (cases x) simp
    obtain s1 where step: "rt_step api m n a s = Some (Inr s1)" and rest: "run (rt_step api m n) s1 as = Some (Inr s')"
      using Cons.prems(2) by (auto split: option.splits sum.splits)
    have inv: "rt_inv contents injected m n s1" using rt_inv_step [OF laws Cons.prems(1) step] by auto
    have "run_left w s1 \<le> own_steps w as"
    proof (cases "\<exists>out. a = Run w out")
      case True
      then obtain out where a: "a = Run w out" by blast
      obtain s2 where "rt_step api m n (Run w out) s = Some (Inr s2)" "run_left w s2 < run_left w s"
        using run_left_own [OF laws Cons.prems(1) w, of out] by blast
      then have "run_left w s1 < run_left w s" using step unfolding a by (simp only: option.inject sum.inject)
      then show ?thesis using Cons.prems(3) True by (auto simp: own_steps_def)
    next
      case False
      then have "run_left w s1 = run_left w s"
        using run_left_other [OF laws Cons.prems(1) w _ step] by blast
      moreover have "own_steps w (a # as) = own_steps w as"
        using False by (cases a) (auto simp: own_steps_def)
      ultimately show ?thesis using Cons.prems(3) by simp
    qed
    from Cons.IH [OF inv rest this] obtain k s'' where
      k: "k \<le> length as" "run (rt_step api m n) s1 (take k as) = Some (Inr s'')" "rs_running s'' w = None" by blast
    then show ?thesis using step by (intro exI [of _ "Suc k"] exI [of _ s'']) simp
  qed
qed

text \<open>
  C12: a call of \<open>run\<close> is never stuck and returns. Its worker can always take the next step, which leaves fewer,
  and it is back from the call within twelve of its own steps in every schedule of all workers, wakers and join
  handles; only the future's \<open>poll\<close>, one of these steps, is not the runtime's code.
\<close>

theorem run_call_returns:
  assumes "deque_laws api contents injected" "reach (rt_step api m n) (rt_start api) s"
    and "rs_running s w = Some (t, i)"
  shows "(\<exists>s'. rt_step api m n (Run w out) s = Some (Inr s') \<and> run_left w s' < run_left w s) \<and> run_left w s \<le> 12 \<and>
    (\<forall>as s'. run (rt_step api m n) s as = Some (Inr s') \<and> own_steps w as \<ge> 12 \<longrightarrow>
       (\<exists>k s''. k \<le> length as \<and> run (rt_step api m n) s (take k as) = Some (Inr s'') \<and> rs_running s'' w = None))"
proof -
  have inv: "rt_inv contents injected m n s" by (rule reach_rt_inv [OF assms(1,2)])
  note left = run_left_running [OF inv assms(3)]
  have "\<exists>k s''. k \<le> length as \<and> run (rt_step api m n) s (take k as) = Some (Inr s'') \<and> rs_running s'' w = None"
    if "run (rt_step api m n) s as = Some (Inr s')" "own_steps w as \<ge> 12" for as s'
  proof (rule run_ends [OF assms(1) inv that(1)])
    show "run_left w s \<le> own_steps w as" using left that(2) by linarith
  qed
  then show ?thesis using run_left_own [OF assms(1) inv assms(3)] left by blast
qed

theorem run_call_returns_witness:
  "rs_running both_running 0 = Some (0, 0) \<and> run_left 0 both_running \<le> 12"
  using run_call_returns [OF list_deques_laws both_running_reach both_running_state(2)] both_running_state by blast

end
