(* ===== verification/Runtime_Build.thy ===== *)
theory Runtime_Build
  imports Scheduler Dispatch Timer_Queue Net_Poller Random_Source Context_Tls
begin

text \<open>
  Building a runtime: \<open>Executor::from\<close> of \<open>src/src/runtime/internal/executor.rs\<close> over the constructors of its
  parts, and the facade \<open>Runtime\<close> of \<open>src/src/runtime/mod.rs\<close>. What \<open>mio\<close> answers while the selector is made,
  the clock and the number of processors are arguments.
\<close>

subsection \<open>The executor\<close>

text \<open>The results of \<open>mio::Poll::new\<close>, of \<open>try_clone\<close> on its registry and of \<open>mio::Waker::new\<close>.\<close>

record selector_results =
  sr_poll :: "unit io_result"
  sr_clone :: "unit io_result"
  sr_waker :: "unit io_result"

definition net_poller_new :: "selector_results \<Rightarrow> 'w net_poller io_result" where
  "net_poller_new sr =
     (case sr_poll sr of
        Inl e \<Rightarrow> Inl e
      | Inr _ \<Rightarrow>
          (case sr_clone sr of
             Inl e \<Rightarrow> Inl e
           | Inr _ \<Rightarrow> (case sr_waker sr of Inl e \<Rightarrow> Inl e | Inr _ \<Rightarrow> Inr np_new)))"

definition queue_new :: "('d, 'j, 'r) deque_api \<Rightarrow> 'd producer option" where
  "queue_new api = Some (producer_new api)"

record ('d, 'w) rt_worker =
  wk_run_queue :: "'d producer option"
  wk_timer_queue :: "'w timer_queue"

record ('d, 'j, 'w) rt_executor =
  re_executor :: executor
  re_net_poller :: "'w net_poller"
  re_thread_pool :: thread_pool
  re_injector :: 'j
  re_rng_iter_source :: random_iter_source
  re_workers :: "('d, 'w) rt_worker list"

definition executor_new :: "(nat \<Rightarrow> nat \<Rightarrow> nat) \<Rightarrow> ('d, 'j, 'r) deque_api \<Rightarrow> selector_results \<Rightarrow> instant \<Rightarrow> 'c config \<Rightarrow>
    ('d, 'j, 'w) rt_executor io_result res" where
  "executor_new gcd_fn api sr started cf =
     (case net_poller_new sr of
        Inl e \<Rightarrow> Inr (Inl e)
      | Inr net_poller \<Rightarrow>
          rbind (unwrap (cf_worker_threads cf)) (\<lambda>workers.
          rbind (pool_from cf) (\<lambda>pool.
          rbind (random_iter_source_from gcd_fn workers) (\<lambda>rng.
            Inr (Inr \<lparr>re_executor = executor_from workers, re_net_poller = net_poller, re_thread_pool = pool,
              re_injector = da_inj_new api, re_rng_iter_source = rng,
              re_workers = map (\<lambda>_. \<lparr>wk_run_queue = queue_new api, wk_timer_queue = tq_new started\<rparr>) [0..<workers]\<rparr>)))))"

subsection \<open>The facade\<close>

text \<open>A \<open>Runtime\<close> is its \<open>Handle\<close>, which is its executor; the executor a thread is in has a number.\<close>

definition handle_new :: "(nat \<Rightarrow> nat \<Rightarrow> nat) \<Rightarrow> ('d, 'j, 'r) deque_api \<Rightarrow> selector_results \<Rightarrow> instant \<Rightarrow> 'c config \<Rightarrow>
    ('d, 'j, 'w) rt_executor io_result res" where
  "handle_new gcd_fn api sr started cf = executor_new gcd_fn api sr started cf"

definition runtime_from :: "(nat \<Rightarrow> nat \<Rightarrow> nat) \<Rightarrow> ('d, 'j, 'r) deque_api \<Rightarrow> selector_results \<Rightarrow> instant \<Rightarrow> 'c config \<Rightarrow>
    ('d, 'j, 'w) rt_executor io_result res" where
  "runtime_from gcd_fn api sr started cf = handle_new gcd_fn api sr started cf"

definition build :: "(nat \<Rightarrow> nat \<Rightarrow> nat) \<Rightarrow> ('d, 'j, 'r) deque_api \<Rightarrow> selector_results \<Rightarrow> instant \<Rightarrow> nat \<Rightarrow> 'c config \<Rightarrow>
    ('d, 'j, 'w) rt_executor io_result res" where
  "build gcd_fn api sr started num_cpus cf = runtime_from gcd_fn api sr started (builder_build num_cpus cf)"

definition runtime_new :: "(nat \<Rightarrow> nat \<Rightarrow> nat) \<Rightarrow> ('d, 'j, 'r) deque_api \<Rightarrow> selector_results \<Rightarrow> instant \<Rightarrow> nat \<Rightarrow>
    ('d, 'j, 'w) rt_executor io_result res" where
  "runtime_new gcd_fn api sr started num_cpus = build gcd_fn api sr started num_cpus config_default"

definition runtime_spawn :: "('d, 'j, 'r) deque_api \<Rightarrow> nat \<Rightarrow> 'r \<Rightarrow> ('d, 'r) rt_context option \<Rightarrow>
    'j executors \<Rightarrow> (u8 \<times> ('d, 'r) rt_context option \<times> 'j executors) res" where
  "runtime_spawn api handle r ctx xs = handle_spawn api handle r ctx xs"

definition runtime_enter :: "nat \<Rightarrow> tls \<Rightarrow> context_ref \<times> tls" where
  "runtime_enter handle s = handle_enter handle s"

subsection \<open>What is built\<close>

text \<open>
  The part of an executor that the scheduler moves: the producer of worker \<open>i\<close> is named \<open>i\<close> when it is in its
  run queue.
\<close>

definition abs_scheduler :: "('d, 'j, 'w) rt_executor \<Rightarrow> scheduler" where
  "abs_scheduler ex =
     \<lparr>sd_exec = re_executor ex, sd_pool = re_thread_pool ex,
      sd_queues = map (\<lambda>i. map_option (\<lambda>_. i) (wk_run_queue (re_workers ex ! i))) [0..<length (re_workers ex)],
      sd_threads = []\<rparr>"

definition selector_ok :: "selector_results \<Rightarrow> bool" where
  "selector_ok sr \<longleftrightarrow> (\<exists>u. sr_poll sr = Inr u) \<and> (\<exists>u. sr_clone sr = Inr u) \<and> (\<exists>u. sr_waker sr = Inr u)"

lemma net_poller_new_ok: "selector_ok sr \<Longrightarrow> net_poller_new sr = Inr np_new"
  by (auto simp: selector_ok_def net_poller_new_def)

lemma net_poller_new_err: "\<not> selector_ok sr \<Longrightarrow> \<exists>e. net_poller_new sr = Inl e"
  by (auto simp: selector_ok_def net_poller_new_def split: sum.splits)

text \<open>The numbers of workers and of blocking threads after the defaults.\<close>

definition chosen_workers :: "nat \<Rightarrow> 'c config \<Rightarrow> nat option" where
  "chosen_workers num_cpus cf = cf_worker_threads (builder_build num_cpus cf)"

definition chosen_blocking :: "'c config \<Rightarrow> nat" where
  "chosen_blocking cf = (case cf_blocking_threads cf of Some b \<Rightarrow> b | None \<Rightarrow> 512)"

lemma pool_from_builder:
  assumes "chosen_workers num_cpus cf = Some n" "n \<noteq> 0"
  shows "pool_from (builder_build num_cpus cf) =
    (if n + chosen_blocking cf < 2 ^ 64
     then Inr \<lparr>tp_max = n + chosen_blocking cf, tp_running = True, tp_pending = 0, tp_spawned = 0, tp_idle = []\<rparr>
     else Inl Arithmetic_Overflow)"
proof -
  have b: "cf_blocking_threads (builder_build num_cpus cf) = Some (chosen_blocking cf)"
    by (simp add: builder_build_def chosen_blocking_def nonzero_def or_else_def split: option.splits)
  show ?thesis
    using assms b by (simp add: pool_from_def max_threads_def chosen_workers_def usize_add_def nonzero_def)
qed

lemma random_iter_source_one: "random_iter_source_from gcd_fn (Suc 0) = Inl Unwrap_None"
  by (simp add: random_iter_source_from_def nonzero_usize_def)

lemma build_eq:
  assumes gcd: "\<And>a b. gcd_fn a b = gcd a b" and n: "chosen_workers num_cpus cf = Some n" "2 \<le> n"
    and lim: "n + chosen_blocking cf < 2 ^ 64" and sel: "selector_ok sr"
  shows "build gcd_fn api sr started num_cpus cf = Inr (Inr
    \<lparr>re_executor = executor_from n, re_net_poller = np_new,
     re_thread_pool = \<lparr>tp_max = n + chosen_blocking cf, tp_running = True, tp_pending = 0, tp_spawned = 0, tp_idle = []\<rparr>,
     re_injector = da_inj_new api, re_rng_iter_source = \<lparr>ri_range = n, ri_prime = n - 1\<rparr>,
     re_workers = map (\<lambda>_. \<lparr>wk_run_queue = Some (producer_new api), wk_timer_queue = tq_new started\<rparr>) [0..<n]\<rparr>)"
proof -
  have "cf_worker_threads (builder_build num_cpus cf) = Some n" using n(1) by (simp add: chosen_workers_def)
  then show ?thesis
    using pool_from_builder [OF n(1)] n(2) lim random_iter_source_from_ok [OF gcd n(2)]
    by (simp add: build_def runtime_from_def handle_new_def executor_new_def queue_new_def net_poller_new_ok [OF sel])
qed





end
