(* ===== verification/Pool_Thread.thy ===== *)
theory Pool_Thread
  imports Block_On
begin

text \<open>
  A thread of the pool: \<open>ThreadPool::run_with\<close> of \<open>src/src/runtime/internal/thread_pool.rs\<close> drives the future
  \<open>ThreadPoolFuture\<close> with \<open>block_on\<close>, as any other future (\<open>Block_On\<close>). The future makes no waker of its context,
  so nothing but the thread itself makes it scheduled.
\<close>

subsection \<open>State and steps\<close>

text \<open>\<open>ThreadPoolFuture\<close> is its field \<open>polled\<close>.\<close>

definition pool_future_poll :: "bool \<Rightarrow> unit option \<times> bool" where
  "pool_future_poll polled = (if polled then Some () else None, True)"

record pool_thread =
  pt_block :: "unit block_on"
  pt_polled :: bool

definition pool_thread_start :: pool_thread where
  "pool_thread_start = \<lparr>pt_block = block_start, pt_polled = False\<rparr>"

text \<open>
  \<open>P_Advance\<close> is the next step of the thread, which at the poll runs the future above; the other actions are
  those of \<open>block_on\<close> without the waker, and \<open>P_Shutdown\<close> is the unpark of \<open>ThreadPool::shutdown\<close>.
\<close>

datatype pool_action =
    P_Advance
  | P_Searched bool
  | P_Times_Out
  | P_Loop bool
  | P_Hand_Worker nat
  | P_Shutdown

definition on_block :: "unit block_action \<Rightarrow> pool_thread \<Rightarrow> pool_thread res option" where
  "on_block a t = map_option (\<lambda>r. rbind r (\<lambda>s. Inr (t\<lparr>pt_block := s\<rparr>))) (block_step a (pt_block t))"

fun pool_step :: "pool_action \<Rightarrow> pool_thread \<Rightarrow> pool_thread res option" where
  "pool_step P_Advance t =
     (if bo_pc (pt_block t) = B_Poll
      then let (result, polled) = pool_future_poll (pt_polled t)
           in on_block (Polled result) (t\<lparr>pt_polled := polled\<rparr>)
      else on_block Advance t)"
| "pool_step (P_Searched found) t = on_block (Searched found) t"
| "pool_step P_Times_Out t = on_block Park_Times_Out t"
| "pool_step (P_Loop notified_flag) t = on_block (Loop notified_flag) t"
| "pool_step (P_Hand_Worker i) t = on_block (Hand_Worker i) t"
| "pool_step P_Shutdown t = Some (Inr (t\<lparr>pt_block := block_unpark None (pt_block t)\<rparr>))"

subsection \<open>The invariant\<close>

text \<open>How often the future was polled, at each point.\<close>

fun polls_ok :: "unit block_pc \<Rightarrow> u8 \<Rightarrow> bool \<Rightarrow> nat \<Rightarrow> bool" where
  "polls_ok B_Start st polled n = (st = TASK_IDLE \<and> \<not> polled \<and> n = 0)"
| "polls_ok B_Check st polled n =
     (if n = 0 then st = TASK_SCHEDULED \<and> \<not> polled else n = 1 \<and> polled \<and> (st = TASK_IDLE \<or> st = TASK_SCHEDULED))"
| "polls_ok B_Store st polled n = (st = TASK_SCHEDULED \<and> n = (if polled then 1 else 0))"
| "polls_ok B_Poll st polled n = (st = TASK_RUNNING \<and> n = (if polled then 2 else 1))"
| "polls_ok B_Idle st polled n = (st = TASK_RUNNING \<and> polled \<and> n = 1)"
| "polls_ok B_Notified st polled n = False"
| "polls_ok B_Resched st polled n = False"
| "polls_ok (B_Done v) st polled n = (polled \<and> n = 2)"
| "polls_ok _ st polled n = (st = TASK_IDLE \<and> polled \<and> n = 1)"

definition pool_inv :: "pool_thread \<Rightarrow> bool" where
  "pool_inv t \<longleftrightarrow> block_inv (pt_block t) \<and>
     polls_ok (bo_pc (pt_block t)) (bo_state (pt_block t)) (pt_polled t) (bo_polls (pt_block t))"

lemma pool_inv_start: "pool_inv pool_thread_start"
  using block_inv_start by (simp add: pool_inv_def pool_thread_start_def block_start_def task_state_new_def)

lemma on_block_inv:
  assumes "block_inv (pt_block t)" "on_block a t = Some r"
    and "\<And>s. block_step a (pt_block t) = Some (Inr s) \<Longrightarrow> polls_ok (bo_pc s) (bo_state s) (pt_polled t) (bo_polls s)"
  shows "\<exists>t'. r = Inr t' \<and> pool_inv t'"
proof -
  obtain q where q: "block_step a (pt_block t) = Some q" using assms(2) by (auto simp: on_block_def)
  obtain s where "q = Inr s" "block_inv s" using block_step_inv [OF assms(1) q] by blast
  then show ?thesis using assms(2,3) q by (auto simp: on_block_def pool_inv_def)
qed

lemma pool_advance_ok:
  assumes "polls_ok (bo_pc s) (bo_state s) polled (bo_polls s)" "block_advance s = Some (Inr s')"
  shows "polls_ok (bo_pc s') (bo_state s') polled (bo_polls s')"
  using assms by (cases "bo_pc s") (auto simp: block_advance_def rbind_def split: sum.splits if_splits option.splits)

lemma block_unpark_frame [simp]:
  "bo_pc (block_unpark w s) = bo_pc s" "bo_state (block_unpark w s) = bo_state s" "bo_polls (block_unpark w s) = bo_polls s"
  by (simp_all add: block_unpark_def)

lemma shutdown_inv: "block_inv s \<Longrightarrow> block_inv (block_unpark None s)"
  by (cases "bo_park s"; cases "bo_pc s"; auto simp: block_unpark_def unpark_result_def block_inv_def)

lemma pool_step_inv:
  assumes inv: "pool_inv t" and r: "pool_step a t = Some r"
  shows "\<exists>t'. r = Inr t' \<and> pool_inv t'"
proof -
  have b: "block_inv (pt_block t)"
    and p: "polls_ok (bo_pc (pt_block t)) (bo_state (pt_block t)) (pt_polled t) (bo_polls (pt_block t))"
    using inv by (simp_all add: pool_inv_def)
  show ?thesis
  proof (cases a)
    case P_Advance
    show ?thesis
    proof (cases "bo_pc (pt_block t) = B_Poll")
      case True
      let ?t = "t\<lparr>pt_polled := True\<rparr>" and ?res = "fst (pool_future_poll (pt_polled t))"
      have "on_block (Polled ?res) ?t = Some r" using r P_Advance True by (simp add: pool_future_poll_def)
      then show ?thesis
        by (rule on_block_inv [rotated]) (use b p True in \<open>auto simp: pool_future_poll_def split: if_splits\<close>)
    next
      case False
      then have "on_block Advance t = Some r" using r P_Advance by simp
      then show ?thesis
        by (rule on_block_inv [OF b]) (use pool_advance_ok [OF p] in simp)
    qed
  next
    case (P_Searched found)
    then have "on_block (Searched found) t = Some r" using r by simp
    then show ?thesis by (rule on_block_inv [OF b]) (use p in \<open>auto split: if_splits\<close>)
  next
    case P_Times_Out
    then have "on_block Park_Times_Out t = Some r" using r by simp
    then show ?thesis by (rule on_block_inv [OF b]) (use p in \<open>auto split: if_splits option.splits\<close>)
  next
    case (P_Loop flag)
    then have "on_block (Loop flag) t = Some r" using r by simp
    then show ?thesis
      by (rule on_block_inv [OF b]) (use p in \<open>auto simp: block_loop_def Let_def split: block_pc.splits\<close>)
  next
    case (P_Hand_Worker i)
    then have "on_block (Hand_Worker i) t = Some r" using r by simp
    then show ?thesis by (rule on_block_inv [OF b]) (use p in auto)
  next
    case P_Shutdown
    then show ?thesis using r b p shutdown_inv by (auto simp: pool_inv_def)
  qed
qed

interpretation pool: safe_machine pool_step pool_thread_start pool_inv
  by unfold_locales (use pool_inv_start pool_step_inv in fastforce)+

subsection \<open>Properties\<close>

text \<open>
  A thread of the pool polls its future at most twice and leaves at the second poll: in every reachable state
  the future was polled twice exactly when the thread has returned or is about to, and nothing panics on the way.
\<close>

theorem pool_thread_polls_twice:
  assumes "reach pool_step pool_thread_start t"
  shows "bo_polls (pt_block t) \<le> 2 \<and>
    (bo_polls (pt_block t) = 2 \<longleftrightarrow> bo_pc (pt_block t) = B_Done () \<or> bo_pc (pt_block t) = B_Poll \<and> pt_polled t) \<and>
    pool_step a t \<noteq> Some (Inl p)"
proof -
  have "pool_inv t" by (rule pool.reach_inv [OF assms])
  then have "polls_ok (bo_pc (pt_block t)) (bo_state (pt_block t)) (pt_polled t) (bo_polls (pt_block t))"
    by (simp add: pool_inv_def)
  then show ?thesis
    using pool.reach_no_panic [OF assms] by (cases "bo_pc (pt_block t)") (auto split: if_splits)
qed

text \<open>To the park, and from it to the end.\<close>

definition to_park :: "pool_action list" where
  "to_park = [P_Advance, P_Advance, P_Advance, P_Advance, P_Advance, P_Searched False, P_Advance]"

definition parked_thread :: pool_thread where
  "parked_thread = (case run pool_step pool_thread_start to_park of Some (Inr t) \<Rightarrow> t | _ \<Rightarrow> pool_thread_start)"

lemma parked_thread_reach: "reach pool_step pool_thread_start parked_thread"
  unfolding parked_thread_def by (auto intro: run_reach reach_start split: option.splits sum.splits)

theorem pool_thread_polls_twice_witness: "bo_polls (pt_block parked_thread) \<le> 2"
  using pool_thread_polls_twice [OF parked_thread_reach] by blast



end
