(* ===== verification/Thread_Life.thy ===== *)
theory Thread_Life
  imports Thread_Pool
begin

text \<open>
  The life of a thread of the pool, \<open>src/src/runtime/internal/thread_pool.rs\<close>: what \<open>ThreadPool::spawn\<close> asks of
  \<open>std::thread::Builder\<close>, what it undoes when no thread starts, and the order of the call-backs of \<open>run\<close> and
  \<open>wait\<close>. Each step of a thread in between is in \<open>Scheduler\<close> and \<open>Pool_Thread\<close>.
\<close>

subsection \<open>Starting a thread\<close>

text \<open>The name and the stack size given to the builder.\<close>

definition thread_builder :: "'c config \<Rightarrow> (string \<times> nat) res" where
  "thread_builder cf =
     rbind (unwrap (cf_on_thread_name cf)) (\<lambda>name.
     rbind (unwrap (cf_stack_size cf)) (\<lambda>stack. Inr (name, stack)))"

text \<open>The end of \<open>spawn\<close>, where the pool has counted the thread: \<open>started\<close> is what the system answers.\<close>

definition pool_start_thread :: "'c config \<Rightarrow> bool \<Rightarrow> thread_pool \<Rightarrow> (bool \<times> thread_pool) res" where
  "pool_start_thread cf started tp =
     rbind (thread_builder cf) (\<lambda>_.
       if started then Inr (True, tp) else rbind (pool_finish tp) (\<lambda>tp1. Inr (False, tp1)))"

subsection \<open>Call-backs\<close>

datatype 'c thread_event = On_Start 'c | On_Stop 'c | On_Park 'c | On_Unpark 'c | Finished

definition call_back :: "('c \<Rightarrow> 'c thread_event) \<Rightarrow> 'c option \<Rightarrow> 'c thread_event list" where
  "call_back event c = (case c of Some f \<Rightarrow> [event f] | None \<Rightarrow> [])"

text \<open>One call of \<open>wait\<close>; a thread that was unparked before it got onto the list returns at once.\<close>

definition wait_events :: "'c config \<Rightarrow> bool \<Rightarrow> 'c thread_event list" where
  "wait_events cf listed =
     (if listed then call_back On_Park (cf_on_thread_park cf) @ call_back On_Unpark (cf_on_thread_unpark cf) else [])"

text \<open>\<open>run\<close>, with the waits of its \<open>run_with\<close>; \<open>tp\<close> is the pool when that has returned.\<close>

definition pool_run :: "'c config \<Rightarrow> bool list \<Rightarrow> thread_pool \<Rightarrow> ('c thread_event list \<times> thread_pool) res" where
  "pool_run cf waits tp =
     (let start = call_back On_Start (cf_on_thread_start cf); served = concat (map (wait_events cf) waits)
      in rbind (pool_finish tp) (\<lambda>tp1.
           Inr (start @ served @ [Finished] @ call_back On_Stop (cf_on_thread_stop cf), tp1)))"

subsection \<open>Properties\<close>

text \<open>
  Starting a thread. With a configuration that the builder completed, neither \<open>unwrap\<close> of \<open>spawn\<close>
  panics; and for a pool that has just counted the thread, the failure of the system to start it gives back exactly
  the count from before, so that the limit on threads is not used up by threads that never were.
\<close>

theorem failed_start_is_undone:
  assumes "spawn_step tp = Inr (Spawn_Thread, tp1)"
  shows "(\<exists>name stack. thread_builder (builder_build cpus cf) = Inr (name, stack)) \<and>
    pool_start_thread (builder_build cpus cf) True tp1 = Inr (True, tp1) \<and>
    pool_start_thread (builder_build cpus cf) False tp1 = Inr (False, tp)"
proof -
  have name: "\<exists>name. cf_on_thread_name (builder_build cpus cf) = Some name"
    by (cases "cf_on_thread_name cf") (simp_all add: builder_build_def)
  have size: "\<exists>stack. cf_stack_size (builder_build cpus cf) = Some stack"
    by (cases "cf_stack_size cf") (auto simp: builder_build_def nonzero_def)
  obtain name stack where b: "thread_builder (builder_build cpus cf) = Inr (name, stack)"
    using name size by (auto simp: thread_builder_def)
  have tp1: "tp1 = tp\<lparr>tp_spawned := tp_spawned tp + 1\<rparr>" "tp_spawned tp < tp_max tp"
    using assms by (auto simp: spawn_step_def rassert_def split: if_splits)
  then have "pool_finish tp1 = Inr tp" by (simp add: pool_finish_def)
  then show ?thesis using b by (auto simp: pool_start_thread_def)
qed

definition fresh_pool :: "nat \<Rightarrow> thread_pool" where
  "fresh_pool limit = \<lparr>tp_max = limit, tp_running = True, tp_pending = 0, tp_spawned = 0, tp_idle = []\<rparr>"

theorem failed_start_is_undone_witness:
  "\<exists>tp1. spawn_step (fresh_pool 2) = Inr (Spawn_Thread, tp1) \<and> tp_spawned tp1 = 1 \<and>
    pool_start_thread (builder_build 4 (config_default :: nat config)) False tp1 = Inr (False, fresh_pool 2)"
proof -
  obtain tp1 where r: "spawn_step (fresh_pool 2) = Inr (Spawn_Thread, tp1)" "tp_spawned tp1 = 1"
    by (simp add: spawn_step_def fresh_pool_def)
  from failed_start_is_undone [OF r(1), where cpus = 4 and cf = config_default] r show ?thesis by blast
qed

text \<open>Parks and unparks that alternate, from the first to the last event.\<close>

definition parks :: "'c thread_event list \<Rightarrow> nat" where
  "parks ev = length (filter (\<lambda>e. case e of On_Park f \<Rightarrow> True | _ \<Rightarrow> False) ev)"

definition unparks :: "'c thread_event list \<Rightarrow> nat" where
  "unparks ev = length (filter (\<lambda>e. case e of On_Unpark f \<Rightarrow> True | _ \<Rightarrow> False) ev)"

definition alternate :: "'c thread_event list \<Rightarrow> bool" where
  "alternate ev \<longleftrightarrow> parks ev = unparks ev \<and>
     (\<forall>j. unparks (take j ev) \<le> parks (take j ev) \<and> parks (take j ev) \<le> unparks (take j ev) + 1)"

lemma parks_append [simp]: "parks (xs @ ys) = parks xs + parks ys" "unparks (xs @ ys) = unparks xs + unparks ys"
  by (simp_all add: parks_def unparks_def)

lemma alternate_Nil [simp]: "alternate []"
  by (simp add: alternate_def parks_def unparks_def)

lemma alternate_append: "alternate xs \<Longrightarrow> alternate ys \<Longrightarrow> alternate (xs @ ys)"
proof -
  assume xs: "alternate xs" and ys: "alternate ys"
  have "unparks (take j (xs @ ys)) \<le> parks (take j (xs @ ys)) \<and>
      parks (take j (xs @ ys)) \<le> unparks (take j (xs @ ys)) + 1" for j
    using xs ys by (cases "j \<le> length xs") (simp_all add: alternate_def)
  then show ?thesis using xs ys by (simp add: alternate_def)
qed

lemma alternate_concat: "(\<And>xs. xs \<in> set xss \<Longrightarrow> alternate xs) \<Longrightarrow> alternate (concat xss)"
  by (induction xss) (simp_all add: alternate_append)

lemma alternate_quiet:
  assumes "\<And>e. e \<in> set ev \<Longrightarrow> \<not> (\<exists>f. e = On_Park f \<or> e = On_Unpark f)"
  shows "alternate ev"
proof -
  have "filter (\<lambda>e. case e of On_Park f \<Rightarrow> True | _ \<Rightarrow> False) xs = []"
    "filter (\<lambda>e. case e of On_Unpark f \<Rightarrow> True | _ \<Rightarrow> False) xs = []" if "set xs \<subseteq> set ev" for xs
    using that assms by (auto simp: filter_empty_conv split: thread_event.splits)
  then have "parks xs = 0" "unparks xs = 0" if "set xs \<subseteq> set ev" for xs
    using that by (simp_all add: parks_def unparks_def)
  then show ?thesis by (simp add: alternate_def set_take_subset)
qed

lemma alternate_wait: "alternate (wait_events (cf\<lparr>cf_on_thread_park := Some p, cf_on_thread_unpark := Some u\<rparr>) listed)"
proof -
  have "unparks (take j [On_Park p, On_Unpark u]) \<le> parks (take j [On_Park p, On_Unpark u]) \<and>
      parks (take j [On_Park p, On_Unpark u]) \<le> unparks (take j [On_Park p, On_Unpark u]) + 1" for j
  proof (cases j)
    case (Suc i)
    then show ?thesis by (cases i) (simp_all add: parks_def unparks_def)
  qed (simp add: parks_def unparks_def)
  then have "alternate [On_Park p, On_Unpark u]"
    by (simp add: alternate_def) (simp add: parks_def unparks_def)
  then show ?thesis by (simp add: wait_events_def call_back_def)
qed

text \<open>
  The call-backs of a thread of the pool. Start comes first and stop last, after the pool has counted the
  thread out; in between there is nothing but park and unpark, which alternate, beginning with park, at every
  moment of the thread's life, and each thread that parks unparks before it stops.
\<close>

theorem call_backs_are_ordered:
  assumes "pool_run (cf\<lparr>cf_on_thread_park := Some p, cf_on_thread_unpark := Some u\<rparr>) waits tp = Inr (ev, tp')"
  shows "tp_spawned tp' + 1 = tp_spawned tp \<and> alternate ev \<and>
    (\<exists>served. ev = call_back On_Start (cf_on_thread_start cf) @ served @ [Finished] @ call_back On_Stop (cf_on_thread_stop cf) \<and>
      set served \<subseteq> {On_Park p, On_Unpark u})"
proof -
  let ?cf = "cf\<lparr>cf_on_thread_park := Some p, cf_on_thread_unpark := Some u\<rparr>"
  let ?served = "concat (map (wait_events ?cf) waits)"
  have ev: "ev = call_back On_Start (cf_on_thread_start cf) @ ?served @ [Finished] @ call_back On_Stop (cf_on_thread_stop cf)"
    and fin: "pool_finish tp = Inr tp'"
    using assms by (auto simp: pool_run_def)
  have "alternate ?served" by (rule alternate_concat) (auto simp: alternate_wait)
  moreover have "alternate (call_back On_Start (cf_on_thread_start cf))"
    "alternate ([Finished] @ call_back On_Stop (cf_on_thread_stop cf))"
    by (rule alternate_quiet; auto simp: call_back_def split: option.splits)+
  ultimately have "alternate ev" unfolding ev by (simp only: alternate_append)
  moreover have "set ?served \<subseteq> {On_Park p, On_Unpark u}"
    by (auto simp: wait_events_def call_back_def split: if_splits)
  moreover have "tp_spawned tp' + 1 = tp_spawned tp"
    using fin by (auto simp: pool_finish_def rassert_def split: if_splits)
  ultimately show ?thesis using ev by blast
qed

theorem call_backs_are_ordered_witness:
  "\<exists>ev tp'. pool_run (config_default\<lparr>cf_on_thread_park := Some (1 :: nat), cf_on_thread_unpark := Some 2\<rparr>) [True, False, True]
      ((fresh_pool 2)\<lparr>tp_spawned := 1\<rparr>) = Inr (ev, tp') \<and>
    ev = [On_Park 1, On_Unpark 2, On_Park 1, On_Unpark 2, Finished] \<and> alternate ev"
proof -
  obtain ev tp' where r: "pool_run (config_default\<lparr>cf_on_thread_park := Some (1 :: nat), cf_on_thread_unpark := Some 2\<rparr>)
      [True, False, True] ((fresh_pool 2)\<lparr>tp_spawned := 1\<rparr>) = Inr (ev, tp')"
    and e: "ev = [On_Park 1, On_Unpark 2, On_Park 1, On_Unpark 2, Finished]"
    by (simp add: pool_run_def wait_events_def call_back_def config_default_def pool_finish_def fresh_pool_def)
  from call_backs_are_ordered [OF r] r e show ?thesis by blast
qed

end
