(* ===== verification/Bags.thy ===== *)
theory Bags
  imports Prelude "HOL-Library.Multiset"
begin

text \<open>
  The interface of a container that threads put things into and take things out of, in no order its clients rely
  on: the idle workers of the executor and the parkers of idle threads are such. The laws are those of a
  multiset; what every sequence of operations keeps is proved from them once.
\<close>

subsection \<open>The interface\<close>

definition taken :: "'a option \<Rightarrow> 'a multiset" where
  "taken r = (case r of None \<Rightarrow> {#} | Some x \<Rightarrow> {#x#})"

lemma taken_simps [simp]: "taken None = {#}" "taken (Some x) = {#x#}"
  by (simp_all add: taken_def)

locale bag =
  fixes put :: "'a \<Rightarrow> 'c \<Rightarrow> 'c"
    and get :: "'c \<Rightarrow> ('a option \<times> 'c) res"
    and elems :: "'c \<Rightarrow> 'a multiset"
    and ok :: "'c \<Rightarrow> bool"
  assumes put_ok: "ok c \<Longrightarrow> ok (put x c)"
    and put_elems: "ok c \<Longrightarrow> elems (put x c) = add_mset x (elems c)"
    and get_law: "ok c \<Longrightarrow> \<exists>r c'. get c = Inr (r, c') \<and> ok c' \<and> elems c = elems c' + taken r \<and> (r = None \<longrightarrow> elems c = {#})"

text \<open>What happened to a container, in order.\<close>

datatype 'a bag_event = Put 'a | Got "'a option"

text \<open>The container after a history, \<open>None\<close> when it is not one of the container.\<close>

fun replay :: "('a \<Rightarrow> 'c \<Rightarrow> 'c) \<Rightarrow> ('c \<Rightarrow> ('a option \<times> 'c) res) \<Rightarrow> 'a bag_event list \<Rightarrow> 'c \<Rightarrow> 'c option" where
  "replay put get [] c = Some c"
| "replay put get (Put x # es) c = replay put get es (put x c)"
| "replay put get (Got r # es) c =
     (case get c of
        Inl p \<Rightarrow> None
      | Inr (r', c') \<Rightarrow> if r = r' then replay put get es c' else None)"

definition puts :: "'a bag_event list \<Rightarrow> 'a multiset" where
  "puts es = sum_list (map (\<lambda>e. case e of Put x \<Rightarrow> {#x#} | Got r \<Rightarrow> {#}) es)"

definition gets :: "'a bag_event list \<Rightarrow> 'a multiset" where
  "gets es = sum_list (map (\<lambda>e. case e of Put x \<Rightarrow> {#} | Got r \<Rightarrow> taken r) es)"

lemma puts_simps [simp]: "puts [] = {#}" "puts (e # es) = (case e of Put x \<Rightarrow> {#x#} | Got r \<Rightarrow> {#}) + puts es"
  by (simp_all add: puts_def)

lemma gets_simps [simp]: "gets [] = {#}" "gets (e # es) = (case e of Put x \<Rightarrow> {#} | Got r \<Rightarrow> taken r) + gets es"
  by (simp_all add: gets_def)

lemma replay_append: "replay put get (es @ es') c = Option.bind (replay put get es c) (replay put get es')"
  by (induction put get es c rule: replay.induct) (auto split: sum.splits prod.splits)

subsection \<open>What every container keeps\<close>

context bag
begin

lemma replay_keeps:
  "ok c \<Longrightarrow> replay put get es c = Some c' \<Longrightarrow> ok c' \<and> elems c' + gets es = elems c + puts es"
proof (induction es arbitrary: c)
  case (Cons e es)
  show ?case
  proof (cases e)
    case (Put x)
    then show ?thesis using Cons put_ok [of c x] put_elems [of c x] by simp
  next
    case (Got r)
    obtain r' c1 where g: "get c = Inr (r', c1)" "ok c1" "elems c = elems c1 + taken r'"
      using get_law [OF Cons.prems(1)] by blast
    then have "r = r'" "replay put get es c1 = Some c'" using Cons.prems(2) Got by (auto split: if_splits)
    with Cons.IH [OF g(2)] g(3) Got show ?thesis by (simp add: ac_simps)
  qed
qed simp

lemma get_finds: "ok c \<Longrightarrow> elems c \<noteq> {#} \<Longrightarrow> \<exists>x c'. get c = Inr (Some x, c') \<and> x \<in># elems c"
proof -
  assume "ok c" "elems c \<noteq> {#}"
  then obtain r c' where g: "get c = Inr (r, c')" "elems c = elems c' + taken r" "r \<noteq> None"
    using get_law by blast
  then show ?thesis by (cases r) simp_all
qed

text \<open>As many takes as there are elements empty it.\<close>

lemma drain:
  "ok c \<Longrightarrow> \<exists>es c'. length es = size (elems c) \<and> (\<forall>e \<in> set es. \<exists>x. e = Got (Some x)) \<and>
     replay put get es c = Some c' \<and> elems c' = {#} \<and> gets es = elems c"
proof (induction "size (elems c)" arbitrary: c)
  case 0
  then show ?case by (intro exI [of _ "[]"] exI [of _ c]) simp
next
  case (Suc n)
  obtain r c1 where g: "get c = Inr (r, c1)" "ok c1" "elems c = elems c1 + taken r" "r = None \<longrightarrow> elems c = {#}"
    using get_law [OF Suc.prems] by blast
  then obtain x where r: "r = Some x" using Suc.hyps(2) by (cases r) auto
  then have "n = size (elems c1)" using g(3) Suc.hyps(2) by simp
  from Suc.hyps(1) [OF this g(2)] obtain es c' where
    "length es = size (elems c1)" "\<forall>e \<in> set es. \<exists>x. e = Got (Some x)" "replay put get es c1 = Some c'"
    "elems c' = {#}" "gets es = elems c1" by blast
  then show ?case using g r by (intro exI [of _ "Got (Some x) # es"] exI [of _ c']) simp
qed

end

end
