(* ===== verification/Idle_Threads.thy ===== *)
theory Idle_Threads
  imports Bags Thread_Pool Executor
begin

text \<open>
  The idle queue of \<open>src/src/runtime/internal/executor.rs\<close> step by step: \<open>pop\<close> reads \<open>pending\<close> before it takes the
  lock, and both \<open>push\<close> and \<open>pop\<close> write it while others may read it. The scheduler takes each for one step;
  that they behave so is shown here. The idle queue and the idle parkers of a full pool are containers in the
  sense of \<open>Bags\<close>.
\<close>

subsection \<open>Containers\<close>

definition idle_elems :: "idle_queue \<Rightarrow> nat multiset" where
  "idle_elems q = mset (iq_indices q)"

text \<open>The flag is exact.\<close>

definition idle_ok :: "idle_queue \<Rightarrow> bool" where
  "idle_ok q \<longleftrightarrow> (iq_pending q \<longleftrightarrow> iq_indices q \<noteq> [])"

lemma idle_pop_law:
  assumes "idle_ok q"
  shows "\<exists>r q'. idle_pop q = Inr (r, q') \<and> idle_ok q' \<and> idle_elems q = idle_elems q' + taken r \<and>
    (r = None \<longrightarrow> idle_elems q = {#})"
proof (cases "iq_indices q" rule: rev_cases)
  case Nil
  then show ?thesis using assms by (simp add: idle_pop_eq idle_ok_def idle_elems_def)
next
  case (snoc xs x)
  then show ?thesis
    using assms by (cases xs) (simp_all add: idle_pop_eq idle_ok_def idle_elems_def)
qed

interpretation idle: bag idle_push idle_pop idle_elems idle_ok
proof
  show "\<And>q x. idle_ok q \<Longrightarrow> idle_ok (idle_push x q)" "\<And>q x. idle_ok q \<Longrightarrow> idle_elems (idle_push x q) = add_mset x (idle_elems q)"
    by (simp_all add: idle_push_def idle_ok_def idle_elems_def)
qed (rule idle_pop_law)

text \<open>The parkers of a pool that runs and has all its threads: \<open>spawn\<close> takes one for each worker it is given.\<close>

definition pool_elems :: "thread_pool \<Rightarrow> nat multiset" where
  "pool_elems tp = mset (tp_idle tp)"

definition pool_full :: "thread_pool \<Rightarrow> bool" where
  "pool_full tp \<longleftrightarrow> tp_running tp \<and> tp_spawned tp = tp_max tp"

definition pool_take :: "thread_pool \<Rightarrow> (nat option \<times> thread_pool) res" where
  "pool_take tp =
     rbind (spawn_step tp) (\<lambda>(next, tp1). Inr (case next of Spawn_Unpark p \<Rightarrow> Some p | _ \<Rightarrow> None, tp1))"

lemma pool_take_law:
  assumes "pool_full tp"
  shows "\<exists>r tp'. pool_take tp = Inr (r, tp') \<and> pool_full tp' \<and> pool_elems tp = pool_elems tp' + taken r \<and>
    (r = None \<longrightarrow> pool_elems tp = {#})"
proof (cases "tp_idle tp")
  case Nil
  then show ?thesis using assms by (simp add: pool_take_def spawn_step_def pool_full_def pool_elems_def)
next
  case (Cons p ps)
  then obtain q rest where r: "swap_remove (tp_idle tp) 0 = Inr (q, rest)" by (auto simp: swap_remove_def)
  then show ?thesis
    using assms Cons swap_remove_mset [OF r] by (simp add: pool_take_def spawn_step_def pool_full_def pool_elems_def)
qed

interpretation parkers: bag pool_list pool_take pool_elems pool_full
proof
  show "\<And>tp x. pool_full tp \<Longrightarrow> pool_full (pool_list x tp)" "\<And>tp x. pool_full tp \<Longrightarrow> pool_elems (pool_list x tp) = add_mset x (pool_elems tp)"
    by (simp_all add: pool_list_def pool_full_def pool_elems_def)
qed (rule pool_take_law)

subsection \<open>The idle queue step by step\<close>

text \<open>
  Where a thread is: before the load; before the lock; under the lock with the index to remove and, for the
  record, the worker there; before the lock of a push; under it before the store; and returned.
\<close>

datatype idle_pc = Ip_Out | Ip_Load | Ip_Lock | Ip_Removing nat nat | Ip_Pushing nat | Ip_Storing nat | Ip_Returned "nat option"

text \<open>\<open>im_log\<close> is a record of what took effect, in order, and no state of the code.\<close>

record idle_sys =
  im_queue :: idle_queue
  im_lock :: "nat option"
  im_pcs :: "nat \<Rightarrow> idle_pc"
  im_log :: "nat bag_event list"

definition idle_start :: "nat \<Rightarrow> idle_sys" where
  "idle_start n = \<lparr>im_queue = idle_from n, im_lock = None, im_pcs = (\<lambda>t. Ip_Out), im_log = []\<rparr>"

datatype idle_action = Start_Pop nat | Start_Push nat nat | Step nat

definition put_pc :: "nat \<Rightarrow> idle_pc \<Rightarrow> idle_sys \<Rightarrow> idle_sys" where
  "put_pc t pc s = s\<lparr>im_pcs := (im_pcs s)(t := pc)\<rparr>"

definition put_log :: "nat bag_event \<Rightarrow> idle_sys \<Rightarrow> idle_sys" where
  "put_log e s = s\<lparr>im_log := im_log s @ [e]\<rparr>"

fun idle_step :: "idle_action \<Rightarrow> idle_sys \<Rightarrow> idle_sys res option" where
  "idle_step (Start_Pop t) s =
     (case im_pcs s t of
        Ip_Out \<Rightarrow> Some (Inr (put_pc t Ip_Load s))
      | Ip_Returned r \<Rightarrow> Some (Inr (put_pc t Ip_Load s))
      | _ \<Rightarrow> None)"
| "idle_step (Start_Push t i) s =
     (case im_pcs s t of
        Ip_Out \<Rightarrow> Some (Inr (put_pc t (Ip_Pushing i) s))
      | Ip_Returned r \<Rightarrow> Some (Inr (put_pc t (Ip_Pushing i) s))
      | _ \<Rightarrow> None)"
| "idle_step (Step t) s =
     (let q = im_queue s
      in case im_pcs s t of
           Ip_Load \<Rightarrow>
             Some (Inr (if iq_pending q then put_pc t Ip_Lock s else put_log (Got None) (put_pc t (Ip_Returned None) s)))
         | Ip_Lock \<Rightarrow>
             if im_lock s \<noteq> None then None
             else if length (iq_indices q) = 0 then Some (Inr (put_log (Got None) (put_pc t (Ip_Returned None) s)))
             else
               let i = length (iq_indices q) - 1; q1 = (if i = 0 then q\<lparr>iq_pending := False\<rparr> else q)
               in Some (rbind (index (iq_indices q) i) (\<lambda>w.
                    Inr (put_log (Got (Some w)) (put_pc t (Ip_Removing i w) (s\<lparr>im_queue := q1, im_lock := Some t\<rparr>)))))
         | Ip_Removing i w \<Rightarrow>
             Some (rbind (swap_remove (iq_indices q) i) (\<lambda>(worker, rest).
               Inr (put_pc t (Ip_Returned (Some worker)) (s\<lparr>im_queue := q\<lparr>iq_indices := rest\<rparr>, im_lock := None\<rparr>))))
         | Ip_Pushing i \<Rightarrow>
             if im_lock s \<noteq> None then None
             else Some (Inr (put_pc t (Ip_Storing i) (s\<lparr>im_queue := q\<lparr>iq_indices := iq_indices q @ [i]\<rparr>, im_lock := Some t\<rparr>)))
         | Ip_Storing i \<Rightarrow>
             Some (Inr (put_log (Put i) (put_pc t Ip_Out (s\<lparr>im_queue := q\<lparr>iq_pending := True\<rparr>, im_lock := None\<rparr>))))
         | _ \<Rightarrow> None)"

subsection \<open>The invariant\<close>

text \<open>
  The queue as it is for the others: under the lock, the last index is one that was taken already or that is not
  put yet.
\<close>

definition seen_queue :: "idle_sys \<Rightarrow> idle_queue" where
  "seen_queue s =
     (if im_lock s = None then im_queue s else (im_queue s)\<lparr>iq_indices := butlast (iq_indices (im_queue s))\<rparr>)"

definition lock_ok :: "idle_sys \<Rightarrow> nat \<Rightarrow> bool" where
  "lock_ok s t \<longleftrightarrow>
     (case im_pcs s t of
        Ip_Removing i w \<Rightarrow> im_lock s = Some t \<and> (\<exists>xs. iq_indices (im_queue s) = xs @ [w] \<and> i = length xs)
      | Ip_Storing i \<Rightarrow> im_lock s = Some t \<and> (\<exists>xs. iq_indices (im_queue s) = xs @ [i])
      | _ \<Rightarrow> im_lock s \<noteq> Some t)"

definition idle_inv :: "nat \<Rightarrow> idle_sys \<Rightarrow> bool" where
  "idle_inv n s \<longleftrightarrow> replay idle_push idle_pop (im_log s) (idle_from n) = Some (seen_queue s) \<and>
     idle_ok (seen_queue s) \<and> (\<forall>t. lock_ok s t)"

lemma idle_inv_start: "0 < n \<Longrightarrow> idle_inv n (idle_start n)"
  by (simp add: idle_inv_def idle_start_def seen_queue_def idle_ok_def idle_from_def lock_ok_def)

lemma idle_invI:
  assumes inv: "idle_inv n s"
    and log: "replay idle_push idle_pop new (seen_queue s) = Some (seen_queue s')" "im_log s' = im_log s @ new"
    and t: "lock_ok s' t" "\<And>u. u \<noteq> t \<Longrightarrow> im_pcs s' u = im_pcs s u"
    and lock: "\<And>u. u \<noteq> t \<Longrightarrow> im_lock s = Some u \<Longrightarrow> im_lock s' = Some u \<and> iq_indices (im_queue s') = iq_indices (im_queue s)"
      "\<And>u. u \<noteq> t \<Longrightarrow> im_lock s' = Some u \<Longrightarrow> im_lock s = Some u"
  shows "idle_inv n s'"
proof -
  have r: "replay idle_push idle_pop (im_log s') (idle_from n) = Some (seen_queue s')"
    using inv log by (simp add: idle_inv_def replay_append)
  moreover have "idle_ok (seen_queue s')"
    using idle.replay_keeps [OF _ log(1)] inv by (simp add: idle_inv_def)
  moreover have "lock_ok s' u" for u
  proof (cases "u = t")
    case False
    have "lock_ok s u" using inv by (simp add: idle_inv_def)
    then show ?thesis
      using t(2) [OF False] lock [OF False] by (auto simp: lock_ok_def split: idle_pc.splits)
  qed (use t in simp)
  ultimately show ?thesis by (simp add: idle_inv_def)
qed

lemma idle_put_frames [simp]:
  "im_queue (put_pc t pc s) = im_queue s" "im_lock (put_pc t pc s) = im_lock s" "im_log (put_pc t pc s) = im_log s"
  "im_pcs (put_pc t pc s) = (im_pcs s)(t := pc)" "seen_queue (put_pc t pc s) = seen_queue s"
  "im_queue (put_log e s) = im_queue s" "im_lock (put_log e s) = im_lock s" "im_log (put_log e s) = im_log s @ [e]"
  "im_pcs (put_log e s) = im_pcs s" "seen_queue (put_log e s) = seen_queue s"
  by (simp_all add: put_pc_def put_log_def seen_queue_def)

text \<open>A pop that finds nothing, at the flag or under the lock.\<close>

lemma idle_pop_none: "idle_ok q \<Longrightarrow> \<not> iq_pending q \<or> iq_indices q = [] \<Longrightarrow> idle_pop q = Inr (None, q)"
  by (simp add: idle_pop_eq)

lemma idle_inv_quiet:
  assumes "idle_inv n s" "lock_ok (put_pc t pc s) t"
  shows "idle_inv n (put_pc t pc s)"
  by (rule idle_invI [OF assms(1), where new = "[]" and t = t]) (use assms(2) in simp_all)

lemma idle_inv_none:
  assumes inv: "idle_inv n s" and t: "im_lock s \<noteq> Some t" and none: "\<not> iq_pending (seen_queue s)"
  shows "idle_inv n (put_log (Got None) (put_pc t (Ip_Returned None) s))"
proof (rule idle_invI [OF inv, where new = "[Got None]" and t = t])
  have "idle_pop (seen_queue s) = Inr (None, seen_queue s)"
    using inv none by (intro idle_pop_none) (simp_all add: idle_inv_def)
  then show "replay idle_push idle_pop [Got None] (seen_queue s) =
      Some (seen_queue (put_log (Got None) (put_pc t (Ip_Returned None) s)))" by simp
qed (use t in \<open>simp_all add: lock_ok_def\<close>)

lemma seen_pending [simp]: "iq_pending (seen_queue s) = iq_pending (im_queue s)"
  by (simp add: seen_queue_def)

lemma idle_inv_lock_pop:
  assumes inv: "idle_inv n s" and l: "im_lock s = None" and q: "iq_indices (im_queue s) = xs @ [w]"
  shows "idle_inv n (put_log (Got (Some w)) (put_pc t (Ip_Removing (length xs) w)
    (s\<lparr>im_queue := (if length xs = 0 then (im_queue s)\<lparr>iq_pending := False\<rparr> else im_queue s), im_lock := Some t\<rparr>)))"
    (is "idle_inv n ?s")
proof (rule idle_invI [OF inv, where new = "[Got (Some w)]" and t = t])
  have "idle_ok (im_queue s)" using inv l by (simp add: idle_inv_def seen_queue_def)
  then have "idle_pop (im_queue s) = Inr (Some w, seen_queue ?s)"
    using q by (simp add: idle_pop_eq idle_ok_def seen_queue_def put_pc_def put_log_def)
  then show "replay idle_push idle_pop [Got (Some w)] (seen_queue s) = Some (seen_queue ?s)"
    using l by (simp add: seen_queue_def [of s])
qed (use l q in \<open>simp_all add: lock_ok_def\<close>)

lemma idle_inv_remove:
  assumes inv: "idle_inv n s" and t: "im_lock s = Some t" and q: "iq_indices (im_queue s) = xs @ [w]"
  shows "idle_inv n (put_pc t (Ip_Returned r) (s\<lparr>im_queue := (im_queue s)\<lparr>iq_indices := xs\<rparr>, im_lock := None\<rparr>))"
  by (rule idle_invI [OF inv, where new = "[]" and t = t]) (use t q in \<open>simp_all add: lock_ok_def seen_queue_def\<close>)

lemma idle_inv_push:
  assumes inv: "idle_inv n s" and l: "im_lock s = None"
  shows "idle_inv n (put_pc t (Ip_Storing i)
    (s\<lparr>im_queue := (im_queue s)\<lparr>iq_indices := iq_indices (im_queue s) @ [i]\<rparr>, im_lock := Some t\<rparr>))"
  by (rule idle_invI [OF inv, where new = "[]" and t = t]) (use l in \<open>simp_all add: lock_ok_def seen_queue_def\<close>)

lemma idle_inv_store:
  assumes inv: "idle_inv n s" and t: "im_lock s = Some t" and q: "iq_indices (im_queue s) = xs @ [i]"
  shows "idle_inv n (put_log (Put i) (put_pc t Ip_Out
    (s\<lparr>im_queue := (im_queue s)\<lparr>iq_pending := True\<rparr>, im_lock := None\<rparr>)))"
  by (rule idle_invI [OF inv, where new = "[Put i]" and t = t])
    (use t q in \<open>simp_all add: lock_ok_def seen_queue_def idle_push_def\<close>)

lemma swap_remove_end: "swap_remove (xs @ [w]) (length xs) = Inr (w, xs)"
  using swap_remove_last [of "xs @ [w]"] by simp

lemma idle_step_inv:
  assumes inv: "idle_inv n s" and step: "idle_step a s = Some r"
  shows "\<exists>s'. r = Inr s' \<and> idle_inv n s'"
proof (cases a)
  case (Start_Pop t)
  have "lock_ok s t" using inv by (simp add: idle_inv_def)
  then show ?thesis
    using step Start_Pop by (auto simp: lock_ok_def split: idle_pc.splits intro!: idle_inv_quiet [OF inv])
next
  case (Start_Push t i)
  have "lock_ok s t" using inv by (simp add: idle_inv_def)
  then show ?thesis
    using step Start_Push by (auto simp: lock_ok_def split: idle_pc.splits intro!: idle_inv_quiet [OF inv])
next
  case (Step t)
  have lock: "lock_ok s t" using inv by (simp add: idle_inv_def)
  show ?thesis
  proof (cases "im_pcs s t")
    case Ip_Load
    then have free: "im_lock s \<noteq> Some t" using lock by (simp add: lock_ok_def)
    show ?thesis
    proof (cases "iq_pending (im_queue s)")
      case True
      then have "r = Inr (put_pc t Ip_Lock s)" using step Step Ip_Load by simp
      then show ?thesis using idle_inv_quiet [OF inv] free by (simp add: lock_ok_def)
    next
      case False
      then have "r = Inr (put_log (Got None) (put_pc t (Ip_Returned None) s))" using step Step Ip_Load by simp
      then show ?thesis using idle_inv_none [OF inv free] False by simp
    qed
  next
    case Ip_Lock
    then have l: "im_lock s = None" using step Step by (cases "im_lock s") simp_all
    show ?thesis
    proof (cases "iq_indices (im_queue s)" rule: rev_cases)
      case Nil
      have "\<not> iq_pending (im_queue s)" using inv l Nil by (simp add: idle_inv_def seen_queue_def idle_ok_def)
      moreover have "r = Inr (put_log (Got None) (put_pc t (Ip_Returned None) s))"
        using step Step Ip_Lock l Nil by simp
      ultimately show ?thesis using idle_inv_none [OF inv, of t] l by simp
    next
      case (snoc xs w)
      then have "r = Inr (put_log (Got (Some w)) (put_pc t (Ip_Removing (length xs) w)
          (s\<lparr>im_queue := (if length xs = 0 then (im_queue s)\<lparr>iq_pending := False\<rparr> else im_queue s), im_lock := Some t\<rparr>)))"
        using step Step Ip_Lock l by (simp add: Let_def)
      then show ?thesis using idle_inv_lock_pop [OF inv l snoc] by blast
    qed
  next
    case (Ip_Removing i w)
    then obtain xs where t: "im_lock s = Some t" and q: "iq_indices (im_queue s) = xs @ [w]" "i = length xs"
      using lock by (auto simp: lock_ok_def)
    then have "r = Inr (put_pc t (Ip_Returned (Some w)) (s\<lparr>im_queue := (im_queue s)\<lparr>iq_indices := xs\<rparr>, im_lock := None\<rparr>))"
      using step Step Ip_Removing by (simp add: swap_remove_end)
    then show ?thesis using idle_inv_remove [OF inv t q(1)] by blast
  next
    case (Ip_Pushing i)
    then show ?thesis using step Step idle_inv_push [OF inv] by (cases "im_lock s") (auto simp: Let_def)
  next
    case (Ip_Storing i)
    then obtain xs where t: "im_lock s = Some t" and q: "iq_indices (im_queue s) = xs @ [i]"
      using lock by (auto simp: lock_ok_def)
    then show ?thesis using step Step Ip_Storing idle_inv_store [OF inv t q] by auto
  qed (use step Step in simp_all)
qed

interpretation idle_threads: safe_machine idle_step "idle_start (Suc n)" "idle_inv (Suc n)"
  by unfold_locales (use idle_inv_start idle_step_inv in fastforce)+

subsection \<open>Properties\<close>

text \<open>
  C11: the idle queue behaves as if \<open>push\<close> and \<open>pop\<close> were one step each, which is how the scheduler's machine takes
  them. In every reachable state of any number of threads inside them, the operations that took effect so far, in
  the order in which they did, are a run of the one-step queue with the same results, although \<open>pending\<close> is read
  outside of the lock; with the lock free it ends in the very state of the queue. So no step panics, the
  worker a thread removes is the one recorded for it, and no worker is lost or handed out twice.
\<close>

theorem idle_queue_is_linearizable:
  assumes "reach idle_step (idle_start (Suc n)) s"
  shows "idle_step a s \<noteq> Some (Inl p) \<and>
    (\<exists>q. replay idle_push idle_pop (im_log s) (idle_from (Suc n)) = Some q \<and> (im_lock s = None \<longrightarrow> q = im_queue s) \<and>
       (iq_pending (im_queue s) \<longleftrightarrow> iq_indices q \<noteq> []) \<and>
       mset (iq_indices q) + gets (im_log s) = mset [0..<Suc n] + puts (im_log s)) \<and>
    (\<forall>t i w. im_pcs s t = Ip_Removing i w \<longrightarrow> (\<exists>rest. swap_remove (iq_indices (im_queue s)) i = Inr (w, rest)))"
proof -
  have inv: "idle_inv (Suc n) s" by (rule idle_threads.reach_inv [OF assms])
  then have log: "replay idle_push idle_pop (im_log s) (idle_from (Suc n)) = Some (seen_queue s)"
    and ok: "idle_ok (seen_queue s)" by (simp_all add: idle_inv_def)
  have "idle_ok (idle_from (Suc n))" by (simp add: idle_ok_def idle_from_def)
  note keeps = idle.replay_keeps [OF this log]
  have seen: "im_lock s = None \<longrightarrow> seen_queue s = im_queue s" by (simp add: seen_queue_def)
  from keeps
  have "mset (iq_indices (seen_queue s)) + gets (im_log s) = mset [0..<Suc n] + puts (im_log s)"
    by (simp add: idle_elems_def idle_from_def)
  then have "\<exists>q. replay idle_push idle_pop (im_log s) (idle_from (Suc n)) = Some q \<and> (im_lock s = None \<longrightarrow> q = im_queue s) \<and>
       (iq_pending (im_queue s) \<longleftrightarrow> iq_indices q \<noteq> []) \<and>
       mset (iq_indices q) + gets (im_log s) = mset [0..<Suc n] + puts (im_log s)"
    using log ok seen by (intro exI [of _ "seen_queue s"]) (simp add: idle_ok_def)
  moreover have "\<exists>rest. swap_remove (iq_indices (im_queue s)) i = Inr (w, rest)" if "im_pcs s t = Ip_Removing i w" for t i w
  proof -
    have "lock_ok s t" using inv by (simp add: idle_inv_def)
    then show ?thesis using that by (auto simp: lock_ok_def swap_remove_end)
  qed
  moreover have "idle_step a s \<noteq> Some (Inl p)" by (rule idle_threads.reach_no_panic [OF assms])
  ultimately show ?thesis by simp
qed

text \<open>One worker: a pop has it and has not removed it yet, while another thread looks at the flag.\<close>

definition racing_pops :: "idle_action list" where
  "racing_pops = [Start_Pop 0, Start_Pop 1, Step 0, Step 0, Step 1]"

theorem idle_queue_is_linearizable_witness:
  "\<exists>s. run idle_step (idle_start (Suc 0)) racing_pops = Some (Inr s) \<and> im_log s = [Got (Some 0), Got None] \<and>
    iq_indices (im_queue s) = [0] \<and> (\<exists>q. replay idle_push idle_pop (im_log s) (idle_from (Suc 0)) = Some q \<and> iq_indices q = [])"
proof -
  obtain s where r: "run idle_step (idle_start (Suc 0)) racing_pops = Some (Inr s)"
    and s: "im_log s = [Got (Some 0), Got None]" "iq_indices (im_queue s) = [0]" "iq_pending (im_queue s) = False"
    by (simp add: racing_pops_def idle_start_def idle_from_def put_pc_def put_log_def)
  from idle_queue_is_linearizable [OF run_reach [OF r]] s(3)
  obtain q where "replay idle_push idle_pop (im_log s) (idle_from (Suc 0)) = Some q" "iq_indices q = []" by blast
  then show ?thesis using r s(1,2) by blast
qed

text \<open>
  The parkers of a full pool: whatever threads are listed and handed workers in turn, each listed parker is in the
  list or was unparked once, and as long as one is listed, \<open>spawn\<close> finds one.
\<close>

theorem idle_parkers_are_conserved:
  assumes "pool_full tp" "replay pool_list pool_take es tp = Some tp'"
  shows "mset (tp_idle tp') + gets es = mset (tp_idle tp) + puts es \<and>
    (tp_idle tp' \<noteq> [] \<longrightarrow> (\<exists>p tp1. spawn_step tp' = Inr (Spawn_Unpark p, tp1) \<and> p \<in> set (tp_idle tp')))"
proof -
  have ok: "pool_full tp'" "mset (tp_idle tp') + gets es = mset (tp_idle tp) + puts es"
    using parkers.replay_keeps [OF assms] by (simp_all add: pool_elems_def)
  have "\<exists>p tp1. spawn_step tp' = Inr (Spawn_Unpark p, tp1) \<and> p \<in> set (tp_idle tp')" if "tp_idle tp' \<noteq> []"
  proof -
    obtain p tp1 where "pool_take tp' = Inr (Some p, tp1)" "p \<in># pool_elems tp'"
      using parkers.get_finds [OF ok(1)] \<open>tp_idle tp' \<noteq> []\<close> by (auto simp: pool_elems_def)
    moreover from this obtain st tp2 where "spawn_step tp' = Inr (st, tp2)" by (auto simp: pool_take_def)
    ultimately show ?thesis by (cases st) (auto simp: pool_take_def pool_elems_def)
  qed
  then show ?thesis using ok(2) by blast
qed

theorem idle_parkers_are_conserved_witness:
  "\<exists>tp'. replay pool_list pool_take [Put 3, Put 5, Got (Some 3)]
      \<lparr>tp_max = 2, tp_running = True, tp_pending = 0, tp_spawned = 2, tp_idle = []\<rparr> = Some tp' \<and>
    mset (tp_idle tp') = {#5#}"
proof -
  let ?tp = "\<lparr>tp_max = 2, tp_running = True, tp_pending = 0, tp_spawned = 2, tp_idle = []\<rparr>"
  have full: "pool_full ?tp" by (simp add: pool_full_def)
  obtain tp' where r: "replay pool_list pool_take [Put 3, Put 5, Got (Some 3)] ?tp = Some tp'"
    by (simp add: pool_list_def pool_take_def spawn_step_def swap_remove_def)
  from idle_parkers_are_conserved [OF full r] r show ?thesis by simp
qed

end
