(* ===== verification/Quick_Sort.thy ===== *)
theory Quick_Sort
  imports Prelude
begin

text \<open>
  \<open>src/examples/qsort/yaar.rs\<close>: a client of the runtime that sorts an array with one task per slice.
  Out-of-range indices and the underflow of a length are panics; the slices of a split are lists,
  which is what their exclusive borrows mean.
\<close>

type_synonym i32 = "32 word"

subsection \<open>Arrays\<close>

definition swap_at :: "nat \<Rightarrow> nat \<Rightarrow> 'a list \<Rightarrow> 'a list res" where
  "swap_at i j arr =
     (if i < length arr \<and> j < length arr then Inr (arr[i := arr ! j, j := arr ! i]) else Inl Index_Out_Of_Bounds)"

fun verify :: "i32 list \<Rightarrow> bool" where
  "verify (a # b # arr) \<longleftrightarrow> a <=s b \<and> verify (b # arr)"
| "verify arr \<longleftrightarrow> True"

text \<open>The array before it is shuffled.\<close>

definition filled_array :: "nat \<Rightarrow> i32 list" where
  "filled_array n = map of_nat [0..<n]"

definition xorshift32 :: "u32 \<Rightarrow> u32" where
  "xorshift32 xs =
     (let xs1 = xs XOR push_bit 13 xs; xs2 = xs1 XOR drop_bit 17 xs1 in xs2 XOR push_bit 5 xs2)"

function shuffle_loop :: "nat \<Rightarrow> nat \<Rightarrow> u32 \<Rightarrow> i32 list \<Rightarrow> i32 list res" where
  "shuffle_loop n i xs arr =
     (if i < n
      then
        let xs' = xorshift32 xs; j = unat xs' mod (i + 1)
        in rbind (swap_at i j arr) (\<lambda>arr1. shuffle_loop n (i + 1) xs' arr1)
      else Inr arr)"
  by pat_completeness auto
termination by (relation "measure (\<lambda>(n, i, xs, arr). n - i)") auto

definition shuffle :: "i32 list \<Rightarrow> i32 list res" where
  "shuffle arr = shuffle_loop (length arr) 0 0xdeadbeef arr"

function partition_loop :: "nat \<Rightarrow> nat \<Rightarrow> nat \<Rightarrow> i32 list \<Rightarrow> (nat \<times> i32 list) res" where
  "partition_loop pivot j i arr =
     (if j < pivot
      then
        rbind (index arr j) (\<lambda>a.
        rbind (index arr pivot) (\<lambda>p.
          if a <=s p
          then rbind (swap_at i j arr) (\<lambda>arr1. partition_loop pivot (j + 1) (i + 1) arr1)
          else partition_loop pivot (j + 1) i arr))
      else Inr (i, arr))"
  by pat_completeness auto
termination by (relation "measure (\<lambda>(pivot, j, i, arr). pivot - j)") auto

definition partition_arr :: "i32 list \<Rightarrow> (nat \<times> i32 list) res" where
  "partition_arr arr =
     (if length arr = 0 then Inl Arithmetic_Overflow
      else
        let pivot = length arr - 1
        in rbind (partition_loop pivot 0 0 arr) (\<lambda>(i, arr1).
           rbind (swap_at i pivot arr1) (\<lambda>arr2. Inr (i, arr2))))"

text \<open>The inner loop of \<open>insertion_sort\<close> from position \<open>n\<close> down.\<close>

fun insert_loop :: "nat \<Rightarrow> i32 list \<Rightarrow> i32 list res" where
  "insert_loop 0 arr = Inr arr"
| "insert_loop (Suc n) arr =
     rbind (index arr (Suc n)) (\<lambda>a.
     rbind (index arr n) (\<lambda>b.
       if a <s b then rbind (swap_at (Suc n) n arr) (insert_loop n) else Inr arr))"

function insertion_loop :: "nat \<Rightarrow> nat \<Rightarrow> i32 list \<Rightarrow> i32 list res" where
  "insertion_loop n i arr =
     (if i < n then rbind (insert_loop i arr) (\<lambda>arr1. insertion_loop n (i + 1) arr1) else Inr arr)"
  by pat_completeness auto
termination by (relation "measure (\<lambda>(n, i, arr). n - i)") auto

definition insertion_sort :: "i32 list \<Rightarrow> i32 list res" where
  "insertion_sort arr = insertion_loop (length arr) 1 arr"

declare shuffle_loop.simps [simp del] partition_loop.simps [simp del] insertion_loop.simps [simp del]

subsection \<open>Facts\<close>

text \<open>Order by signed value.\<close>

abbreviation (input) below :: "i32 \<Rightarrow> i32 \<Rightarrow> bool" where
  "below a b \<equiv> sint a \<le> sint b"

lemma verify_sorted: "verify arr \<longleftrightarrow> sorted (map sint arr)"
  by (induction arr rule: verify.induct) (auto simp: word_sle_eq intro: order_trans)

lemma swap_at_ok:
  assumes "i < length arr" "j < length arr"
  shows "\<exists>arr'. swap_at i j arr = Inr arr' \<and> mset arr' = mset arr \<and> length arr' = length arr \<and>
    (\<forall>k < length arr. arr' ! k = (if k = i then arr ! j else if k = j then arr ! i else arr ! k))"
  using assms by (auto simp: swap_at_def mset_swap nth_list_update)

lemma shuffle_loop_ok:
  assumes "n = length arr"
  shows "\<exists>arr'. shuffle_loop n i xs arr = Inr arr' \<and> mset arr' = mset arr"
  using assms
proof (induction n i xs arr rule: shuffle_loop.induct)
  case (1 n i xs arr)
  show ?case
  proof (cases "i < n")
    case True
    define xs3 where "xs3 = xorshift32 xs"
    have "unat xs3 mod (i + 1) < i + 1" by (rule mod_less_divisor) simp
    then have "unat xs3 mod (i + 1) < length arr" using True 1(2) by linarith
    then obtain arr1 where sw: "swap_at i (unat xs3 mod (i + 1)) arr = Inr arr1" "mset arr1 = mset arr" "length arr1 = length arr"
      using swap_at_ok [of i arr "unat xs3 mod (i + 1)"] True 1(2) by auto
    have "\<exists>arr'. shuffle_loop n (i + 1) xs3 arr1 = Inr arr' \<and> mset arr' = mset arr1"
      by (rule 1(1) [OF True xs3_def refl sw(1)]) (use sw 1(2) in simp)
    then show ?thesis
      using True sw by (subst shuffle_loop.simps) (simp add: Let_def xs3_def)
  next
    case False
    then show ?thesis by (subst shuffle_loop.simps) simp
  qed
qed

lemma shuffle_ok: "\<exists>arr'. shuffle arr = Inr arr' \<and> mset arr' = mset arr"
  unfolding shuffle_def by (rule shuffle_loop_ok) simp

subsection \<open>Insertion sort\<close>

text \<open>
  While an element sinks from position \<open>m\<close> and is at \<open>n\<close>: the others up to \<open>m\<close> are in order, and those
  behind it are not below it.
\<close>

definition sinking :: "nat \<Rightarrow> nat \<Rightarrow> i32 list \<Rightarrow> bool" where
  "sinking n m arr \<longleftrightarrow> n \<le> m \<and> m < length arr \<and>
     (\<forall>i j. i < j \<and> j \<le> m \<and> i \<noteq> n \<and> j \<noteq> n \<longrightarrow> below (arr ! i) (arr ! j)) \<and>
     (\<forall>j. n < j \<and> j \<le> m \<longrightarrow> below (arr ! n) (arr ! j))"

definition in_order :: "nat \<Rightarrow> i32 list \<Rightarrow> bool" where
  "in_order m arr \<longleftrightarrow> (\<forall>i j. i < j \<and> j < m \<longrightarrow> below (arr ! i) (arr ! j))"

lemma sinking_stops:
  assumes "sinking n m arr" "n = 0 \<or> below (arr ! (n - 1)) (arr ! n)"
  shows "in_order (Suc m) arr"
  unfolding in_order_def
proof (intro allI impI, elim conjE)
  fix i j assume ij: "i < j" "j < Suc m"
  show "below (arr ! i) (arr ! j)"
  proof (cases "j = n")
    case True
    have "i = n - 1 \<or> i < n - 1 \<and> n - 1 \<le> m \<and> i \<noteq> n \<and> n - 1 \<noteq> n" using True ij by auto
    then have "below (arr ! i) (arr ! (n - 1))" using assms(1) by (auto simp: sinking_def)
    then show ?thesis using assms(2) True ij(1) by auto
  next
    case False
    then show ?thesis using assms(1) ij by (cases "i = n") (auto simp: sinking_def)
  qed
qed

lemma sinking_swap:
  assumes "sinking (Suc n) m arr" "\<not> below (arr ! n) (arr ! Suc n)"
    and "\<And>k. k < length arr \<Longrightarrow> arr' ! k = (if k = Suc n then arr ! n else if k = n then arr ! Suc n else arr ! k)"
    and "length arr' = length arr"
  shows "sinking n m arr'"
proof -
  have m: "Suc n \<le> m" "m < length arr" using assms(1) by (simp_all add: sinking_def)
  have at: "arr' ! k = (if k = Suc n then arr ! n else if k = n then arr ! Suc n else arr ! k)" if "k \<le> m" for k
    using assms(3) that m by simp
  have ord: "below (arr ! i) (arr ! j)" if "i < j" "j \<le> m" "i \<noteq> Suc n" "j \<noteq> Suc n" for i j
    using assms(1) that by (simp add: sinking_def)
  have bel: "below (arr ! Suc n) (arr ! j)" if "Suc n < j" "j \<le> m" for j
    using assms(1) that by (simp add: sinking_def)
  have "below (arr' ! i) (arr' ! j)" if "i < j" "j \<le> m" "i \<noteq> n" "j \<noteq> n" for i j
    using that at [of i] at [of j] ord [of i j] ord [of n j] ord [of i n] by auto
  moreover have "below (arr' ! n) (arr' ! j)" if "n < j" "j \<le> m" for j
    using that at [of n] at [of j] bel [of j] assms(2) m by auto
  ultimately show ?thesis using m assms(4) by (simp add: sinking_def)
qed

lemma insert_loop_ok:
  assumes "sinking n m arr"
  shows "\<exists>arr'. insert_loop n arr = Inr arr' \<and> mset arr' = mset arr \<and> length arr' = length arr \<and>
    in_order (Suc m) arr'"
  using assms
proof (induction n arbitrary: arr)
  case 0
  then show ?case using sinking_stops by simp
next
  case (Suc n)
  have l: "Suc n < length arr" "n < length arr" using Suc.prems by (auto simp: sinking_def)
  show ?case
  proof (cases "arr ! Suc n <s arr ! n")
    case True
    then have nb: "\<not> below (arr ! n) (arr ! Suc n)" by (simp add: word_sless_alt)
    obtain arr1 where sw: "swap_at (Suc n) n arr = Inr arr1" "mset arr1 = mset arr" "length arr1 = length arr"
      "\<And>k. k < length arr \<Longrightarrow> arr1 ! k = (if k = Suc n then arr ! n else if k = n then arr ! Suc n else arr ! k)"
      using swap_at_ok [OF l] by auto
    from Suc.IH [OF sinking_swap [OF Suc.prems nb sw(4,3)]] show ?thesis
      using True l sw by auto
  next
    case False
    then have "below (arr ! (Suc n - 1)) (arr ! Suc n)" by (simp add: word_sless_alt)
    then show ?thesis using False l sinking_stops [OF Suc.prems] by simp
  qed
qed

lemma insertion_loop_ok:
  assumes "n = length arr" "in_order i arr"
  shows "\<exists>arr'. insertion_loop n i arr = Inr arr' \<and> mset arr' = mset arr \<and> in_order n arr'"
  using assms
proof (induction n i arr rule: insertion_loop.induct)
  case (1 n i arr)
  show ?case
  proof (cases "i < n")
    case True
    have "sinking i i arr"
      using 1(2,3) True by (auto simp: sinking_def in_order_def)
    then obtain arr1 where one: "insert_loop i arr = Inr arr1" "mset arr1 = mset arr" "length arr1 = length arr"
      "in_order (i + 1) arr1" using insert_loop_ok by (metis Suc_eq_plus1)
    have "\<exists>arr'. insertion_loop n (i + 1) arr1 = Inr arr' \<and> mset arr' = mset arr1 \<and> in_order n arr'"
      by (rule 1(1) [OF True one(1)]) (use one 1(2) in simp_all)
    then show ?thesis using True one by (subst insertion_loop.simps) simp
  next
    case False
    then show ?thesis using 1(3) by (subst insertion_loop.simps) (simp add: in_order_def)
  qed
qed

lemma in_order_sorted: "in_order (length arr) arr \<Longrightarrow> sorted (map sint arr)"
  by (auto simp: in_order_def sorted_iff_nth_mono_less)

lemma insertion_sort_ok:
  "\<exists>arr'. insertion_sort arr = Inr arr' \<and> mset arr' = mset arr \<and> sorted (map sint arr')"
proof -
  have "in_order 1 arr" by (simp add: in_order_def)
  from insertion_loop_ok [OF refl this] obtain arr' where
    r: "insertion_sort arr = Inr arr'" "mset arr' = mset arr" "in_order (length arr) arr'"
    unfolding insertion_sort_def by blast
  then have "length arr' = length arr" by (metis size_mset)
  then show ?thesis using r in_order_sorted by metis
qed

subsection \<open>Partitioning\<close>

definition parted :: "nat \<Rightarrow> nat \<Rightarrow> nat \<Rightarrow> i32 list \<Rightarrow> bool" where
  "parted pivot j i arr \<longleftrightarrow> i \<le> j \<and> j \<le> pivot \<and> pivot < length arr \<and>
     (\<forall>k < i. below (arr ! k) (arr ! pivot)) \<and>
     (\<forall>k. i \<le> k \<and> k < j \<longrightarrow> \<not> below (arr ! k) (arr ! pivot))"

lemma parted_swap:
  assumes "parted pivot j i arr" "j < pivot" "below (arr ! j) (arr ! pivot)"
    and "\<And>k. k < length arr \<Longrightarrow> arr' ! k = (if k = i then arr ! j else if k = j then arr ! i else arr ! k)"
    and "length arr' = length arr"
  shows "parted pivot (j + 1) (i + 1) arr'"
proof -
  have b: "i \<le> j" "pivot < length arr" using assms(1) by (simp_all add: parted_def)
  have at: "arr' ! k = (if k = i then arr ! j else if k = j then arr ! i else arr ! k)" if "k \<le> pivot" for k
    using assms(4) that b by simp
  have p: "arr' ! pivot = arr ! pivot" using at [of pivot] assms(2) b by auto
  have "below (arr' ! k) (arr ! pivot)" if "k < i + 1" for k
    using that at [of k] assms(1-3) b by (auto simp: parted_def less_Suc_eq)
  moreover have "\<not> below (arr' ! k) (arr ! pivot)" if "i + 1 \<le> k" "k < j + 1" for k
    using that at [of k] assms(1,2) b by (auto simp: parted_def less_Suc_eq)
  ultimately show ?thesis using b assms(2,5) p by (simp add: parted_def)
qed

lemma partition_loop_ok:
  assumes "parted pivot j i arr"
  shows "\<exists>i' arr'. partition_loop pivot j i arr = Inr (i', arr') \<and> mset arr' = mset arr \<and> length arr' = length arr \<and>
    parted pivot pivot i' arr' \<and> i \<le> i' \<and> (i' = i \<longrightarrow> arr' = arr)"
  using assms
proof (induction pivot j i arr rule: partition_loop.induct)
  case (1 pivot j i arr)
  have l: "i \<le> j" "j \<le> pivot" "pivot < length arr" using 1(3) by (simp_all add: parted_def)
  show ?case
  proof (cases "j < pivot")
    case True
    have g: "index arr j = Inr (arr ! j)" "index arr pivot = Inr (arr ! pivot)" using True l by simp_all
    show ?thesis
    proof (cases "arr ! j <=s arr ! pivot")
      case le: True
      then have b: "below (arr ! j) (arr ! pivot)" by (simp add: word_sle_eq)
      obtain arr1 where sw: "swap_at i j arr = Inr arr1" "mset arr1 = mset arr" "length arr1 = length arr"
        "\<And>k. k < length arr \<Longrightarrow> arr1 ! k = (if k = i then arr ! j else if k = j then arr ! i else arr ! k)"
        using swap_at_ok [of i arr j] l True by auto
      from 1(1) [OF True g le sw(1) parted_swap [OF 1(3) True b sw(4,3)]]
      obtain i' arr' where "partition_loop pivot (j + 1) (i + 1) arr1 = Inr (i', arr')" "mset arr' = mset arr1"
        "length arr' = length arr1" "parted pivot pivot i' arr'" "i + 1 \<le> i'" by blast
      then show ?thesis using True g le sw by (subst partition_loop.simps) simp
    next
      case gt: False
      have "parted pivot (j + 1) i arr"
        using 1(3) True gt by (auto simp: parted_def word_sle_eq less_Suc_eq)
      from 1(2) [OF True g gt this] show ?thesis using True g gt by (subst partition_loop.simps) simp
    qed
  next
    case False
    then show ?thesis using 1(3) l by (subst partition_loop.simps) (auto simp: parted_def)
  qed
qed

text \<open>
  The least element at the front is what makes a second useless partition impossible: one that
  splits off nothing puts it there.
\<close>

definition least_first :: "i32 list \<Rightarrow> bool" where
  "least_first arr \<longleftrightarrow> (\<forall>x \<in> set arr. below (arr ! 0) x)"

lemma partition_ok:
  assumes "2 \<le> length arr"
  shows "\<exists>mid ys. partition_arr arr = Inr (mid, ys) \<and> mset ys = mset arr \<and> mid < length ys \<and>
    (\<forall>x \<in> set (take mid ys). \<forall>y \<in> set (drop mid ys). below x y) \<and>
    (mid = 0 \<longrightarrow> \<not> least_first arr \<and> least_first ys)"
proof -
  let ?p = "length arr - 1"
  have "parted ?p 0 0 arr" using assms by (simp add: parted_def)
  from partition_loop_ok [OF this] obtain i arr1 where
    lp: "partition_loop ?p 0 0 arr = Inr (i, arr1)" "mset arr1 = mset arr" "length arr1 = length arr"
    "parted ?p ?p i arr1" "i = 0 \<longrightarrow> arr1 = arr" by auto
  have i: "i \<le> ?p" "?p < length arr1" using lp(4) by (simp_all add: parted_def)
  then have "i < length arr1" by linarith
  from swap_at_ok [OF this i(2)] obtain ys where sw: "swap_at i ?p arr1 = Inr ys" "mset ys = mset arr1"
    "length ys = length arr1"
    "\<And>k. k < length arr1 \<Longrightarrow> ys ! k = (if k = i then arr1 ! ?p else if k = ?p then arr1 ! i else arr1 ! k)" by auto
  have run: "partition_arr arr = Inr (i, ys)"
    using assms lp(1) sw(1) by (auto simp: partition_arr_def Let_def)
  have small: "below (ys ! k) (arr1 ! ?p)" if "k < i" for k
    using that sw(4) [of k] i lp(4) by (simp add: parted_def)
  have large: "below (arr1 ! ?p) (ys ! k)" if "i \<le> k" "k < length ys" for k
  proof (cases "k = i")
    case False
    then have "i < ?p" using that sw(3) lp(3) by linarith
    have gt: "below (arr1 ! ?p) (arr1 ! m)" if "i \<le> m" "m < ?p" for m
      using lp(4) that unfolding parted_def by force
    show ?thesis
    proof (cases "k = ?p")
      case True
      then show ?thesis using False sw(3) sw(4) [of k] that gt [of i] \<open>i < ?p\<close> by simp
    next
      case neq: False
      then have "k < ?p" using that(2) sw(3) lp(3) by linarith
      then show ?thesis using False neq sw(3) sw(4) [of k] that gt [of k] by simp
    qed
  qed (use that sw(3) sw(4) [of k] in simp)
  have "below x y" if x: "x \<in> set (take i ys)" and y: "y \<in> set (drop i ys)" for x y
  proof -
    obtain k where "x = ys ! k" "k < i" using x by (auto simp: in_set_conv_nth)
    moreover obtain m where "y = ys ! (i + m)" "i + m < length ys" using y by (auto simp: in_set_conv_nth)
    ultimately show ?thesis using small [of k] large [of "i + m"] by force
  qed
  moreover have "\<not> least_first arr \<and> least_first ys" if "i = 0"
  proof
    have "\<not> below (arr ! 0) (arr ! ?p)" using lp(4,5) that assms by (simp add: parted_def)
    moreover have "arr ! ?p \<in> set arr" using assms by simp
    ultimately show "\<not> least_first arr" unfolding least_first_def by blast
    have "ys ! 0 = arr1 ! ?p" using sw(4) [of 0] that \<open>i < length arr1\<close> by simp
    then show "least_first ys" using large that by (auto simp: least_first_def in_set_conv_nth)
  qed
  ultimately show ?thesis using run lp(2) sw(2) i sw(3) \<open>i < length arr1\<close> by auto
qed

subsection \<open>The tasks\<close>

text \<open>
  The tree of tasks: one that has yet to run on its slice, one that awaits its left or its right
  child (it holds both join handles), one that has finished with its slice sorted, and one
  that panicked.
\<close>

datatype sort_task =
    Todo "i32 list"
  | Await_Left sort_task sort_task
  | Await_Right sort_task sort_task
  | Sorted "i32 list"
  | Panicked panic

text \<open>What \<open>quick_sort\<close> does when its task first runs.\<close>

definition quick_sort :: "i32 list \<Rightarrow> sort_task" where
  "quick_sort arr =
     (if length arr \<le> 32
      then (case insertion_sort arr of Inl p \<Rightarrow> Panicked p | Inr arr1 \<Rightarrow> Sorted arr1)
      else (case partition_arr arr of
              Inl p \<Rightarrow> Panicked p
            | Inr (mid, arr1) \<Rightarrow> Await_Left (Todo (take mid arr1)) (Todo (drop mid arr1))))"

text \<open>
  A step of any task, in any order: it runs, or the task it awaits has finished. A join handle
  resumes the panic of its task in the one that awaits it.
\<close>

inductive sort_step :: "sort_task \<Rightarrow> sort_task \<Rightarrow> bool" where
  run: "sort_step (Todo arr) (quick_sort arr)"
| left_moves: "sort_step l l' \<Longrightarrow> sort_step (Await_Left l r) (Await_Left l' r)"
| right_moves: "sort_step r r' \<Longrightarrow> sort_step (Await_Left l r) (Await_Left l r')"
| right_moves_later: "sort_step r r' \<Longrightarrow> sort_step (Await_Right l r) (Await_Right l r')"
| join_left: "sort_step (Await_Left (Sorted xs) r) (Await_Right (Sorted xs) r)"
| join_right: "sort_step (Await_Right (Sorted xs) (Sorted ys)) (Sorted (xs @ ys))"
| panic_left: "sort_step (Await_Left (Panicked p) r) (Panicked p)"
| panic_right: "sort_step (Await_Right l (Panicked p)) (Panicked p)"

inductive_cases todo_stepE: "sort_step (Todo arr) t"
inductive_cases left_stepE: "sort_step (Await_Left l r) t"
inductive_cases right_stepE: "sort_step (Await_Right l r) t"
inductive_simps no_step_simps [simp]: "sort_step (Sorted xs) t" "sort_step (Panicked p) t"

text \<open>The slice of a task, and what is known of it.\<close>

fun slice_of :: "sort_task \<Rightarrow> i32 list" where
  "slice_of (Todo arr) = arr"
| "slice_of (Await_Left l r) = slice_of l @ slice_of r"
| "slice_of (Await_Right l r) = slice_of l @ slice_of r"
| "slice_of (Sorted arr) = arr"
| "slice_of (Panicked p) = []"

definition split_below :: "sort_task \<Rightarrow> sort_task \<Rightarrow> bool" where
  "split_below l r \<longleftrightarrow> (\<forall>x \<in> set (slice_of l). \<forall>y \<in> set (slice_of r). below x y)"

fun sort_inv :: "sort_task \<Rightarrow> bool" where
  "sort_inv (Todo arr) \<longleftrightarrow> True"
| "sort_inv (Await_Left l r) \<longleftrightarrow> sort_inv l \<and> sort_inv r \<and> split_below l r"
| "sort_inv (Await_Right l r) \<longleftrightarrow> (\<exists>xs. l = Sorted xs) \<and> sort_inv l \<and> sort_inv r \<and> split_below l r"
| "sort_inv (Sorted arr) \<longleftrightarrow> sorted (map sint arr)"
| "sort_inv (Panicked p) \<longleftrightarrow> False"

text \<open>A bound on the steps left, by the length of the slices that have yet to be split.\<close>

definition todo_size :: "i32 list \<Rightarrow> nat" where
  "todo_size arr = 2 * length arr + (if least_first arr then 0 else 1)"

fun steps_left :: "sort_task \<Rightarrow> nat" where
  "steps_left (Todo arr) = todo_size arr * todo_size arr + 1"
| "steps_left (Await_Left l r) = steps_left l + steps_left r + 2"
| "steps_left (Await_Right l r) = steps_left l + steps_left r + 1"
| "steps_left (Sorted arr) = 0"
| "steps_left (Panicked p) = 0"

lemma set_of_mset: "mset xs = mset ys \<Longrightarrow> set xs = set ys"
  by (metis set_mset_mset)

lemma quick_sort_ok:
  "mset (slice_of (quick_sort arr)) = mset arr \<and> sort_inv (quick_sort arr)"
proof (cases "length arr \<le> 32")
  case True
  then show ?thesis using insertion_sort_ok [of arr] by (auto simp: quick_sort_def)
next
  case False
  then have "2 \<le> length arr" by simp
  from partition_ok [OF this] obtain mid ys where p: "partition_arr arr = Inr (mid, ys)" "mset ys = mset arr"
    "\<forall>x \<in> set (take mid ys). \<forall>y \<in> set (drop mid ys). below x y" by blast
  have "quick_sort arr = Await_Left (Todo (take mid ys)) (Todo (drop mid ys))"
    using False p(1) by (simp add: quick_sort_def)
  then show ?thesis using p by (simp add: split_below_def del: mset_append)
qed

text \<open>The squares that make the bound work: a split into two parts, and one that splits off nothing.\<close>

lemma split_squares:
  fixes a c :: nat
  assumes "1 \<le> a" "1 \<le> c" "33 \<le> a + c" "x \<le> 2 * a + 1" "y \<le> 2 * c + 1"
  shows "x * x + y * y + 4 < (2 * (a + c)) * (2 * (a + c)) + 1"
proof -
  have "x * x \<le> (2 * a + 1) * (2 * a + 1)" "y * y \<le> (2 * c + 1) * (2 * c + 1)"
    using assms(4,5) by (auto intro: mult_le_mono simp del: mult_Suc mult_Suc_right)
  moreover obtain a' c' where "a = Suc a'" "c = Suc c'" using assms(1,2) by (metis Suc_le_D One_nat_def)
  ultimately show ?thesis using assms(3) by (simp add: algebra_simps)
qed

lemma quick_sort_steps: "steps_left (quick_sort arr) < steps_left (Todo arr)"
proof (cases "length arr \<le> 32")
  case True
  then show ?thesis using insertion_sort_ok [of arr] by (auto simp: quick_sort_def)
next
  case False
  then have two: "2 \<le> length arr" by simp
  from partition_ok [OF this] obtain mid ys where p: "partition_arr arr = Inr (mid, ys)" "mset ys = mset arr"
    "mid < length ys" "mid = 0 \<longrightarrow> \<not> least_first arr \<and> least_first ys" by blast
  have len: "length ys = length arr" using p(2) by (metis size_mset)
  have q: "quick_sort arr = Await_Left (Todo (take mid ys)) (Todo (drop mid ys))"
    using False p(1) by (simp add: quick_sort_def)
  let ?n = "length arr" let ?sq = "\<lambda>xs. todo_size xs * todo_size xs"
  have "?sq (take mid ys) + ?sq (drop mid ys) + 4 < ?sq arr + 1"
  proof (cases "mid = 0")
    case True
    then have "todo_size (take mid ys) \<le> 1" "todo_size (drop mid ys) = 2 * ?n" "todo_size arr = 2 * ?n + 1"
      using p(4) len by (simp_all add: todo_size_def)
    then show ?thesis using False by (cases "todo_size (take mid ys)") (simp_all add: algebra_simps)
  next
    case nz: False
    have "todo_size (take mid ys) \<le> 2 * mid + 1" "todo_size (drop mid ys) \<le> 2 * (?n - mid) + 1"
      using p(3) len by (simp_all add: todo_size_def)
    from split_squares [OF _ _ _ this] have
      "?sq (take mid ys) + ?sq (drop mid ys) + 4 < (2 * ?n) * (2 * ?n) + 1"
      using nz False p(3) len by simp
    moreover have "(2 * ?n) * (2 * ?n) \<le> ?sq arr"
      by (rule mult_le_mono) (simp_all add: todo_size_def)
    ultimately show ?thesis by linarith
  qed
  then show ?thesis using q by simp
qed

lemma sort_step_inv:
  assumes "sort_step t t'" "sort_inv t"
  shows "mset (slice_of t') = mset (slice_of t) \<and> sort_inv t'"
  using assms
proof (induction rule: sort_step.induct)
  case (run arr)
  then show ?case using quick_sort_ok by simp
next
  case (join_right xs ys)
  then show ?case by (auto simp: split_below_def sorted_append)
next
  case (left_moves l l' r)
  then have "mset (slice_of l') = mset (slice_of l)" "sort_inv l'" by simp_all
  then show ?case using left_moves.prems set_of_mset [of "slice_of l'"] by (simp add: split_below_def)
next
  case (right_moves r r' l)
  then have "mset (slice_of r') = mset (slice_of r)" "sort_inv r'" by simp_all
  then show ?case using right_moves.prems set_of_mset [of "slice_of r'"] by (simp add: split_below_def)
next
  case (right_moves_later r r' l)
  then have "mset (slice_of r') = mset (slice_of r)" "sort_inv r'" by simp_all
  then show ?case using right_moves_later.prems set_of_mset [of "slice_of r'"] by (simp add: split_below_def)
qed auto

lemma sort_steps_inv:
  "sort_step\<^sup>*\<^sup>* t t' \<Longrightarrow> sort_inv t \<Longrightarrow> mset (slice_of t') = mset (slice_of t) \<and> sort_inv t'"
  by (induction rule: rtranclp_induct) (use sort_step_inv in fastforce)+

lemma sort_step_decreases: "sort_step t t' \<Longrightarrow> steps_left t' < steps_left t"
  by (induction rule: sort_step.induct) (use quick_sort_steps in \<open>simp_all del: steps_left.simps(1)\<close>)

lemma sort_progress: "sort_inv t \<Longrightarrow> (\<exists>xs. t = Sorted xs) \<or> (\<exists>t'. sort_step t t')"
proof (induction t)
  case (Await_Left l r)
  then show ?case using sort_step.intros(2,5) by fastforce
next
  case (Await_Right l r)
  then show ?case using sort_step.intros(4,6) by fastforce
qed (auto intro: sort_step.run)

lemma sort_steps_bounded: "(sort_step ^^ k) t t' \<Longrightarrow> k + steps_left t' \<le> steps_left t"
proof (induction k arbitrary: t')
  case (Suc k)
  then obtain t1 where "(sort_step ^^ k) t t1" "sort_step t1 t'" by auto
  then show ?case using Suc.IH [of t1] sort_step_decreases [of t1 t'] by simp
qed simp

lemma sort_steps_length:
  assumes "(sort_step ^^ k) (Todo arr) t"
  shows "k \<le> (2 * length arr + 1) ^ 2 + 1"
proof -
  have "k \<le> todo_size arr * todo_size arr + 1"
    using sort_steps_bounded [OF assms] by simp
  also have "todo_size arr * todo_size arr \<le> (2 * length arr + 1) * (2 * length arr + 1)"
    by (rule mult_le_mono) (simp_all add: todo_size_def)
  finally show ?thesis by (simp only: power2_eq_square)
qed

subsection \<open>Properties\<close>

text \<open>
  Sorting. Whatever the order in which the tasks run and the join handles become ready, no task
  panics; no schedule has more than \<open>(2 n + 1)\<^sup>2 + 1\<close> steps, although a partition may split off nothing and
  leave a slice of the same length; and when nothing is left to do the root task has finished and the
  array is a sorted permutation of the original, so that the final \<open>assert!(verify(arr))\<close> holds.
\<close>

theorem quick_sort_sorts_under_every_schedule:
  assumes "(sort_step ^^ k) (Todo arr) t"
  shows "k \<le> (2 * length arr + 1) ^ 2 + 1 \<and>
    ((\<exists>t'. sort_step t t') \<or> (\<exists>ys. t = Sorted ys \<and> verify ys \<and> mset ys = mset arr))"
proof -
  have "sort_step\<^sup>*\<^sup>* (Todo arr) t" using assms by (rule relpowp_imp_rtranclp)
  from sort_steps_inv [OF this] have "mset (slice_of t) = mset arr" "sort_inv t" by simp_all
  then show ?thesis using sort_steps_length [OF assms] sort_progress [of t] by (auto simp: verify_sorted)
qed

lemma small_sort: "quick_sort [3, 1] = Sorted [1, 3]"
  by (simp add: quick_sort_def insertion_sort_def insertion_loop.simps swap_at_def numeral_2_eq_2 word_sless_alt)

theorem quick_sort_sorts_under_every_schedule_witness:
  "\<exists>t. (sort_step ^^ 1) (Todo [3, 1]) t \<and> t = Sorted [1, 3] \<and> verify [1, 3] \<and> mset [1, 3] = mset [3, 1 :: i32]"
proof -
  have r: "(sort_step ^^ 1) (Todo [3, 1]) (Sorted [1, 3])"
    using sort_step.run [of "[3, 1]"] by (simp add: small_sort OO_def)
  from quick_sort_sorts_under_every_schedule [OF r] r show ?thesis by simp
qed

text \<open>
  The whole example: \<open>0 ..< n\<close> is filled in, shuffled and sorted again, for every size whose elements are
  values of \<open>i32\<close>.
\<close>

lemma sint_filled: "n \<le> 2 ^ 31 \<Longrightarrow> map sint (filled_array n) = map int [0..<n]"
  by (auto simp: filled_array_def signed_of_nat signed_take_bit_int_eq_self)

lemma sorted_same_mset:
  assumes "mset xs = mset ys" "sorted (map sint xs)" "sorted (map sint ys)"
  shows "xs = (ys :: i32 list)"
proof -
  have "mset (map sint xs) = mset (map sint ys)" using assms(1) by simp
  then have "map sint xs = map sint ys"
    using assms(2,3) by (metis properties_for_sort)
  moreover have "inj (sint :: i32 \<Rightarrow> int)" by (rule inj_signed)
  ultimately show ?thesis by (simp only: inj_map_eq_map)
qed

text \<open>
  The example program. The array of \<open>0 ..< n\<close> is shuffled without a panic, and every schedule of the
  sort that cannot go on has the root task finished with exactly the array from before the shuffle.
\<close>

theorem sorting_undoes_the_shuffle:
  assumes "n \<le> 2 ^ 31"
  shows "\<exists>arr. shuffle (filled_array n) = Inr arr \<and>
    (\<forall>t. sort_step\<^sup>*\<^sup>* (Todo arr) t \<longrightarrow> (\<nexists>t'. sort_step t t') \<longrightarrow> t = Sorted (filled_array n))"
proof -
  obtain arr where sh: "shuffle (filled_array n) = Inr arr" "mset arr = mset (filled_array n)"
    using shuffle_ok by blast
  have "t = Sorted (filled_array n)" if run: "sort_step\<^sup>*\<^sup>* (Todo arr) t" and stop: "\<nexists>t'. sort_step t t'" for t
  proof -
    have "mset (slice_of t) = mset arr" "sort_inv t" using sort_steps_inv [OF run] by simp_all
    moreover from this obtain ys where t: "t = Sorted ys" using sort_progress [of t] stop by blast
    ultimately have "mset ys = mset (filled_array n)" "sorted (map sint ys)" using sh(2) by simp_all
    moreover have "sorted (map sint (filled_array n))" unfolding sint_filled [OF assms] by (simp add: sorted_iff_nth_mono)
    ultimately show ?thesis using t sorted_same_mset by simp
  qed
  then show ?thesis using sh(1) by blast
qed

theorem sorting_undoes_the_shuffle_witness:
  "\<exists>arr. shuffle [0, 1, 2] = Inr arr \<and>
    (\<forall>t. sort_step\<^sup>*\<^sup>* (Todo arr) t \<longrightarrow> (\<nexists>t'. sort_step t t') \<longrightarrow> t = Sorted [0, 1, 2])"
  using sorting_undoes_the_shuffle [of 3] by (simp add: filled_array_def upt_rec)

end
