(* ===== verification/Sort_Runtimes.thy ===== *)
theory Sort_Runtimes
  imports Quick_Sort
begin

text \<open>
  \<open>src/examples/qsort/rayon.rs\<close> and \<open>tokio.rs\<close>: the two programs the sorting example is measured
  against. They have the same \<open>verify\<close>, \<open>shuffle\<close>, \<open>partition\<close> and \<open>insertion_sort\<close>, and a \<open>quick_sort\<close> of
  their own. What the other runtimes do is a parameter: \<open>scope\<close> is what \<open>rayon::scope\<close> makes of the two
  closures spawned in it, and \<open>poll\<close> what a poll of tokio's \<open>JoinHandle\<close> returns for a task.
\<close>

subsection \<open>Rayon\<close>

lemma partition_decreases:
  assumes "\<not> length arr \<le> 32" "partition_arr arr = Inr (mid, ys)"
  shows "todo_size (take mid ys) < todo_size arr" "todo_size (drop mid ys) < todo_size arr"
proof -
  have "2 \<le> length arr" using assms(1) by simp
  from partition_ok [OF this] assms(2) have p: "mset ys = mset arr" "mid < length ys"
    "mid = 0 \<longrightarrow> \<not> least_first arr \<and> least_first ys" by auto
  then have len: "length ys = length arr" by (metis size_mset)
  show "todo_size (take mid ys) < todo_size arr"
    using p(2) len assms(1) by (auto simp: todo_size_def)
  show "todo_size (drop mid ys) < todo_size arr"
    using p(2,3) len by (cases "mid = 0") (auto simp: todo_size_def)
qed

function rayon_quick_sort ::
  "(i32 list res \<Rightarrow> i32 list res \<Rightarrow> (i32 list \<times> i32 list) res) \<Rightarrow> i32 list \<Rightarrow> i32 list res" where
  "rayon_quick_sort scope arr =
     (if length arr \<le> 32 then insertion_sort arr
      else
        rbind (partition_arr arr) (\<lambda>r.
          let mid = fst r; low = take mid (snd r); high = drop mid (snd r)
          in rbind (scope (rayon_quick_sort scope low) (rayon_quick_sort scope high)) (\<lambda>(low1, high1).
               Inr (low1 @ high1))))"
  by pat_completeness auto
termination
  by (relation "measure (\<lambda>(scope, arr). todo_size arr)") (auto dest: partition_decreases)

declare rayon_quick_sort.simps [simp del]

text \<open>The documented behaviour of \<open>rayon::scope\<close>: it returns when every closure spawned in it has.\<close>

definition scope_joins :: "(i32 list res \<Rightarrow> i32 list res \<Rightarrow> (i32 list \<times> i32 list) res) \<Rightarrow> bool" where
  "scope_joins scope \<longleftrightarrow> (\<forall>low high. scope (Inr low) (Inr high) = Inr (low, high))"

lemma rayon_quick_sort_ok:
  assumes "scope_joins scope"
  shows "\<exists>ys. rayon_quick_sort scope arr = Inr ys \<and> mset ys = mset arr \<and> sorted (map sint ys)"
  using assms
proof (induction scope arr rule: rayon_quick_sort.induct)
  case (1 scope arr)
  show ?case
  proof (cases "length arr \<le> 32")
    case True
    then show ?thesis using insertion_sort_ok [of arr] by (simp add: rayon_quick_sort.simps [of scope arr])
  next
    case False
    then have "2 \<le> length arr" by simp
    from partition_ok [OF this] obtain mid ys where p: "partition_arr arr = Inr (mid, ys)" "mset ys = mset arr"
      "\<forall>x \<in> set (take mid ys). \<forall>y \<in> set (drop mid ys). below x y" by blast
    obtain lo where lo: "rayon_quick_sort scope (take mid ys) = Inr lo" "mset lo = mset (take mid ys)" "sorted (map sint lo)"
      using 1(1) [OF False p(1) refl refl refl 1(3)] by auto
    obtain hi where hi: "rayon_quick_sort scope (drop mid ys) = Inr hi" "mset hi = mset (drop mid ys)" "sorted (map sint hi)"
      using 1(2) [OF False p(1) refl refl refl 1(3)] by auto
    have "rayon_quick_sort scope arr = Inr (lo @ hi)"
      using False p(1) lo(1) hi(1) 1(3) by (simp add: rayon_quick_sort.simps [of scope arr] scope_joins_def Let_def)
    moreover have "mset (lo @ hi) = mset arr"
      using lo(2) hi(2) p(2) by (metis append_take_drop_id mset_append)
    moreover have "sorted (map sint (lo @ hi))"
      using lo(3) hi(3) p(3) set_of_mset [OF lo(2)] set_of_mset [OF hi(2)] by (auto simp: sorted_append)
    ultimately show ?thesis by blast
  qed
qed

text \<open>The program, without printing and timing.\<close>

definition rayon_main ::
  "(i32 list res \<Rightarrow> i32 list res \<Rightarrow> (i32 list \<times> i32 list) res) \<Rightarrow> nat \<Rightarrow> unit res" where
  "rayon_main scope n =
     rbind (shuffle (filled_array n)) (\<lambda>arr.
     rbind (rayon_quick_sort scope arr) (\<lambda>arr1. rassert (verify arr1)))"

lemma rayon_main_ok:
  assumes "scope_joins scope"
  shows "rayon_main scope n = Inr ()"
proof -
  obtain arr where "shuffle (filled_array n) = Inr arr" using shuffle_ok by blast
  moreover obtain ys where "rayon_quick_sort scope arr = Inr ys" "sorted (map sint ys)"
    using rayon_quick_sort_ok [OF assms] by blast
  ultimately show ?thesis by (simp add: rayon_main_def verify_sorted)
qed

subsection \<open>Tokio\<close>

text \<open>A task of tokio's runtime: the body is the same, but a handle returns a result, which is unwrapped.\<close>

definition tokio_quick_sort :: "i32 list \<Rightarrow> sort_task" where
  "tokio_quick_sort arr =
     (if length arr \<le> 32
      then (case insertion_sort arr of Inl p \<Rightarrow> Panicked p | Inr arr1 \<Rightarrow> Sorted arr1)
      else (case partition_arr arr of
              Inl p \<Rightarrow> Panicked p
            | Inr (mid, arr1) \<Rightarrow> Await_Left (Todo (take mid arr1)) (Todo (drop mid arr1))))"

inductive tokio_step :: "(sort_task \<Rightarrow> ('e + unit) option) \<Rightarrow> sort_task \<Rightarrow> sort_task \<Rightarrow> bool"
  for poll :: "sort_task \<Rightarrow> ('e + unit) option" where
  run: "tokio_step poll (Todo arr) (tokio_quick_sort arr)"
| left_moves: "tokio_step poll l l' \<Longrightarrow> tokio_step poll (Await_Left l r) (Await_Left l' r)"
| right_moves: "tokio_step poll r r' \<Longrightarrow> tokio_step poll (Await_Left l r) (Await_Left l r')"
| right_moves_later: "tokio_step poll r r' \<Longrightarrow> tokio_step poll (Await_Right l r) (Await_Right l r')"
| join_left: "poll l = Some (Inr ()) \<Longrightarrow> tokio_step poll (Await_Left l r) (Await_Right l r)"
| join_right: "poll r = Some (Inr ()) \<Longrightarrow> tokio_step poll (Await_Right l r) (Sorted (slice_of l @ slice_of r))"
| unwrap_left: "poll l = Some (Inl e) \<Longrightarrow> tokio_step poll (Await_Left l r) (Panicked Expect_Failed)"
| unwrap_right: "poll r = Some (Inl e) \<Longrightarrow> tokio_step poll (Await_Right l r) (Panicked Expect_Failed)"

text \<open>
  The documented behaviour of a \<open>JoinHandle\<close>: pending until its task is over, then an error exactly when the
  task panicked.
\<close>

definition handle_reports :: "(sort_task \<Rightarrow> ('e + unit) option) \<Rightarrow> bool" where
  "handle_reports poll \<longleftrightarrow>
     (\<forall>t. poll t = Some (Inr ()) \<longleftrightarrow> (\<exists>ys. t = Sorted ys)) \<and>
     (\<forall>t. (\<exists>e. poll t = Some (Inl e)) \<longleftrightarrow> (\<exists>p. t = Panicked p))"

lemma tokio_quick_sort_eq: "tokio_quick_sort = quick_sort"
  by (rule ext) (simp add: tokio_quick_sort_def quick_sort_def)

text \<open>As long as nothing has panicked, the tasks of both runtimes take the same steps.\<close>

lemma tokio_step_forward:
  assumes "tokio_step poll t t'" "handle_reports poll" "sort_inv t"
  shows "sort_step t t'"
  using assms
proof (induction rule: tokio_step.induct)
  case (join_left l r)
  then show ?case by (auto simp: handle_reports_def intro: sort_step.intros)
next
  case (join_right r l)
  then show ?case by (auto simp: handle_reports_def intro: sort_step.intros)
next
  case (unwrap_left l e r)
  then have "\<exists>p. l = Panicked p" unfolding handle_reports_def by blast
  then show ?case using unwrap_left.prems(2) by auto
next
  case (unwrap_right r e l)
  then have "\<exists>p. r = Panicked p" unfolding handle_reports_def by blast
  then show ?case using unwrap_right.prems(2) by auto
qed (auto simp: tokio_quick_sort_eq intro: sort_step.intros)

lemma tokio_step_backward:
  assumes "sort_step t t'" "handle_reports poll" "sort_inv t"
  shows "tokio_step poll t t'"
  using assms
proof (induction rule: sort_step.induct)
  case (run arr)
  show ?case unfolding tokio_quick_sort_eq [symmetric] by (rule tokio_step.run)
next
  case (join_right xs ys)
  then have "poll (Sorted ys) = Some (Inr ())" unfolding handle_reports_def by blast
  from tokio_step.join_right [where poll = poll and l = "Sorted xs" and r = "Sorted ys", OF this] show ?case by simp
qed (auto simp: handle_reports_def intro: tokio_step.intros)

lemma tokio_step_iff:
  "handle_reports poll \<Longrightarrow> sort_inv t \<Longrightarrow> tokio_step poll t t' \<longleftrightarrow> sort_step t t'"
  using tokio_step_forward tokio_step_backward by blast

lemma tokio_steps_sort_steps:
  assumes "(tokio_step poll)\<^sup>*\<^sup>* t t'" "handle_reports poll" "sort_inv t"
  shows "sort_step\<^sup>*\<^sup>* t t'"
  using assms
proof (induction rule: rtranclp_induct)
  case (step u v)
  then have u: "sort_step\<^sup>*\<^sup>* t u" by simp
  from sort_steps_inv [OF this step.prems(2)] have "sort_inv u" by simp
  from tokio_step_forward [OF step.hyps(2) step.prems(1) this] u show ?case
    by (rule rtranclp.rtrancl_into_rtrancl [rotated])
qed simp

subsection \<open>The three programs agree\<close>

lemma sort_ends:
  assumes "sort_step\<^sup>*\<^sup>* (Todo arr) t" "\<nexists>t'. sort_step t t'"
  shows "\<exists>ys. t = Sorted ys \<and> mset ys = mset arr \<and> sorted (map sint ys)"
proof -
  have inv: "mset (slice_of t) = mset arr" "sort_inv t" using sort_steps_inv [OF assms(1)] by simp_all
  then obtain ys where "t = Sorted ys" using sort_progress [of t] assms(2) by blast
  then show ?thesis using inv by simp
qed

lemma tokio_ends:
  assumes "handle_reports poll" "(tokio_step poll)\<^sup>*\<^sup>* (Todo arr) t" "\<nexists>t'. tokio_step poll t t'"
  shows "\<exists>ys. t = Sorted ys \<and> mset ys = mset arr \<and> sorted (map sint ys)"
proof -
  have run: "sort_step\<^sup>*\<^sup>* (Todo arr) t" using tokio_steps_sort_steps [OF assms(2,1)] by simp
  then have "sort_inv t" using sort_steps_inv [OF run] by simp
  then have "\<nexists>t'. sort_step t t'" using assms(3) tokio_step_iff [OF assms(1)] by blast
  with run show ?thesis by (rule sort_ends)
qed

text \<open>
  C36: the sorting example against its references. The fork-join recursion of the rayon program returns,
  and every schedule of the tasks of yaar's runtime, like every schedule of the tasks of tokio's, that cannot
  go on has ended with the root task finished and the very array the recursion returns; this holds
  although the three split the work at run time and neither runtime fixes an order.
\<close>

theorem sorts_agree:
  assumes "scope_joins scope" "handle_reports poll"
  shows "\<exists>ys. rayon_quick_sort scope arr = Inr ys \<and>
    (\<forall>t. sort_step\<^sup>*\<^sup>* (Todo arr) t \<longrightarrow> (\<nexists>t'. sort_step t t') \<longrightarrow> t = Sorted ys) \<and>
    (\<forall>t. (tokio_step poll)\<^sup>*\<^sup>* (Todo arr) t \<longrightarrow> (\<nexists>t'. tokio_step poll t t') \<longrightarrow> t = Sorted ys)"
proof -
  obtain ys where ys: "rayon_quick_sort scope arr = Inr ys" "mset ys = mset arr" "sorted (map sint ys)"
    using rayon_quick_sort_ok [OF assms(1)] by blast
  have same: "t = Sorted ys" if "\<exists>zs. t = Sorted zs \<and> mset zs = mset arr \<and> sorted (map sint zs)" for t
    using that ys sorted_same_mset by metis
  have "t = Sorted ys" if "sort_step\<^sup>*\<^sup>* (Todo arr) t" "\<nexists>t'. sort_step t t'" for t
    using same sort_ends [OF that] by blast
  moreover have "t = Sorted ys" if "(tokio_step poll)\<^sup>*\<^sup>* (Todo arr) t" "\<nexists>t'. tokio_step poll t t'" for t
    using same tokio_ends [OF assms(2) that] by blast
  ultimately show ?thesis using ys(1) by blast
qed

definition poll_task :: "sort_task \<Rightarrow> (panic + unit) option" where
  "poll_task t = (case t of Sorted ys \<Rightarrow> Some (Inr ()) | Panicked p \<Rightarrow> Some (Inl p) | _ \<Rightarrow> None)"

lemma poll_task_reports: "handle_reports poll_task"
  by (auto simp: handle_reports_def poll_task_def split: sort_task.splits)

theorem sorts_agree_witness:
  "\<exists>ys. rayon_quick_sort (\<lambda>l h. rbind l (\<lambda>l. rbind h (\<lambda>h. Inr (l, h)))) [3, 1] = Inr ys \<and>
    (\<forall>t. sort_step\<^sup>*\<^sup>* (Todo [3, 1]) t \<longrightarrow> (\<nexists>t'. sort_step t t') \<longrightarrow> t = Sorted ys) \<and>
    (\<forall>t. (tokio_step poll_task)\<^sup>*\<^sup>* (Todo [3, 1]) t \<longrightarrow> (\<nexists>t'. tokio_step poll_task t t') \<longrightarrow> t = Sorted ys)"
  by (rule sorts_agree) (simp_all add: scope_joins_def poll_task_reports)

end
