(* ===== verification/Http_Example.thy ===== *)
theory Http_Example
  imports Tcp_Listener Tcp_Properties Dispatch
begin

text \<open>
  \<open>src/examples/http/yaar.rs\<close>: the program and its module \<open>compat\<close>, the runtime's listener, streams and \<open>spawn\<close> as the server of
  the \<open>hyper\<close> crate wants them. A connection carries its peer's address with it, which the adapter ignores.
\<close>

definition hyper_execute :: "('d, 'j, 'r) deque_api \<Rightarrow> 'r \<Rightarrow> ('d, 'r) rt_context option \<Rightarrow> 'j executors \<Rightarrow>
    (('d, 'r) rt_context option \<times> 'j executors) res" where
  "hyper_execute api r ctx xs = rbind (spawn api r ctx xs) (\<lambda>(st, ctx', xs'). Inr (ctx', xs'))"

definition hyper_accept_result :: "'a io_result poll \<Rightarrow> 'a io_result option poll" where
  "hyper_accept_result r =
     (case r of
        Pending \<Rightarrow> Pending
      | Ready (Inl e) \<Rightarrow> Ready (Some (Inl e))
      | Ready (Inr stream) \<Rightarrow> Ready (Some (Inr stream)))"

definition hyper_poll_accept :: "nat \<Rightarrow> nat \<Rightarrow> ('l, 'c) listener_api \<Rightarrow> 'w \<Rightarrow> pollable \<Rightarrow> 'w net_poller \<Rightarrow> 'l \<Rightarrow>
    (('c \<times> pollable) io_result option poll \<times> 'w list \<times> pollable \<times> 'w net_poller \<times> 'l) res option" where
  "hyper_poll_accept nb ne ls ctx pl p l =
     map_option (\<lambda>result. rbind result (\<lambda>(r, rest). Inr (hyper_accept_result r, rest))) (poll_accept nb ne ls ctx pl p l)"

definition hyper_poll_read :: "'b readbuf_api \<Rightarrow> 's socket_api \<Rightarrow> 'w \<Rightarrow> pollable \<Rightarrow> 'w net_poller \<Rightarrow> 'b \<times> 's \<Rightarrow>
    (unit io_result poll \<times> 'w list \<times> pollable \<times> 'w net_poller \<times> 'b \<times> 's) res option" where
  "hyper_poll_read api so ctx pl p bs = poll_read_inner api so ctx pl p bs"

definition hyper_poll_write :: "'s socket_api \<Rightarrow> u8 list \<Rightarrow> 'w \<Rightarrow> pollable \<Rightarrow> 'w net_poller \<Rightarrow> 's \<Rightarrow>
    (nat io_result poll \<times> 'w list \<times> pollable \<times> 'w net_poller \<times> 's) res option" where
  "hyper_poll_write so buf ctx pl p s = poll_write_inner so buf ctx pl p s"

definition hyper_poll_flush :: "unit io_result poll" where
  "hyper_poll_flush = poll_flush_inner"

definition hyper_poll_shutdown :: "'s socket_api \<Rightarrow> 's \<Rightarrow> unit io_result poll \<times> 's" where
  "hyper_poll_shutdown so s = poll_shutdown_inner so s"

text \<open>
  The program: \<open>build\<close>, \<open>bind\<close> and \<open>serve\<close> are what building the runtime, binding the listener and the server of
  \<open>hyper\<close> give. The runtime blocks on the server, whose error is the result of the program.
\<close>

definition hello_world :: "'q \<Rightarrow> 'e + string" where
  "hello_world request = Inr ''Hello World''"

definition expect_ok :: "panic \<Rightarrow> 'e + 'a \<Rightarrow> 'a res" where
  "expect_ok p r = (case r of Inl e \<Rightarrow> Inl p | Inr x \<Rightarrow> Inr x)"

definition http_main :: "'x + 'rt \<Rightarrow> ('rt \<Rightarrow> 'y + 'l) \<Rightarrow> ('rt \<Rightarrow> 'l \<Rightarrow> ('q \<Rightarrow> 'e + string) \<Rightarrow> 'z + unit) \<Rightarrow> ('z + unit) res" where
  "http_main build bind serve =
     rbind (expect_ok Unwrap_None build) (\<lambda>rt.
     rbind (expect_ok Expect_Failed (bind rt)) (\<lambda>listener.
       Inr (case serve rt listener hello_world of Inl e \<Rightarrow> Inl e | Inr _ \<Rightarrow> Inr ())))"

lemma http_main_result:
  "http_main (Inr rt) bind serve = Inr r \<longleftrightarrow> (\<exists>l. bind rt = Inr l \<and> r = serve rt l hello_world)"
  by (auto simp: http_main_def expect_ok_def split: sum.splits)

text \<open>The server is never told that there are no more connections.\<close>

lemma hyper_accept_result_some [simp]: "hyper_accept_result r \<noteq> Ready None"
  by (auto simp: hyper_accept_result_def split: poll.splits sum.splits)

lemma hyper_accept_goes_on:
  assumes "hyper_poll_accept nb ne ls ctx pl p l = Some (Inr (r, rest))"
  shows "r \<noteq> Ready None"
proof (cases "poll_accept nb ne ls ctx pl p l")
  case (Some result)
  then show ?thesis using assms by (cases result) (auto simp: hyper_poll_accept_def)
qed (use assms in \<open>simp add: hyper_poll_accept_def\<close>)

text \<open>An application's request is served by a task of the runtime the listener's task is in.\<close>

lemma hyper_execute_spawns:
  assumes "deque_laws api contents injected" "hyper_execute api r (Some c) xs = Inr (ctx', xs')"
  shows "context_tasks contents ctx' + injector_tasks injected (cx_executor c) xs' =
    add_mset r (context_tasks contents (Some c) + injector_tasks injected (cx_executor c) xs)"
proof -
  note s = executor_schedule_tasks [OF assms(1), where ex = "cx_executor c" and r = r and ctx = "Some c"
      and be_fair = False and xs = "task_begun (cx_executor c) xs"]
  have "injector_tasks injected (cx_executor c) (task_begun (cx_executor c) xs) = injector_tasks injected (cx_executor c) xs"
    by (simp add: task_begun_def injector_tasks_def)
  then show ?thesis
    using assms(2) s
    by (auto simp: hyper_execute_def spawn_def task_spawn_on_def task_state_new_def rbind_def split: sum.splits)
qed

end
